(* ===== verification/Gateway_Prelude.thy ===== *)
theory Gateway_Prelude
  imports Main "HOL-Library.Word" "HOL-Library.AList"
begin

text \<open>
  Shared vocabulary of the development: identifiers, durations, the machine integers with
  Rust's saturating and checked operations, and hash maps.

  \<^item> \<open>uuid\<close>: a \<^verbatim>\<open>uuid::Uuid\<close>, 128 bits, of which the components use equality only.
  \<^item> \<open>duration\<close>: a \<^verbatim>\<open>std::time::Duration\<close> as its number of nanoseconds.
    \<open>duration_add\<close> is \<open>None\<close> where the addition of the standard library panics.
  \<^item> \<open>hmap\<close>: a \<^verbatim>\<open>HashMap\<close> as an association list with distinct keys
    (\<open>hm_wf\<close>). The order of the list is the iteration order of the map, which the standard
    library leaves open, so the theorems hold for every order.
\<close>

unbundle bit_operations_syntax

named_theorems gw_simps \<open>unfoldings that evaluate the operations of the model\<close>
named_theorems gw_wf \<open>well-formedness facts of hash maps and component states\<close>

type_synonym u8 = "8 word"
type_synonym u16 = "16 word"
type_synonym u32 = "32 word"
type_synonym u64 = "64 word"
type_synonym uuid = "128 word"
type_synonym duration = nat

section \<open>Saturating and checked machine arithmetic\<close>

definition sat_add :: "'a::len word \<Rightarrow> 'a word \<Rightarrow> 'a word" where
  "sat_add x y = (if unat x + unat y < 2 ^ LENGTH('a) then x + y else - 1)"

definition sat_sub :: "'a::len word \<Rightarrow> 'a word \<Rightarrow> 'a word" where
  "sat_sub x y = (if x \<le> y then 0 else x - y)"

definition checked_add :: "'a::len word \<Rightarrow> 'a word \<Rightarrow> 'a word option" where
  "checked_add x y = (if unat x + unat y < 2 ^ LENGTH('a) then Some (x + y) else None)"

lemma unat_max_word: "unat (- 1 :: 'a::len word) = 2 ^ LENGTH('a) - 1"
  by transfer (simp add: take_bit_minus_one_eq_mask mask_eq_exp_minus_1 nat_diff_distrib nat_power_eq)

lemma unat_sat_add:
  "unat (sat_add x y) = min (unat x + unat y) (2 ^ LENGTH('a) - 1)" for x y :: "'a::len word"
  by (auto simp: sat_add_def unat_max_word unat_word_ariths)

lemma unat_sat_sub: "unat (sat_sub x y) = unat x - unat y" for x y :: "'a::len word"
  by (auto simp: sat_sub_def word_le_nat_alt unat_sub)

lemma unat_sat_add_exact:
  "unat x + unat y < 2 ^ LENGTH('a) \<Longrightarrow> unat (sat_add x y) = unat x + unat y"
  for x y :: "'a::len word"
  by (simp add: unat_sat_add)

lemma checked_add_SomeD:
  "checked_add x y = Some z \<Longrightarrow> unat z = unat x + unat y" for x y :: "'a::len word"
  by (auto simp: checked_add_def unat_word_ariths split: if_splits)

section \<open>Durations\<close>

definition nanos_per_sec :: nat where
  "nanos_per_sec = 1000000000"

definition duration_max :: duration where
  "duration_max = 18446744073709551615 * 1000000000 + 999999999"

definition from_secs :: "nat \<Rightarrow> duration" where
  "from_secs s = s * nanos_per_sec"

definition as_secs :: "duration \<Rightarrow> nat" where
  "as_secs d = d div nanos_per_sec"

definition subsec_nanos :: "duration \<Rightarrow> nat" where
  "subsec_nanos d = d mod nanos_per_sec"

definition as_millis :: "duration \<Rightarrow> nat" where
  "as_millis d = d div 1000000"

definition duration_add :: "duration \<Rightarrow> duration \<Rightarrow> duration option" where
  "duration_add a b = (if a + b \<le> duration_max then Some (a + b) else None)"

lemma duration_add_SomeD: "duration_add a b = Some c \<Longrightarrow> c = a + b"
  by (simp add: duration_add_def split: if_splits)

lemma as_millis_mono: "a \<le> b \<Longrightarrow> as_millis a \<le> as_millis b"
  by (simp add: as_millis_def div_le_mono)

section \<open>Hash maps\<close>

type_synonym ('k, 'v) hmap = "('k \<times> 'v) list"

definition hm_wf :: "('k, 'v) hmap \<Rightarrow> bool" where
  "hm_wf m = distinct (map fst m)"

definition hm_get :: "('k, 'v) hmap \<Rightarrow> 'k \<Rightarrow> 'v option" where
  "hm_get m k = map_of m k"

definition hm_insert :: "'k \<Rightarrow> 'v \<Rightarrow> ('k, 'v) hmap \<Rightarrow> ('k, 'v) hmap" where
  "hm_insert k v m = AList.update k v m"

definition hm_remove :: "'k \<Rightarrow> ('k, 'v) hmap \<Rightarrow> ('k, 'v) hmap" where
  "hm_remove k m = AList.delete k m"

definition hm_retain :: "('k \<Rightarrow> 'v \<Rightarrow> bool) \<Rightarrow> ('k, 'v) hmap \<Rightarrow> ('k, 'v) hmap" where
  "hm_retain P m = filter (\<lambda>(k, v). P k v) m"

definition hm_len :: "('k, 'v) hmap \<Rightarrow> nat" where
  "hm_len m = length m"

lemma hm_wf_Nil [gw_wf, simp]: "hm_wf []"
  by (simp add: hm_wf_def)

lemma hm_wf_insert [gw_wf]: "hm_wf m \<Longrightarrow> hm_wf (hm_insert k v m)"
  by (simp add: hm_wf_def hm_insert_def distinct_update)

lemma hm_wf_remove [gw_wf]: "hm_wf m \<Longrightarrow> hm_wf (hm_remove k m)"
  by (simp add: hm_wf_def hm_remove_def distinct_delete)

lemma hm_wf_retain [gw_wf]: "hm_wf m \<Longrightarrow> hm_wf (hm_retain P m)"
  by (induction m) (auto simp: hm_wf_def hm_retain_def)

lemma hm_get_Nil [simp]: "hm_get [] k = None"
  by (simp add: hm_get_def)

lemma hm_get_insert: "hm_get (hm_insert k v m) k' = (if k' = k then Some v else hm_get m k')"
  by (simp add: hm_get_def hm_insert_def update_conv')

lemma hm_get_remove: "hm_get (hm_remove k m) k' = (if k' = k then None else hm_get m k')"
  by (simp add: hm_get_def hm_remove_def delete_conv')

lemma hm_get_retain:
  "hm_wf m \<Longrightarrow>
   hm_get (hm_retain P m) k = (case hm_get m k of None \<Rightarrow> None | Some v \<Rightarrow> if P k v then Some v else None)"
proof (induction m)
  case (Cons a m)
  then show ?case
    by (cases a) (auto simp: hm_wf_def hm_get_def hm_retain_def map_of_eq_None_iff
        split: option.splits if_splits dest: map_of_SomeD)
qed (simp add: hm_retain_def)

lemmas hm_get_simps = hm_get_insert hm_get_remove hm_get_retain

lemma hm_get_SomeD: "hm_get m k = Some v \<Longrightarrow> (k, v) \<in> set m"
  by (simp add: hm_get_def map_of_SomeD)

lemma hm_get_Some_iff: "hm_wf m \<Longrightarrow> hm_get m k = Some v \<longleftrightarrow> (k, v) \<in> set m"
  by (simp add: hm_wf_def hm_get_def)

lemma hm_len_retain_le: "hm_len (hm_retain P m) \<le> hm_len m"
  by (simp add: hm_len_def hm_retain_def)

lemma hm_retain_id: "hm_len (hm_retain P m) = hm_len m \<Longrightarrow> hm_retain P m = m"
  unfolding hm_len_def hm_retain_def
  by (metis length_filter_less nat_neq_iff filter_True)

lemma hm_len_remove:
  assumes "hm_wf m" and "hm_get m k = Some v"
  shows "Suc (hm_len (hm_remove k m)) = hm_len m"
  using assms
proof (induction m)
  case (Cons a m)
  show ?case
  proof (cases "fst a = k")
    case True
    with Cons.prems have "k \<notin> fst ` set m" by (auto simp: hm_wf_def)
    then have "AList.delete k m = m" by (simp add: delete_id)
    with True show ?thesis
      by (cases a) (simp add: hm_len_def hm_remove_def)
  next
    case False
    with Cons show ?thesis
      by (cases a) (auto simp: hm_len_def hm_remove_def hm_wf_def hm_get_def)
  qed
qed simp

lemma hm_len_insert:
  "hm_len (hm_insert k v m) = (if hm_get m k = None then Suc (hm_len m) else hm_len m)"
  by (induction m) (auto simp: hm_len_def hm_insert_def hm_get_def)

lemma hm_remove_absent: "hm_get m k = None \<Longrightarrow> hm_remove k m = m"
  by (simp add: hm_get_def hm_remove_def map_of_eq_None_iff delete_id)

lemma find_SomeD: "List.find P xs = Some x \<Longrightarrow> P x \<and> x \<in> set xs"
  by (induction xs) (auto split: if_splits)

section \<open>Byte encodings of machine integers\<close>

definition to_le_bytes :: "nat \<Rightarrow> 'a::len word \<Rightarrow> u8 list" where
  "to_le_bytes n w = map (\<lambda>i. ucast (drop_bit (8 * i) w)) [0..<n]"

primrec from_le_bytes :: "u8 list \<Rightarrow> 'a::len word" where
  "from_le_bytes [] = 0"
| "from_le_bytes (b # bs) = ucast b OR push_bit 8 (from_le_bytes bs)"

lemma length_to_le_bytes [simp]: "length (to_le_bytes n w) = n"
  by (simp add: to_le_bytes_def)

lemma bit_from_le_bytes:
  "bit (from_le_bytes bs :: 'a::len word) k \<longleftrightarrow>
     k < LENGTH('a) \<and> k div 8 < length bs \<and> bit (bs ! (k div 8)) (k mod 8)"
proof (induction bs arbitrary: k)
  case (Cons b bs)
  show ?case
  proof (cases "k < 8")
    case True
    then show ?thesis by (auto simp: bit_or_iff bit_ucast_iff bit_push_bit_iff)
  next
    case False
    then obtain j where j: "k = j + 8" by (metis add.commute le_Suc_ex not_less)
    have "\<not> bit b k" using False bit_imp_le_length [of b k] by auto
    then have "bit (from_le_bytes (b # bs) :: 'a word) k \<longleftrightarrow>
        k < LENGTH('a) \<and> bit (from_le_bytes bs :: 'a word) j"
      using j by (simp add: bit_or_iff bit_ucast_iff bit_push_bit_iff conj_commute)
    also have "\<dots> \<longleftrightarrow> k < LENGTH('a) \<and> j div 8 < length bs \<and> bit (bs ! (j div 8)) (j mod 8)"
      unfolding Cons.IH using j by linarith
    finally have "bit (from_le_bytes (b # bs) :: 'a word) k \<longleftrightarrow>
        k < LENGTH('a) \<and> j div 8 < length bs \<and> bit (bs ! (j div 8)) (j mod 8)" .
    moreover have "k div 8 = Suc (j div 8)" "k mod 8 = j mod 8" using j by simp_all
    ultimately show ?thesis by (simp only: nth_Cons_Suc length_Cons Suc_less_eq)
  qed
qed simp

lemma from_to_le_bytes:
  assumes "LENGTH('a) \<le> 8 * n"
  shows "from_le_bytes (to_le_bytes n w) = (w :: 'a::len word)"
proof (rule bit_word_eqI)
  fix k assume k: "k < LENGTH('a)"
  with assms have "k div 8 < n" by auto
  with k show "bit (from_le_bytes (to_le_bytes n w) :: 'a word) k = bit w k"
    by (simp add: bit_from_le_bytes to_le_bytes_def bit_ucast_iff bit_drop_bit_eq)
qed

lemma to_le_bytes_inj:
  "LENGTH('a) \<le> 8 * n \<Longrightarrow> to_le_bytes n a = to_le_bytes n b \<longleftrightarrow> a = b" for a b :: "'a::len word"
  by (metis from_to_le_bytes)

definition to_be_bytes :: "nat \<Rightarrow> 'a::len word \<Rightarrow> u8 list" where
  "to_be_bytes n w = rev (to_le_bytes n w)"

definition from_be_bytes :: "u8 list \<Rightarrow> 'a::len word" where
  "from_be_bytes bs = from_le_bytes (rev bs)"

lemma length_to_be_bytes [simp]: "length (to_be_bytes n w) = n"
  by (simp add: to_be_bytes_def)

lemma from_to_be_bytes:
  "LENGTH('a) \<le> 8 * n \<Longrightarrow> from_be_bytes (to_be_bytes n w) = w" for w :: "'a::len word"
  by (simp add: from_be_bytes_def to_be_bytes_def from_to_le_bytes)

lemma to_be_bytes_inj:
  "LENGTH('a) \<le> 8 * n \<Longrightarrow> to_be_bytes n a = to_be_bytes n b \<longleftrightarrow> a = b" for a b :: "'a::len word"
  by (metis from_to_be_bytes)

text \<open>Hexadecimal digits of a word, most significant first.\<close>

definition hex_digit :: "nat \<Rightarrow> char" where
  "hex_digit d = char_of (if d < 10 then 48 + d else 87 + d)"

definition word_hex :: "nat \<Rightarrow> 'a::len word \<Rightarrow> string" where
  "word_hex n w = map (\<lambda>i. hex_digit (unat (ucast (drop_bit (4 * i) w) :: 4 word))) (rev [0..<n])"

lemma hex_digit_inj: "d < 16 \<Longrightarrow> e < 16 \<Longrightarrow> hex_digit d = hex_digit e \<Longrightarrow> d = e"
  by (auto simp: hex_digit_def split: if_splits dest!: arg_cong [of _ _ "of_char :: char \<Rightarrow> nat"])

lemma length_word_hex [simp]: "length (word_hex n w) = n"
  by (simp add: word_hex_def)

lemma word_hex_inj:
  assumes "LENGTH('a) \<le> 4 * n" and "word_hex n a = word_hex n b"
  shows "a = (b :: 'a::len word)"
proof (rule bit_word_eqI)
  fix k assume k: "k < LENGTH('a)"
  with assms(1) have "k div 4 < n" by auto
  with assms(2) have "hex_digit (unat (ucast (drop_bit (4 * (k div 4)) a) :: 4 word)) =
      hex_digit (unat (ucast (drop_bit (4 * (k div 4)) b) :: 4 word))"
    by (auto simp: word_hex_def)
  moreover have "unat x < 16" for x :: "4 word"
    using unsigned_less [of x, where ?'a = nat] by simp
  ultimately have "(ucast (drop_bit (4 * (k div 4)) a) :: 4 word) = ucast (drop_bit (4 * (k div 4)) b)"
    by (metis hex_digit_inj word_unat_eq_iff)
  then have "bit (ucast (drop_bit (4 * (k div 4)) a) :: 4 word) (k mod 4) =
      bit (ucast (drop_bit (4 * (k div 4)) b) :: 4 word) (k mod 4)" by simp
  then show "bit a k = bit b k" by (simp add: bit_ucast_iff bit_drop_bit_eq)
qed

end
