(* ===== verification/Domain.thy ===== *)
theory Domain
  imports Gateway_Prelude
begin

text \<open>
  The value types of \<^verbatim>\<open>src/domain\<close>: client formats, operations, protocols, transports,
  connectors, compression, capability settings and request outcomes, with the conversions
  between them and their stored names.

  Text that the code only compares with ASCII literals, or reads byte by byte, is \<open>string\<close>.
  Text whose characters the code classifies or counts is \<open>utext\<close>, a list of Unicode code
  points, because \<^verbatim>\<open>str::trim\<close> and \<^verbatim>\<open>chars\<close> work on characters.
\<close>

type_synonym utext = "nat list"

section \<open>Characters\<close>

text \<open>\<^verbatim>\<open>char::is_whitespace\<close>: the code points with the Unicode property White\_Space.\<close>

definition is_whitespace :: "nat \<Rightarrow> bool" where
  "is_whitespace c \<longleftrightarrow>
     9 \<le> c \<and> c \<le> 13 \<or> c = 32 \<or> c = 133 \<or> c = 160 \<or> c = 5760 \<or>
     8192 \<le> c \<and> c \<le> 8202 \<or> c = 8232 \<or> c = 8233 \<or> c = 8239 \<or> c = 8287 \<or> c = 12288"

definition text_trim :: "utext \<Rightarrow> utext" where
  "text_trim t = rev (dropWhile is_whitespace (rev (dropWhile is_whitespace t)))"

definition is_ascii_lowercase :: "char \<Rightarrow> bool" where
  "is_ascii_lowercase c \<longleftrightarrow> 97 \<le> (of_char c :: nat) \<and> (of_char c :: nat) \<le> 122"

definition is_ascii_uppercase :: "char \<Rightarrow> bool" where
  "is_ascii_uppercase c \<longleftrightarrow> 65 \<le> (of_char c :: nat) \<and> (of_char c :: nat) \<le> 90"

definition is_ascii_digit :: "char \<Rightarrow> bool" where
  "is_ascii_digit c \<longleftrightarrow> 48 \<le> (of_char c :: nat) \<and> (of_char c :: nat) \<le> 57"

definition is_ascii_alphanumeric :: "char \<Rightarrow> bool" where
  "is_ascii_alphanumeric c \<longleftrightarrow> is_ascii_lowercase c \<or> is_ascii_uppercase c \<or> is_ascii_digit c"

definition is_ascii_char :: "char \<Rightarrow> bool" where
  "is_ascii_char c \<longleftrightarrow> (of_char c :: nat) < 128"

definition is_ascii_whitespace :: "char \<Rightarrow> bool" where
  "is_ascii_whitespace c \<longleftrightarrow> (of_char c :: nat) \<in> {32, 9, 10, 12, 13}"

definition to_ascii_lowercase :: "char \<Rightarrow> char" where
  "to_ascii_lowercase c = (if is_ascii_uppercase c then char_of ((of_char c :: nat) + 32) else c)"

definition eq_ignore_ascii_case :: "string \<Rightarrow> string \<Rightarrow> bool" where
  "eq_ignore_ascii_case a b \<longleftrightarrow> map to_ascii_lowercase a = map to_ascii_lowercase b"

lemmas ascii_defs = is_ascii_lowercase_def is_ascii_uppercase_def is_ascii_digit_def
  is_ascii_alphanumeric_def is_ascii_char_def is_ascii_whitespace_def

lemma text_trim_Nil_iff: "text_trim t = [] \<longleftrightarrow> (\<forall>c \<in> set t. is_whitespace c)"
  unfolding text_trim_def using dropWhile_eq_Nil_conv [of is_whitespace t]
  by (auto dest: set_dropWhileD simp: dropWhile_eq_Nil_conv)
    (metis dropWhile_eq_Nil_conv hd_dropWhile hd_in_set)

section \<open>API formats\<close>

datatype api_format = OpenAiChatCompletions | OpenAiResponses | OpenAiImages

fun api_format_as_str :: "api_format \<Rightarrow> string" where
  "api_format_as_str OpenAiChatCompletions = ''open_ai_chat_completions''"
| "api_format_as_str OpenAiResponses = ''open_ai_responses''"
| "api_format_as_str OpenAiImages = ''open_ai_images''"

definition api_format_parse :: "string \<Rightarrow> api_format option" where
  "api_format_parse v =
     (if v = ''open_ai_chat_completions'' then Some OpenAiChatCompletions
      else if v = ''open_ai_responses'' then Some OpenAiResponses
      else if v = ''open_ai_images'' then Some OpenAiImages
      else None)"

lemma api_format_parse_as_str [simp]: "api_format_parse (api_format_as_str f) = Some f"
  by (cases f) (simp_all add: api_format_parse_def)

lemma api_format_parse_SomeD: "api_format_parse v = Some f \<Longrightarrow> v = api_format_as_str f"
  by (auto simp: api_format_parse_def split: if_splits)

section \<open>Operations and protocols\<close>

datatype api_operation =
    ChatCompletions | Responses | ResponsesWebSocket | StandaloneWebSearch
  | ImagesGeneration | ImagesEdit

datatype request_protocol = NonStream | Sse | WebSocket

datatype capability_transport = HttpJson | HttpSse | Websocket | Multipart

fun operation_format :: "api_operation \<Rightarrow> api_format" where
  "operation_format ChatCompletions = OpenAiChatCompletions"
| "operation_format Responses = OpenAiResponses"
| "operation_format ResponsesWebSocket = OpenAiResponses"
| "operation_format StandaloneWebSearch = OpenAiResponses"
| "operation_format ImagesGeneration = OpenAiImages"
| "operation_format ImagesEdit = OpenAiImages"

fun operation_as_str :: "api_operation \<Rightarrow> string" where
  "operation_as_str ChatCompletions = ''chat_completion''"
| "operation_as_str Responses = ''responses''"
| "operation_as_str ResponsesWebSocket = ''responses-ws''"
| "operation_as_str StandaloneWebSearch = ''web_search''"
| "operation_as_str ImagesGeneration = ''images_generation''"
| "operation_as_str ImagesEdit = ''images_edit''"

definition normalize_stored_name :: "string \<Rightarrow> string \<Rightarrow> string" where
  "normalize_stored_name name protocol =
     (if name = ''chat_completions'' then ''chat_completion''
      else if name = ''standalone_web_search'' then ''web_search''
      else if name = ''responses'' \<and> protocol = ''websocket'' then ''responses-ws''
      else name)"

fun legacy_default :: "api_format \<Rightarrow> api_operation" where
  "legacy_default OpenAiChatCompletions = ChatCompletions"
| "legacy_default OpenAiResponses = Responses"
| "legacy_default OpenAiImages = ImagesGeneration"

definition for_legacy_format :: "string \<Rightarrow> api_operation" where
  "for_legacy_format s =
     (case api_format_parse s of None \<Rightarrow> ChatCompletions | Some f \<Rightarrow> legacy_default f)"

definition permits_automatic_retry :: "api_operation \<Rightarrow> bool" where
  "permits_automatic_retry op = (op \<notin> {ResponsesWebSocket, ImagesGeneration, ImagesEdit})"

definition is_images :: "api_operation \<Rightarrow> bool" where
  "is_images op = (op \<in> {ImagesGeneration, ImagesEdit})"

fun transports :: "api_operation \<Rightarrow> capability_transport list" where
  "transports ChatCompletions = [HttpJson, HttpSse]"
| "transports Responses = [HttpJson, HttpSse]"
| "transports ResponsesWebSocket = [Websocket]"
| "transports StandaloneWebSearch = [HttpJson]"
| "transports ImagesGeneration = [HttpJson]"
| "transports ImagesEdit = [Multipart]"

definition from_http_streamed :: "bool \<Rightarrow> request_protocol" where
  "from_http_streamed streamed = (if streamed then Sse else NonStream)"

fun protocol_as_str :: "request_protocol \<Rightarrow> string" where
  "protocol_as_str NonStream = ''non_stream''"
| "protocol_as_str Sse = ''sse''"
| "protocol_as_str WebSocket = ''websocket''"

definition is_streamed :: "request_protocol \<Rightarrow> bool" where
  "is_streamed p = (p \<noteq> NonStream)"

lemma operation_format_legacy_default [simp]: "operation_format (legacy_default f) = f"
  by (cases f) simp_all

lemma operation_as_str_inj: "operation_as_str a = operation_as_str b \<longleftrightarrow> a = b"
  by (cases a; cases b) simp_all

lemma transports_nonempty: "transports op \<noteq> []"
  by (cases op) simp_all

section \<open>Connectors\<close>

text \<open>
  A plugin connector id is stored as 64 bytes, of which the first \<open>cid_len\<close> are the id.
  \<open>connector_id_as_str\<close> is the slice the code reads as UTF-8; the bytes a parsed id holds
  there are ASCII (lemma \<open>connector_parse_ascii\<close>), so the conversion cannot fail.
\<close>

record connector_id =
  cid_bytes :: "char list"
  cid_len :: u8

datatype connector_kind = OpenAiCompatible | CodexOauth | Plugin connector_id

definition connector_id_as_str :: "connector_id \<Rightarrow> string" where
  "connector_id_as_str i = take (unat (cid_len i)) (cid_bytes i)"

definition plugin_id_char :: "char \<Rightarrow> bool" where
  "plugin_id_char c \<longleftrightarrow> is_ascii_lowercase c \<or> is_ascii_digit c \<or> c = CHR ''_'' \<or> c = CHR ''-''"

definition connector_parse :: "string \<Rightarrow> connector_kind option" where
  "connector_parse v =
     (if v = ''general'' then Some OpenAiCompatible
      else if v = ''codex'' then Some CodexOauth
      else if v = [] \<or> 64 < length v \<or> \<not> is_ascii_lowercase (hd v) \<or> \<not> list_all plugin_id_char v
      then None
      else Some (Plugin \<lparr>cid_bytes = v @ replicate (64 - length v) (CHR 0x00),
                         cid_len = of_nat (length v)\<rparr>))"

fun connector_as_str :: "connector_kind \<Rightarrow> string" where
  "connector_as_str OpenAiCompatible = ''general''"
| "connector_as_str CodexOauth = ''codex''"
| "connector_as_str (Plugin i) = connector_id_as_str i"

lemma plugin_id_char_ascii: "plugin_id_char c \<Longrightarrow> is_ascii_char c"
  by (auto simp: plugin_id_char_def ascii_defs)

lemma unat_of_nat_u8: "n \<le> 64 \<Longrightarrow> unat (of_nat n :: u8) = n"
  by (simp add: unat_of_nat)

lemma connector_parse_plugin:
  assumes "connector_parse v = Some (Plugin i)"
  shows "connector_id_as_str i = v" and "length (cid_bytes i) = 64"
    and "0 < length v" and "length v \<le> 64" and "list_all plugin_id_char v"
  using assms
  by (auto simp: connector_parse_def connector_id_as_str_def unat_of_nat_u8 split: if_splits)

lemma connector_parse_ascii:
  assumes "connector_parse v = Some (Plugin i)"
  shows "list_all is_ascii_char (connector_id_as_str i)"
  using connector_parse_plugin [OF assms] plugin_id_char_ascii by (auto simp: list_all_iff)

datatype request_compression = DefaultCompression | Zstd

definition compression_parse :: "string \<Rightarrow> request_compression option" where
  "compression_parse v =
     (if v = ''default'' then Some DefaultCompression
      else if v = ''zstd'' then Some Zstd else None)"

fun compression_as_str :: "request_compression \<Rightarrow> string" where
  "compression_as_str DefaultCompression = ''default''"
| "compression_as_str Zstd = ''zstd''"

definition is_encoded :: "request_compression \<Rightarrow> bool" where
  "is_encoded c = (c = Zstd)"

section \<open>Capability settings\<close>

record capability_settings =
  cs_operation :: api_operation
  cs_enabled :: bool
  cs_available_models :: "utext list"
  cs_request_compression :: request_compression
  cs_test_model :: "utext option"
  cs_test_pricing_model_id :: "uuid option"
  cs_auto_disable_allowed :: bool

datatype capability_error = OperationError | CompressionError | ModelsError | ProbeError

text \<open>The scan of the catalogue: true at the first blank or repeated model.\<close>

fun models_invalid :: "utext set \<Rightarrow> utext list \<Rightarrow> bool" where
  "models_invalid seen [] = False"
| "models_invalid seen (m # ms) =
     (text_trim m = [] \<or> m \<in> seen \<or> models_invalid (insert m seen) ms)"

definition capability_validate ::
  "capability_settings \<Rightarrow> connector_kind \<Rightarrow> capability_error + unit" where
  "capability_validate s connector =
     (if connector = CodexOauth \<and> cs_operation s = ChatCompletions then Inl OperationError
      else if is_encoded (cs_request_compression s) \<and> cs_operation s \<noteq> Responses
        then Inl CompressionError
      else if models_invalid {} (cs_available_models s) then Inl ModelsError
      else if (cs_test_model s \<noteq> None) \<noteq> (cs_test_pricing_model_id s \<noteq> None) \<or>
        (case cs_test_model s of
           None \<Rightarrow> False
         | Some model \<Rightarrow> connector \<noteq> OpenAiCompatible \<or>
             cs_operation s \<notin> {ChatCompletions, Responses} \<or>
             model \<notin> set (cs_available_models s))
        then Inl ProbeError
      else Inr ())"

lemma models_invalid_iff:
  "models_invalid seen ms \<longleftrightarrow>
     (\<exists>m \<in> set ms. text_trim m = [] \<or> m \<in> seen) \<or> \<not> distinct ms"
  by (induction seen ms rule: models_invalid.induct) auto

section \<open>Upstream credentials\<close>

datatype upstream_auth = NoAuth | Bearer string | HeaderAuth string string

section \<open>Request outcomes\<close>

datatype request_log_outcome = Succeeded | Failed | Rejected | Cancelled

definition forces_zero_cost :: "request_log_outcome \<Rightarrow> bool" where
  "forces_zero_cost out = (out \<in> {Failed, Cancelled})"

section \<open>Properties\<close>

text \<open>Connector names round-trip: every accepted name prints back unchanged, a name is
  accepted exactly when it is one of the two built-in names or a plugin id (1 to 64 bytes,
  a lower-case letter first, then lower-case letters, digits, \<open>_\<close> and \<open>-\<close>), and
  printing any parsed connector and parsing it again gives the same connector.\<close>

theorem connector_round_trip:
  "(connector_parse v = Some k \<longrightarrow>
      connector_as_str k = v \<and> connector_parse (connector_as_str k) = Some k) \<and>
   (connector_parse v \<noteq> None \<longleftrightarrow>
      v \<in> {''general'', ''codex''} \<or>
      (0 < length v \<and> length v \<le> 64 \<and> is_ascii_lowercase (hd v) \<and> list_all plugin_id_char v))"
proof -
  have "connector_as_str k = v" if "connector_parse v = Some k"
    using that
    by (auto simp: connector_parse_def connector_id_as_str_def unat_of_nat_u8 split: if_splits)
  moreover have "connector_parse v \<noteq> None \<longleftrightarrow>
      v \<in> {''general'', ''codex''} \<or>
      (0 < length v \<and> length v \<le> 64 \<and> is_ascii_lowercase (hd v) \<and> list_all plugin_id_char v)"
    by (auto simp: connector_parse_def ascii_defs plugin_id_char_def)
  ultimately show ?thesis by simp
qed

theorem connector_round_trip_witness:
  "connector_parse ''my-plugin_2'' \<noteq> None \<and>
   connector_as_str (the (connector_parse ''my-plugin_2'')) = ''my-plugin_2''"
  using connector_round_trip [of "''my-plugin_2''" "the (connector_parse ''my-plugin_2'')"]
  by (auto simp: plugin_id_char_def ascii_defs)

end
