(* ===== verification/Billing.thy ===== *)
theory Billing
  imports Domain
begin

text \<open>
  Model-level billing: the policy compiler and matchers of \<^verbatim>\<open>src/domain/billing.rs\<close> and
  the request cost of \<^verbatim>\<open>src/application/billing.rs\<close>.

  \<^verbatim>\<open>rust_decimal::Decimal\<close> is a parameter: its type is a linear order \<open>'d\<close> and its
  operations are the fields of \<open>decimal_ops\<close>, with \<open>None\<close> where a checked operation
  fails or an operator panics. A JSON document is of a type \<open>'j\<close>; \<^verbatim>\<open>Value::pointer\<close>
  and the length of its encoding are the fields of \<open>json_ops\<close>.
\<close>

record 'd decimal_ops =
  d_zero :: 'd
  d_one :: 'd
  d_is_sign_negative :: "'d \<Rightarrow> bool"
  d_checked_mul :: "'d \<Rightarrow> 'd \<Rightarrow> 'd option"
  d_add :: "'d \<Rightarrow> 'd \<Rightarrow> 'd option"
  d_div :: "'d \<Rightarrow> 'd \<Rightarrow> 'd option"
  d_from_i64 :: "int \<Rightarrow> 'd"
  d_round_dp :: "'d \<Rightarrow> nat \<Rightarrow> 'd"

record 'j json_ops =
  j_pointer :: "'j \<Rightarrow> string \<Rightarrow> 'j option"
  j_encoded_len :: "'j \<Rightarrow> nat option"

definition MAX_JSON_POINTER_BYTES :: nat where "MAX_JSON_POINTER_BYTES = 512"
definition MAX_MATCH_VALUE_BYTES :: nat where "MAX_MATCH_VALUE_BYTES = 4 * 1024"
definition MAX_TIME_MULTIPLIERS :: nat where "MAX_TIME_MULTIPLIERS = 32"
definition MAX_TIME_MULTIPLIER_LABEL_CHARS :: nat where "MAX_TIME_MULTIPLIER_LABEL_CHARS = 80"
definition DAYS_PER_WEEK :: nat where "DAYS_PER_WEEK = 7"
definition MINUTES_PER_DAY :: nat where "MINUTES_PER_DAY = 1440"
definition MINUTES_PER_WEEK :: nat where "MINUTES_PER_WEEK = DAYS_PER_WEEK * MINUTES_PER_DAY"

lemmas week_defs = DAYS_PER_WEEK_def MINUTES_PER_DAY_def MINUTES_PER_WEEK_def

section \<open>Policy documents\<close>

record 'd long_context_tier =
  lt_input_tokens_threshold :: int
  lt_input_unit_price :: 'd
  lt_cached_input_unit_price :: 'd
  lt_cache_write_unit_price :: 'd
  lt_output_unit_price :: "'d option"

record ('d, 'j) request_billing_multiplier =
  rm_json_pointer :: string
  rm_value :: 'j
  rm_multiplier :: 'd

datatype billing_weekday = Monday | Tuesday | Wednesday | Thursday | Friday | Saturday | Sunday

fun weekday_index :: "billing_weekday \<Rightarrow> nat" where
  "weekday_index Monday = 0"
| "weekday_index Tuesday = 1"
| "weekday_index Wednesday = 2"
| "weekday_index Thursday = 3"
| "weekday_index Friday = 4"
| "weekday_index Saturday = 5"
| "weekday_index Sunday = 6"

text \<open>Weekdays are ordered by their index, as \<open>BillingWeekday::ALL\<close> lists them.\<close>

instantiation billing_weekday :: linorder
begin

definition less_eq_billing_weekday :: "billing_weekday \<Rightarrow> billing_weekday \<Rightarrow> bool" where
  "less_eq_billing_weekday a b = (weekday_index a \<le> weekday_index b)"

definition less_billing_weekday :: "billing_weekday \<Rightarrow> billing_weekday \<Rightarrow> bool" where
  "less_billing_weekday a b = (weekday_index a < weekday_index b)"

instance
proof
  fix x y :: billing_weekday
  show "x \<le> y \<Longrightarrow> y \<le> x \<Longrightarrow> x = y"
    by (cases x; cases y) (simp_all add: less_eq_billing_weekday_def)
qed (auto simp: less_eq_billing_weekday_def less_billing_weekday_def)

end

definition weekday_bit :: "billing_weekday \<Rightarrow> u8" where
  "weekday_bit d = push_bit (weekday_index d) 1"

definition all_billing_weekdays :: "billing_weekday list" where
  "all_billing_weekdays = [Monday, Tuesday, Wednesday, Thursday, Friday, Saturday, Sunday]"

record 'd time_billing_multiplier =
  tm_label :: utext
  tm_weekdays :: "billing_weekday list"
  tm_start_time :: string
  tm_end_time :: string
  tm_multiplier :: 'd

record ('d, 'j) advanced_billing =
  ab_long_context_tiers :: "'d long_context_tier list"
  ab_request_multipliers :: "('d, 'j) request_billing_multiplier list"
  ab_time_multipliers :: "'d time_billing_multiplier list"

record 'd compiled_time_multiplier =
  ct_start_weekday_mask :: u8
  ct_start_minute :: nat
  ct_end_minute :: nat
  ct_multiplier :: 'd

record ('d, 'j) compiled_advanced_billing =
  cb_long_context_tiers :: "'d long_context_tier list"
  cb_request_multipliers :: "('d, 'j) request_billing_multiplier list"
  cb_time_multipliers :: "'d compiled_time_multiplier list"
  cb_maximum_request_multiplier :: 'd
  cb_maximum_time_multiplier :: 'd

datatype advanced_billing_error = AdvancedBillingError

section \<open>Matching\<close>

definition starts_on :: "'d compiled_time_multiplier \<Rightarrow> nat \<Rightarrow> bool" where
  "starts_on r weekday = (ct_start_weekday_mask r AND push_bit weekday 1 \<noteq> 0)"

definition time_matches :: "'d compiled_time_multiplier \<Rightarrow> nat \<Rightarrow> nat \<Rightarrow> bool" where
  "time_matches r weekday minute =
     (if ct_start_minute r < ct_end_minute r
      then starts_on r weekday \<and> ct_start_minute r \<le> minute \<and> minute < ct_end_minute r
      else minute \<ge> ct_start_minute r \<and> starts_on r weekday \<or>
           minute < ct_end_minute r \<and> starts_on r ((weekday + 6) mod DAYS_PER_WEEK))"

section \<open>Parsing\<close>

fun pointer_escapes_ok :: "string \<Rightarrow> bool" where
  "pointer_escapes_ok [] = True"
| "pointer_escapes_ok (c # cs) =
     (if c = CHR ''~''
      then (case cs of [] \<Rightarrow> False
            | d # ds \<Rightarrow> (d = CHR ''0'' \<or> d = CHR ''1'') \<and> pointer_escapes_ok ds)
      else pointer_escapes_ok cs)"

definition valid_json_pointer :: "string \<Rightarrow> bool" where
  "valid_json_pointer p =
     (p = [] \<or> hd p = CHR ''/'' \<and> pointer_escapes_ok p)"

definition digit_value :: "char \<Rightarrow> nat" where
  "digit_value c = of_char c - 48"

definition parse_utc_time :: "string \<Rightarrow> nat option" where
  "parse_utc_time v =
     (if length v \<noteq> 5 \<or> v ! 2 \<noteq> CHR '':'' \<or>
         \<not> list_all is_ascii_digit (take 2 v) \<or> \<not> list_all is_ascii_digit (take 2 (drop 3 v))
      then None
      else let hour = digit_value (v ! 0) * 10 + digit_value (v ! 1);
               minute = digit_value (v ! 3) * 10 + digit_value (v ! 4)
           in if hour < 24 \<and> minute < 60 then Some (hour * 60 + minute) else None)"

section \<open>Compiling a policy\<close>

fun tiers_valid :: "'d decimal_ops \<Rightarrow> int \<Rightarrow> 'd long_context_tier list \<Rightarrow> bool" where
  "tiers_valid D previous [] = True"
| "tiers_valid D previous (t # ts) =
     (\<not> (lt_input_tokens_threshold t \<le> 0 \<or> lt_input_tokens_threshold t \<le> previous \<or>
         list_ex (d_is_sign_negative D)
           [lt_input_unit_price t, lt_cached_input_unit_price t, lt_cache_write_unit_price t] \<or>
         (case lt_output_unit_price t of None \<Rightarrow> False | Some p \<Rightarrow> d_is_sign_negative D p)) \<and>
      tiers_valid D (lt_input_tokens_threshold t) ts)"

fun request_multipliers_valid ::
  "'d decimal_ops \<Rightarrow> 'j json_ops \<Rightarrow> ('d, 'j) request_billing_multiplier list \<Rightarrow>
   ('d, 'j) request_billing_multiplier list \<Rightarrow> bool" where
  "request_multipliers_valid D J previous [] = True"
| "request_multipliers_valid D J previous (r # rs) =
     (\<not> (\<not> valid_json_pointer (rm_json_pointer r) \<or>
         length (rm_json_pointer r) > MAX_JSON_POINTER_BYTES \<or>
         d_is_sign_negative D (rm_multiplier r) \<or>
         (case j_encoded_len J (rm_value r) of None \<Rightarrow> True | Some n \<Rightarrow> n > MAX_MATCH_VALUE_BYTES)) \<and>
      \<not> list_ex (\<lambda>p. rm_json_pointer p = rm_json_pointer r \<and> rm_value p = rm_value r) previous \<and>
      request_multipliers_valid D J (previous @ [r]) rs)"

text \<open>The week's minutes \<open>[false; MINUTES_PER_WEEK]\<close> are a function from the index; every
  index the loops form is reduced modulo \<open>MINUTES_PER_WEEK\<close>.\<close>

fun cover_minutes :: "nat \<Rightarrow> nat list \<Rightarrow> (nat \<Rightarrow> bool) \<Rightarrow> (nat \<Rightarrow> bool) option" where
  "cover_minutes week_start [] covered = Some covered"
| "cover_minutes week_start (offset # offsets) covered =
     (let i = (week_start + offset) mod MINUTES_PER_WEEK
      in if covered i then None
         else cover_minutes week_start offsets (covered(i := True)))"

fun cover_weekdays ::
  "nat \<Rightarrow> nat \<Rightarrow> billing_weekday list \<Rightarrow> (nat \<Rightarrow> bool) \<Rightarrow> (nat \<Rightarrow> bool) option" where
  "cover_weekdays start_minute duration [] covered = Some covered"
| "cover_weekdays start_minute duration (d # ds) covered =
     (case cover_minutes (weekday_index d * MINUTES_PER_DAY + start_minute) [0..<duration] covered of
        None \<Rightarrow> None
      | Some covered' \<Rightarrow> cover_weekdays start_minute duration ds covered')"

fun weekday_mask :: "u8 \<Rightarrow> billing_weekday list \<Rightarrow> u8 option" where
  "weekday_mask msk [] = Some msk"
| "weekday_mask msk (d # ds) =
     (if msk AND weekday_bit d \<noteq> 0 then None else weekday_mask (msk OR weekday_bit d) ds)"

definition compile_time_multiplier ::
  "'d decimal_ops \<Rightarrow> 'd time_billing_multiplier list \<Rightarrow> 'd time_billing_multiplier \<Rightarrow>
   (nat \<Rightarrow> bool) \<Rightarrow> ('d compiled_time_multiplier \<times> (nat \<Rightarrow> bool)) option" where
  "compile_time_multiplier D previous r covered =
     (if tm_label r = [] \<or> text_trim (tm_label r) \<noteq> tm_label r \<or>
         length (tm_label r) > MAX_TIME_MULTIPLIER_LABEL_CHARS \<or>
         d_is_sign_negative D (tm_multiplier r) \<or>
         list_ex (\<lambda>p. tm_label p = tm_label r) previous
      then None
      else case parse_utc_time (tm_start_time r) of None \<Rightarrow> None | Some start_minute \<Rightarrow>
        (case parse_utc_time (tm_end_time r) of None \<Rightarrow> None | Some end_minute \<Rightarrow>
          (if start_minute = end_minute then None
           else case weekday_mask 0 (tm_weekdays r) of None \<Rightarrow> None | Some msk \<Rightarrow>
             (if msk = 0 then None
              else let duration = (if start_minute < end_minute then end_minute - start_minute
                                   else MINUTES_PER_DAY - start_minute + end_minute)
                   in case cover_weekdays start_minute duration (tm_weekdays r) covered of
                        None \<Rightarrow> None
                      | Some covered' \<Rightarrow>
                          Some (\<lparr>ct_start_weekday_mask = msk, ct_start_minute = start_minute,
                                 ct_end_minute = end_minute, ct_multiplier = tm_multiplier r\<rparr>,
                                covered')))))"

fun compile_time_multipliers ::
  "'d decimal_ops \<Rightarrow> 'd time_billing_multiplier list \<Rightarrow> (nat \<Rightarrow> bool) \<Rightarrow>
   'd time_billing_multiplier list \<Rightarrow> 'd compiled_time_multiplier list option" where
  "compile_time_multipliers D previous covered [] = Some []"
| "compile_time_multipliers D previous covered (r # rs) =
     (case compile_time_multiplier D previous r covered of
        None \<Rightarrow> None
      | Some (c, covered') \<Rightarrow>
          map_option ((#) c) (compile_time_multipliers D (previous @ [r]) covered' rs))"

fun try_fold_mul :: "'d decimal_ops \<Rightarrow> 'd \<Rightarrow> 'd list \<Rightarrow> 'd option" where
  "try_fold_mul D acc [] = Some acc"
| "try_fold_mul D acc (m # ms) =
     (case d_checked_mul D acc m of None \<Rightarrow> None | Some acc' \<Rightarrow> try_fold_mul D acc' ms)"

definition compile_billing ::
  "('d::linorder) decimal_ops \<Rightarrow> 'j json_ops \<Rightarrow> ('d, 'j) advanced_billing \<Rightarrow>
   advanced_billing_error + ('d, 'j) compiled_advanced_billing" where
  "compile_billing D J value =
     (if \<not> tiers_valid D 0 (ab_long_context_tiers value) then Inl AdvancedBillingError
      else if \<not> request_multipliers_valid D J [] (ab_request_multipliers value)
      then Inl AdvancedBillingError
      else if length (ab_time_multipliers value) > MAX_TIME_MULTIPLIERS then Inl AdvancedBillingError
      else case compile_time_multipliers D [] (\<lambda>_. False) (ab_time_multipliers value) of
        None \<Rightarrow> Inl AdvancedBillingError
      | Some windows \<Rightarrow>
          (case try_fold_mul D (d_one D)
                  (filter (\<lambda>m. m > d_one D) (map rm_multiplier (ab_request_multipliers value))) of
             None \<Rightarrow> Inl AdvancedBillingError
           | Some maximum \<Rightarrow>
               Inr \<lparr>cb_long_context_tiers = ab_long_context_tiers value,
                    cb_request_multipliers = ab_request_multipliers value,
                    cb_time_multipliers = windows,
                    cb_maximum_request_multiplier = maximum,
                    cb_maximum_time_multiplier =
                      (case filter (\<lambda>m. m > d_one D) (map tm_multiplier (ab_time_multipliers value)) of
                         [] \<Rightarrow> d_one D | m # ms \<Rightarrow> fold max ms m)\<rparr>))"

section \<open>Applying a compiled policy\<close>

definition prices ::
  "('d, 'j) compiled_advanced_billing \<Rightarrow> int \<Rightarrow> 'd \<Rightarrow> 'd \<Rightarrow> 'd \<Rightarrow> 'd \<Rightarrow> 'd \<times> 'd \<times> 'd \<times> 'd" where
  "prices c input_tokens base_input base_cached_input base_cache_write base_output =
     (case find (\<lambda>t. input_tokens \<ge> lt_input_tokens_threshold t) (rev (cb_long_context_tiers c)) of
        None \<Rightarrow> (base_input, base_cached_input, base_cache_write, base_output)
      | Some t \<Rightarrow> (lt_input_unit_price t, lt_cached_input_unit_price t, lt_cache_write_unit_price t,
                  (case lt_output_unit_price t of None \<Rightarrow> base_output | Some p \<Rightarrow> p)))"

definition request_multiplier ::
  "'d decimal_ops \<Rightarrow> 'j json_ops \<Rightarrow> ('d, 'j) compiled_advanced_billing \<Rightarrow> 'j \<Rightarrow> 'd option" where
  "request_multiplier D J c request =
     try_fold_mul D (d_one D)
       (map rm_multiplier
         (filter (\<lambda>r. j_pointer J request (rm_json_pointer r) = Some (rm_value r))
           (cb_request_multipliers c)))"

definition time_multiplier ::
  "'d decimal_ops \<Rightarrow> ('d, 'j) compiled_advanced_billing \<Rightarrow> nat \<Rightarrow> nat \<Rightarrow> nat \<Rightarrow> 'd" where
  "time_multiplier D c weekday hour minute =
     (case find (\<lambda>r. time_matches r weekday (hour * 60 + minute)) (cb_time_multipliers c) of
        None \<Rightarrow> d_one D | Some r \<Rightarrow> ct_multiplier r)"

definition has_request_multipliers :: "('d, 'j) compiled_advanced_billing \<Rightarrow> bool" where
  "has_request_multipliers c = (cb_request_multipliers c \<noteq> [])"

definition price_candidates ::
  "('d, 'j) compiled_advanced_billing \<Rightarrow> 'd \<Rightarrow> 'd \<Rightarrow> 'd \<Rightarrow> 'd \<Rightarrow> 'd list" where
  "price_candidates c base_input base_cached_input base_cache_write output =
     [base_input, base_cached_input, base_cache_write, output] @
     concat (map (\<lambda>t. [lt_input_unit_price t, lt_cached_input_unit_price t, lt_cache_write_unit_price t] @
                      (case lt_output_unit_price t of None \<Rightarrow> [] | Some p \<Rightarrow> [p]))
              (cb_long_context_tiers c))"

section \<open>Request cost\<close>

record 'd model_price_snapshot =
  mp_currency :: string
  mp_price_unit_tokens :: int
  mp_price_effective_at :: int
  mp_input_unit_price :: 'd
  mp_cached_input_unit_price :: 'd
  mp_cache_write_unit_price :: 'd
  mp_output_unit_price :: 'd

record request_usage =
  ru_input_tokens :: int
  ru_cached_input_tokens :: int
  ru_cache_write_tokens :: int
  ru_output_tokens :: int
  ru_reasoning_tokens :: int

record 'd request_price_snapshot =
  rp_currency :: string
  rp_price_unit_tokens :: int
  rp_price_effective_at :: int
  rp_input_unit_price :: 'd
  rp_cached_input_unit_price :: 'd
  rp_cache_write_unit_price :: 'd
  rp_output_unit_price :: 'd

record 'd request_billing_factors =
  bf_started_weekday :: nat
  bf_started_hour :: nat
  bf_started_minute :: nat
  bf_channel_multiplier :: 'd
  bf_request_multiplier :: 'd

record 'd request_billing_record =
  rb_usage :: "request_usage option"
  rb_price :: "'d request_price_snapshot"
  rb_cost_amount :: "'d option"
  rb_output_tokens_per_second :: "'d option"
  rb_peak_pricing :: bool

text \<open>\<open>None\<close> is the panic of \<^verbatim>\<open>expect\<close> in
  \<^verbatim>\<open>effective_unit_price\<close>.\<close>

definition effective_unit_price :: "'d decimal_ops \<Rightarrow> 'd \<Rightarrow> 'd \<Rightarrow> 'd option" where
  "effective_unit_price D price billing_multiplier =
     map_option (\<lambda>p. d_round_dp D p 12) (d_checked_mul D price billing_multiplier)"

definition i64_sat_sub :: "int \<Rightarrow> int \<Rightarrow> int" where
  "i64_sat_sub a b = max (- (2 ^ 63)) (min (2 ^ 63 - 1) (a - b))"

definition i32_sat_sub :: "int \<Rightarrow> int \<Rightarrow> int" where
  "i32_sat_sub a b = max (- (2 ^ 31)) (min (2 ^ 31 - 1) (a - b))"

text \<open>The products and sums of \<open>calculate_cost\<close> panic where the decimal operation fails.\<close>

definition calculate_cost ::
  "'d decimal_ops \<Rightarrow> request_usage \<Rightarrow> 'd request_price_snapshot \<Rightarrow> 'd option" where
  "calculate_cost D usage price =
     (let non_cached_input = i64_sat_sub (ru_input_tokens usage) (ru_cached_input_tokens usage)
      in Option.bind (d_checked_mul D (d_from_i64 D non_cached_input) (rp_input_unit_price price)) (\<lambda>a.
         Option.bind (d_checked_mul D (d_from_i64 D (ru_cached_input_tokens usage))
                       (rp_cached_input_unit_price price)) (\<lambda>b.
         Option.bind (d_add D a b) (\<lambda>ab.
         Option.bind (d_checked_mul D (d_from_i64 D (ru_cache_write_tokens usage))
                       (rp_cache_write_unit_price price)) (\<lambda>c.
         Option.bind (d_add D ab c) (\<lambda>abc.
         Option.bind (d_checked_mul D (d_from_i64 D (ru_output_tokens usage))
                       (rp_output_unit_price price)) (\<lambda>d.
         Option.bind (d_add D abc d) (\<lambda>s.
         map_option (\<lambda>q. d_round_dp D q 8) (d_div D s (d_from_i64 D (rp_price_unit_tokens price)))))))))))"

definition request_billing_multiplier_for_value ::
  "'d decimal_ops \<Rightarrow> 'j json_ops \<Rightarrow> ('d, 'j) compiled_advanced_billing \<Rightarrow> 'j \<Rightarrow> 'd option" where
  "request_billing_multiplier_for_value D J c request =
     (if \<not> has_request_multipliers c then Some (d_one D) else request_multiplier D J c request)"

definition request_price ::
  "'d decimal_ops \<Rightarrow> 'd model_price_snapshot \<Rightarrow> ('d, 'j) compiled_advanced_billing \<Rightarrow>
   'd request_billing_factors \<Rightarrow> request_usage option \<Rightarrow> 'd request_price_snapshot option" where
  "request_price D snapshot c factors usage =
     (let (input, cached_input, cache_write, output) =
            (case usage of
               None \<Rightarrow> (mp_input_unit_price snapshot, mp_cached_input_unit_price snapshot,
                        mp_cache_write_unit_price snapshot, mp_output_unit_price snapshot)
             | Some u \<Rightarrow> prices c (ru_input_tokens u)
                          (mp_input_unit_price snapshot) (mp_cached_input_unit_price snapshot)
                          (mp_cache_write_unit_price snapshot) (mp_output_unit_price snapshot));
          time = time_multiplier D c (bf_started_weekday factors) (bf_started_hour factors)
                   (bf_started_minute factors)
      in Option.bind (Option.bind (d_checked_mul D (bf_channel_multiplier factors)
                        (bf_request_multiplier factors)) (\<lambda>m. d_checked_mul D m time)) (\<lambda>multiplier.
         Option.bind (effective_unit_price D input multiplier) (\<lambda>i.
         Option.bind (effective_unit_price D cached_input multiplier) (\<lambda>ci.
         Option.bind (effective_unit_price D cache_write multiplier) (\<lambda>cw.
         map_option (\<lambda>p. \<lparr>rp_currency = mp_currency snapshot,
                rp_price_unit_tokens = mp_price_unit_tokens snapshot,
                rp_price_effective_at = mp_price_effective_at snapshot,
                rp_input_unit_price = i, rp_cached_input_unit_price = ci,
                rp_cache_write_unit_price = cw, rp_output_unit_price = p\<rparr>)
           (effective_unit_price D output multiplier))))))"

definition output_tokens_per_second ::
  "'d decimal_ops \<Rightarrow> request_usage \<Rightarrow> int \<Rightarrow> int \<Rightarrow> 'd option" where
  "output_tokens_per_second D u total_duration_ms ttft_ms =
     Option.bind (d_checked_mul D (d_from_i64 D (ru_output_tokens u)) (d_from_i64 D 1000)) (\<lambda>n.
     map_option (\<lambda>q. d_round_dp D q 4)
       (d_div D n (d_from_i64 D (max 1 (i32_sat_sub total_duration_ms ttft_ms)))))"

definition request_billing ::
  "('d::linorder) decimal_ops \<Rightarrow> 'd model_price_snapshot \<Rightarrow> ('d, 'j) compiled_advanced_billing \<Rightarrow>
   'd request_billing_factors \<Rightarrow> request_usage option \<Rightarrow> int \<Rightarrow> int option \<Rightarrow>
   request_log_outcome \<Rightarrow> 'd request_billing_record option" where
  "request_billing D snapshot c factors usage total_duration_ms ttft_ms outcome =
     Option.bind (request_price D snapshot c factors usage) (\<lambda>price.
     Option.bind
       (if forces_zero_cost outcome then Some (Some (d_zero D))
        else case usage of None \<Rightarrow> Some None
             | Some u \<Rightarrow> map_option Some (calculate_cost D u price)) (\<lambda>cost.
     Option.bind
       (case (usage, ttft_ms) of
          (Some u, Some ttft) \<Rightarrow>
            (if ru_output_tokens u > 0
             then map_option Some (output_tokens_per_second D u total_duration_ms ttft)
             else Some None)
        | _ \<Rightarrow> Some None) (\<lambda>speed.
     Some \<lparr>rb_usage = usage, rb_price = price, rb_cost_amount = cost,
           rb_output_tokens_per_second = speed,
           rb_peak_pricing =
             (time_multiplier D c (bf_started_weekday factors) (bf_started_hour factors)
                (bf_started_minute factors) > d_one D)\<rparr>)))"

section \<open>Validation of effective prices at configuration time\<close>

definition maximum_effective_billing_multiplier ::
  "'d decimal_ops \<Rightarrow> ('d, 'j) compiled_advanced_billing \<Rightarrow> 'd \<Rightarrow> 'd option" where
  "maximum_effective_billing_multiplier D c channel_multiplier =
     Option.bind (d_checked_mul D channel_multiplier (cb_maximum_request_multiplier c))
       (\<lambda>m. d_checked_mul D m (cb_maximum_time_multiplier c))"

datatype price_error = MultiplierOverflow | PriceOverflow | PriceExceedsPrecision

fun validate_prices :: "('d::linorder) decimal_ops \<Rightarrow> 'd \<Rightarrow> 'd \<Rightarrow> 'd list \<Rightarrow> price_error + unit" where
  "validate_prices D max_persisted multiplier [] = Inr ()"
| "validate_prices D max_persisted multiplier (price # rest) =
     (case d_checked_mul D price multiplier of
        None \<Rightarrow> Inl PriceOverflow
      | Some effective \<Rightarrow>
          (if d_round_dp D effective 12 > max_persisted then Inl PriceExceedsPrecision
           else validate_prices D max_persisted multiplier rest))"

definition validate_effective_channel_prices ::
  "('d::linorder) decimal_ops \<Rightarrow> 'd \<Rightarrow> ('d, 'j) compiled_advanced_billing \<Rightarrow>
   'd model_price_snapshot \<Rightarrow> 'd \<Rightarrow> price_error + unit" where
  "validate_effective_channel_prices D max_persisted c snapshot billing_multiplier =
     (case maximum_effective_billing_multiplier D c billing_multiplier of
        None \<Rightarrow> Inl MultiplierOverflow
      | Some multiplier \<Rightarrow>
          validate_prices D max_persisted multiplier
            (price_candidates c (mp_input_unit_price snapshot) (mp_cached_input_unit_price snapshot)
               (mp_cache_write_unit_price snapshot) (mp_output_unit_price snapshot)))"

section \<open>Windows of the week\<close>

lemma starts_on_bit: "starts_on r d \<longleftrightarrow> bit (ct_start_weekday_mask r) d"
  by (simp add: starts_on_def bit_iff_and_push_bit_not_eq_0)

lemma weekday_index_less: "weekday_index d < DAYS_PER_WEEK"
  by (cases d) (simp_all add: week_defs)

lemma bit_weekday_bit: "bit (weekday_bit d) i \<longleftrightarrow> i = weekday_index d"
  using weekday_index_less [of d] by (auto simp: weekday_bit_def bit_simps week_defs)

lemma weekday_mask_bit:
  "weekday_mask msk ds = Some m \<Longrightarrow>
   bit m i \<longleftrightarrow> bit msk i \<or> (\<exists>d \<in> set ds. weekday_index d = i)"
  by (induction msk ds rule: weekday_mask.induct)
    (auto simp: bit_or_iff bit_weekday_bit split: if_splits)

text \<open>The minutes of the week a window covers, from its persisted form: \<open>weekdays\<close> are the
  days on which it starts, and it runs for \<open>duration\<close> minutes around the end of the week.\<close>

definition week_minutes :: "nat \<Rightarrow> nat \<Rightarrow> billing_weekday list \<Rightarrow> nat set" where
  "week_minutes start duration ds =
     {(weekday_index d * MINUTES_PER_DAY + start + o') mod MINUTES_PER_WEEK | d o'.
       d \<in> set ds \<and> o' < duration}"

lemma cover_minutes_Some:
  "cover_minutes ws offs cov = Some cov' \<Longrightarrow>
   cov' = (\<lambda>i. cov i \<or> (\<exists>o' \<in> set offs. i = (ws + o') mod MINUTES_PER_WEEK)) \<and>
   (\<forall>o' \<in> set offs. \<not> cov ((ws + o') mod MINUTES_PER_WEEK))"
proof (induction ws offs cov rule: cover_minutes.induct)
  case (2 ws o' offs cov)
  let ?i = "(ws + o') mod MINUTES_PER_WEEK"
  from "2.prems" have n: "\<not> cov ?i"
    and r: "cover_minutes ws offs (cov(?i := True)) = Some cov'"
    by (auto simp: Let_def split: if_splits)
  from "2.IH" [OF refl n r] n show ?case
    by (auto simp: fun_eq_iff split: if_splits)
qed auto

lemma cover_weekdays_Some:
  "cover_weekdays st du ds cov = Some cov' \<Longrightarrow>
   cov' = (\<lambda>i. cov i \<or> i \<in> week_minutes st du ds) \<and> (\<forall>i \<in> week_minutes st du ds. \<not> cov i)"
proof (induction st du ds cov rule: cover_weekdays.induct)
  case (1 st du cov)
  then show ?case by (simp add: week_minutes_def)
next
  case (2 st du d ds cov)
  let ?ws = "weekday_index d * MINUTES_PER_DAY + st"
  from "2.prems" obtain c1 where
    c1: "cover_minutes ?ws [0..<du] cov = Some c1" and
    r: "cover_weekdays st du ds c1 = Some cov'"
    by (auto split: option.splits)
  have m: "week_minutes st du (d # ds) =
      {(?ws + o') mod MINUTES_PER_WEEK | o'. o' < du} \<union> week_minutes st du ds"
    by (auto simp: week_minutes_def)
  from cover_minutes_Some [OF c1] "2.IH" [OF c1 r] show ?case
    unfolding m by (auto simp: fun_eq_iff)
qed

lemma day_minute_eq:
  "a * MINUTES_PER_DAY + x = b * MINUTES_PER_DAY + y \<longleftrightarrow> a = b \<and> x = y"
  if "x < MINUTES_PER_DAY" "y < MINUTES_PER_DAY"
proof
  assume e: "a * MINUTES_PER_DAY + x = b * MINUTES_PER_DAY + y"
  have "(a * MINUTES_PER_DAY + x) div MINUTES_PER_DAY = a" "(b * MINUTES_PER_DAY + y) div MINUTES_PER_DAY = b"
    using that by (simp_all add: week_defs)
  with e show "a = b \<and> x = y" by auto
qed auto

lemma week_minute_split:
  assumes "d < DAYS_PER_WEEK" and "t < 2 * MINUTES_PER_DAY"
  shows "(d * MINUTES_PER_DAY + t) mod MINUTES_PER_WEEK =
    (if t < MINUTES_PER_DAY then d * MINUTES_PER_DAY + t
     else ((d + 1) mod DAYS_PER_WEEK) * MINUTES_PER_DAY + (t - MINUTES_PER_DAY))"
proof (cases "t < MINUTES_PER_DAY")
  case False
  with assms show ?thesis
    by (cases "d = 6") (auto simp: week_defs mod_if)
qed (use assms in \<open>auto simp: week_defs\<close>)

lemma previous_day:
  assumes "d < DAYS_PER_WEEK" and "wd < DAYS_PER_WEEK"
  shows "(d + 1) mod DAYS_PER_WEEK = wd \<longleftrightarrow> d = (wd + 6) mod DAYS_PER_WEEK"
proof -
  have "(d + 1) mod DAYS_PER_WEEK = (if d = 6 then 0 else d + 1)"
    and "(wd + 6) mod DAYS_PER_WEEK = (if wd = 0 then 6 else wd - 1)"
    using assms by (auto simp: week_defs mod_if)
  with assms show ?thesis by (auto simp: week_defs)
qed

lemma week_minutes_iff_matches:
  assumes r: "ct_start_minute r < MINUTES_PER_DAY" "ct_end_minute r < MINUTES_PER_DAY"
      "ct_start_minute r \<noteq> ct_end_minute r"
    and b: "\<And>i. bit (ct_start_weekday_mask r) i \<longleftrightarrow> (\<exists>d \<in> set ds. weekday_index d = i)"
    and w: "wd < DAYS_PER_WEEK" "m < MINUTES_PER_DAY"
  shows "wd * MINUTES_PER_DAY + m \<in>
      week_minutes (ct_start_minute r)
        (if ct_start_minute r < ct_end_minute r then ct_end_minute r - ct_start_minute r
         else MINUTES_PER_DAY - ct_start_minute r + ct_end_minute r) ds \<longleftrightarrow>
    time_matches r wd m" (is "?l \<in> week_minutes ?s ?du ds \<longleftrightarrow> _")
proof -
  have idx: "d < DAYS_PER_WEEK" if "bit (ct_start_weekday_mask r) d" for d
    using that b weekday_index_less by auto
  have eq: "?l = (d * MINUTES_PER_DAY + ?s + o') mod MINUTES_PER_WEEK \<longleftrightarrow>
      (if ?s + o' < MINUTES_PER_DAY then d = wd \<and> m = ?s + o'
       else (d + 1) mod DAYS_PER_WEEK = wd \<and> m = ?s + o' - MINUTES_PER_DAY)"
    if "d < DAYS_PER_WEEK" "o' < ?du" for d o'
  proof -
    have t: "?s + o' < 2 * MINUTES_PER_DAY" using that r by (auto split: if_splits)
    show ?thesis
      using week_minute_split [OF that(1) t] day_minute_eq [of m "?s + o'" wd d] w t
        day_minute_eq [of m "?s + o' - MINUTES_PER_DAY" wd "(d + 1) mod DAYS_PER_WEEK"]
      by (auto simp: add.assoc)
  qed
  have "?l \<in> week_minutes ?s ?du ds \<longleftrightarrow>
      (\<exists>d o'. bit (ct_start_weekday_mask r) d \<and> o' < ?du \<and>
        ?l = (d * MINUTES_PER_DAY + ?s + o') mod MINUTES_PER_WEEK)"
    unfolding week_minutes_def b by blast
  also have "\<dots> \<longleftrightarrow> (\<exists>d o'. bit (ct_start_weekday_mask r) d \<and> o' < ?du \<and>
      (if ?s + o' < MINUTES_PER_DAY then d = wd \<and> m = ?s + o'
       else (d + 1) mod DAYS_PER_WEEK = wd \<and> m = ?s + o' - MINUTES_PER_DAY))"
    using eq idx by (intro ex_cong1 conj_cong refl) simp
  also have "\<dots> \<longleftrightarrow> time_matches r wd m"
  proof (cases "?s < ct_end_minute r")
    case True
    show ?thesis (is "?L \<longleftrightarrow> _")
    proof
      assume ?L
      then obtain d o' where d: "bit (ct_start_weekday_mask r) d" and o': "o' < ?du" and
        c: "if ?s + o' < MINUTES_PER_DAY then d = wd \<and> m = ?s + o'
            else (d + 1) mod DAYS_PER_WEEK = wd \<and> m = ?s + o' - MINUTES_PER_DAY" by blast
      from o' True r(2) have "?s + o' < MINUTES_PER_DAY" by simp
      with c have "d = wd" and "m = ?s + o'" by simp_all
      with d o' True show "time_matches r wd m"
        by (simp add: time_matches_def starts_on_bit)
    next
      assume "time_matches r wd m"
      with True w show ?L
        by (intro exI [of _ wd] exI [of _ "m - ?s"]) (auto simp: time_matches_def starts_on_bit)
    qed
  next
    case False
    let ?p = "(wd + 6) mod DAYS_PER_WEEK"
    have prev: "(d + 1) mod DAYS_PER_WEEK = wd \<longleftrightarrow> d = ?p" if "d < DAYS_PER_WEEK" for d
      using that w(1) by (rule previous_day)
    show ?thesis (is "?L \<longleftrightarrow> _")
    proof
      assume ?L
      then obtain d o' where d: "bit (ct_start_weekday_mask r) d" and o': "o' < ?du" and
        c: "if ?s + o' < MINUTES_PER_DAY then d = wd \<and> m = ?s + o'
            else (d + 1) mod DAYS_PER_WEEK = wd \<and> m = ?s + o' - MINUTES_PER_DAY" by blast
      show "time_matches r wd m"
      proof (cases "?s + o' < MINUTES_PER_DAY")
        case True
        with c d False show ?thesis by (simp add: time_matches_def starts_on_bit)
      next
        case n: False
        with c have wd: "(d + 1) mod DAYS_PER_WEEK = wd" and m: "m = ?s + o' - MINUTES_PER_DAY"
          by simp_all
        from prev [OF idx [OF d]] wd have dp: "d = ?p" by (rule iffD1)
        from d have "starts_on r ?p" unfolding starts_on_bit dp .
        moreover have "m < ct_end_minute r" using m n o' False r(1) by simp
        ultimately show ?thesis using False by (simp add: time_matches_def)
      qed
    next
      assume "time_matches r wd m"
      then consider "?s \<le> m" "starts_on r wd" | "m < ct_end_minute r" "starts_on r ?p"
        using False by (auto simp: time_matches_def)
      then show ?L
      proof cases
        case 1
        then show ?thesis using False w r
          by (intro exI [of _ wd] exI [of _ "m - ?s"]) (auto simp: starts_on_bit)
      next
        case 2
        have "?p < DAYS_PER_WEEK" by (simp add: week_defs)
        then have p: "(?p + 1) mod DAYS_PER_WEEK = wd" using prev by blast
        show ?thesis
        proof (intro exI conjI)
          show "bit (ct_start_weekday_mask r) ?p" using 2(2) by (simp only: starts_on_bit)
          show "MINUTES_PER_DAY - ?s + m < ?du" using 2(1) False by simp
          show "if ?s + (MINUTES_PER_DAY - ?s + m) < MINUTES_PER_DAY
            then ?p = wd \<and> m = ?s + (MINUTES_PER_DAY - ?s + m)
            else (?p + 1) mod DAYS_PER_WEEK = wd \<and> m = ?s + (MINUTES_PER_DAY - ?s + m) - MINUTES_PER_DAY"
            using p r(1) by simp
        qed
      qed
    qed
  qed
  finally show ?thesis .
qed

section \<open>Compiled windows\<close>

text \<open>The reference meaning of a persisted window, on the minute of the week.\<close>

definition window_covers :: "'d time_billing_multiplier \<Rightarrow> nat \<Rightarrow> bool" where
  "window_covers r minute_of_week =
     (case (parse_utc_time (tm_start_time r), parse_utc_time (tm_end_time r)) of
        (Some st, Some en) \<Rightarrow>
          minute_of_week \<in> week_minutes st
            (if st < en then en - st else MINUTES_PER_DAY - st + en) (tm_weekdays r)
      | _ \<Rightarrow> False)"

lemma parse_utc_time_bound: "parse_utc_time v = Some m \<Longrightarrow> m < MINUTES_PER_DAY"
  by (auto simp: parse_utc_time_def Let_def week_defs split: if_splits)

lemma compile_time_multiplier_Some:
  assumes "compile_time_multiplier D prev r cov = Some (c, cov')"
  shows "ct_multiplier c = tm_multiplier r"
    and "cov' = (\<lambda>i. cov i \<or> window_covers r i)"
    and "\<And>i. window_covers r i \<Longrightarrow> \<not> cov i"
    and "\<And>wd m. wd < DAYS_PER_WEEK \<Longrightarrow> m < MINUTES_PER_DAY \<Longrightarrow>
      time_matches c wd m \<longleftrightarrow> window_covers r (wd * MINUTES_PER_DAY + m)"
proof -
  from assms obtain st en msk where
    st: "parse_utc_time (tm_start_time r) = Some st" and
    en: "parse_utc_time (tm_end_time r) = Some en" and ne: "st \<noteq> en" and
    msk: "weekday_mask 0 (tm_weekdays r) = Some msk" and
    cov: "cover_weekdays st (if st < en then en - st else MINUTES_PER_DAY - st + en)
            (tm_weekdays r) cov = Some cov'" and
    c: "c = \<lparr>ct_start_weekday_mask = msk, ct_start_minute = st,
             ct_end_minute = en, ct_multiplier = tm_multiplier r\<rparr>"
    by (auto simp: compile_time_multiplier_def Let_def split: if_splits option.splits)
  have win: "window_covers r = (\<lambda>i. i \<in> week_minutes st
      (if st < en then en - st else MINUTES_PER_DAY - st + en) (tm_weekdays r))"
    by (simp add: window_covers_def st en fun_eq_iff)
  show "ct_multiplier c = tm_multiplier r" by (simp add: c)
  show "cov' = (\<lambda>i. cov i \<or> window_covers r i)" "\<And>i. window_covers r i \<Longrightarrow> \<not> cov i"
    using cover_weekdays_Some [OF cov] by (simp_all add: win)
  show "time_matches c wd m \<longleftrightarrow> window_covers r (wd * MINUTES_PER_DAY + m)"
    if "wd < DAYS_PER_WEEK" "m < MINUTES_PER_DAY" for wd m
  proof -
    have sel: "ct_start_minute c = st" "ct_end_minute c = en" "ct_start_weekday_mask c = msk"
      by (simp_all add: c)
    have "wd * MINUTES_PER_DAY + m \<in> week_minutes st
        (if st < en then en - st else MINUTES_PER_DAY - st + en) (tm_weekdays r) \<longleftrightarrow> time_matches c wd m"
      using week_minutes_iff_matches [of c "tm_weekdays r" wd m, unfolded sel]
        parse_utc_time_bound [OF st] parse_utc_time_bound [OF en] ne weekday_mask_bit [OF msk] that
      by (simp only: bit_0_eq bot_fun_def bot_bool_def simp_thms)
    then show ?thesis by (simp only: win)
  qed
qed

lemma compile_time_multipliers_Some:
  assumes "compile_time_multipliers D prev cov rs = Some cs"
  shows "list_all2 (\<lambda>c r. ct_multiplier c = tm_multiplier r \<and>
      (\<forall>wd < DAYS_PER_WEEK. \<forall>m < MINUTES_PER_DAY.
        time_matches c wd m \<longleftrightarrow> window_covers r (wd * MINUTES_PER_DAY + m))) cs rs"
    and "sorted_wrt (\<lambda>a b. \<forall>i. \<not> (window_covers a i \<and> window_covers b i)) rs"
    and "\<forall>r \<in> set rs. \<forall>i. window_covers r i \<longrightarrow> \<not> cov i"
  using assms
proof (atomize (full), induction D prev cov rs arbitrary: cs rule: compile_time_multipliers.induct)
  case (2 D prev cov r rs)
  from "2.prems" obtain c cov' cs' where
    c: "compile_time_multiplier D prev r cov = Some (c, cov')" and
    cs': "compile_time_multipliers D (prev @ [r]) cov' rs = Some cs'" and
    cs: "cs = c # cs'"
    by (auto split: option.splits prod.splits)
  note step = compile_time_multiplier_Some [OF c]
  note rest = "2.IH" [OF c refl cs']
  show ?case unfolding cs using step rest by auto
qed auto

lemma find_unique:
  assumes "filter P xs = [x]"
  shows "find P xs = Some x"
  using assms by (induction xs) (auto split: if_splits)

lemma filter_at_most_one:
  assumes "sorted_wrt (\<lambda>a b. \<not> (P a \<and> P b)) xs"
  shows "filter P xs = [] \<or> (\<exists>x. filter P xs = [x])"
  using assms by (induction xs) (auto simp: filter_empty_conv)

lemma list_all2_filter_find:
  assumes "list_all2 (\<lambda>c r. f c = g r \<and> (P c \<longleftrightarrow> Q r)) cs rs"
  shows "map_option f (find P cs) = map_option g (find Q rs)"
  using assms by (induction rule: list_all2_induct) auto

text \<open>C29. Overlapping price windows cannot be compiled, and the compiled bit-mask and
  minute-of-day test agrees with the persisted windows: at every minute of the week at most
  one configured window covers the minute, and the time multiplier is that window's
  multiplier, or one when there is none.\<close>

theorem time_multiplier_unique_window:
  assumes "compile_billing D J v = Inr c"
    and "wd < 7" and "h < 24" and "mi < 60"
  shows "(filter (\<lambda>r. window_covers r (wd * 1440 + (h * 60 + mi))) (ab_time_multipliers v) = [] \<and>
            time_multiplier D c wd h mi = d_one D) \<or>
         (\<exists>r. filter (\<lambda>r. window_covers r (wd * 1440 + (h * 60 + mi))) (ab_time_multipliers v) = [r] \<and>
            time_multiplier D c wd h mi = tm_multiplier r)"
proof -
  let ?Q = "\<lambda>r. window_covers r (wd * 1440 + (h * 60 + mi))"
  let ?P = "\<lambda>k. time_matches k wd (h * 60 + mi)"
  let ?rs = "ab_time_multipliers v"
  from assms(1) have cs: "compile_time_multipliers D [] (\<lambda>_. False) ?rs = Some (cb_time_multipliers c)"
    by (auto simp: compile_billing_def split: if_splits option.splits)
  note F = compile_time_multipliers_Some [OF cs]
  have m: "wd < DAYS_PER_WEEK" "h * 60 + mi < MINUTES_PER_DAY" using assms by (simp_all add: week_defs)
  have "list_all2 (\<lambda>k r. ct_multiplier k = tm_multiplier r \<and> (?P k \<longleftrightarrow> ?Q r)) (cb_time_multipliers c) ?rs"
    using F(1) m by (auto elim!: list_all2_mono simp: MINUTES_PER_DAY_def)
  then have "map_option ct_multiplier (find ?P (cb_time_multipliers c)) = map_option tm_multiplier (find ?Q ?rs)"
    by (rule list_all2_filter_find)
  then have t: "time_multiplier D c wd h mi = (case find ?Q ?rs of None \<Rightarrow> d_one D | Some r \<Rightarrow> tm_multiplier r)"
    by (auto simp: time_multiplier_def split: option.splits)
  have "filter ?Q ?rs = [] \<or> (\<exists>r. filter ?Q ?rs = [r])"
    by (rule filter_at_most_one) (rule sorted_wrt_mono_rel [OF _ F(2)], blast)
  then show ?thesis
  proof
    assume "filter ?Q ?rs = []"
    then have "find ?Q ?rs = None" by (auto simp: find_None_iff filter_empty_conv)
    with t \<open>filter ?Q ?rs = []\<close> show ?thesis by simp
  next
    assume "\<exists>r. filter ?Q ?rs = [r]"
    then obtain r where r: "filter ?Q ?rs = [r]" by blast
    from find_unique [OF r] r t show ?thesis by simp
  qed
qed


text \<open>Concrete operations for the witnesses: bounded integers as decimals, and documents that
  are strings whose only pointer is the empty one.\<close>

definition int_decimal :: "int decimal_ops" where
  "int_decimal =
     \<lparr>d_zero = 0, d_one = 1, d_is_sign_negative = (\<lambda>x. x < 0),
      d_checked_mul = (\<lambda>a b. if b = 1 \<or> \<bar>a * b\<bar> < 10 ^ 28 then Some (a * b) else None),
      d_add = (\<lambda>a b. if \<bar>a + b\<bar> < 10 ^ 28 then Some (a + b) else None),
      d_div = (\<lambda>a b. if b = 0 then None else Some (a div b)),
      d_from_i64 = (\<lambda>x. x), d_round_dp = (\<lambda>x _. x)\<rparr>"

definition string_json :: "string json_ops" where
  "string_json = \<lparr>j_pointer = (\<lambda>v p. if p = [] then Some v else None), j_encoded_len = (\<lambda>v. Some (length v))\<rparr>"

definition sample_billing :: "(int, string) advanced_billing" where
  "sample_billing =
     \<lparr>ab_long_context_tiers =
        [\<lparr>lt_input_tokens_threshold = 100, lt_input_unit_price = 5, lt_cached_input_unit_price = 2,
          lt_cache_write_unit_price = 6, lt_output_unit_price = Some 9\<rparr>],
      ab_request_multipliers = [\<lparr>rm_json_pointer = [], rm_value = ''fast'', rm_multiplier = 3\<rparr>],
      ab_time_multipliers =
        [\<lparr>tm_label = [112], tm_weekdays = [Sunday], tm_start_time = ''23:59'', tm_end_time = ''00:01'',
          tm_multiplier = 2\<rparr>]\<rparr>"

definition sample_compiled :: "(int, string) compiled_advanced_billing" where
  "sample_compiled =
     \<lparr>cb_long_context_tiers = ab_long_context_tiers sample_billing,
      cb_request_multipliers = ab_request_multipliers sample_billing,
      cb_time_multipliers =
        [\<lparr>ct_start_weekday_mask = 64, ct_start_minute = 1439, ct_end_minute = 1, ct_multiplier = 2\<rparr>],
      cb_maximum_request_multiplier = 3, cb_maximum_time_multiplier = 2\<rparr>"

lemma compile_sample: "compile_billing int_decimal string_json sample_billing = Inr sample_compiled"
  by (simp add: compile_billing_def sample_billing_def sample_compiled_def int_decimal_def
      string_json_def compile_time_multiplier_def parse_utc_time_def digit_value_def
      is_ascii_digit_def text_trim_def is_whitespace_def weekday_bit_def week_defs
      MAX_JSON_POINTER_BYTES_def MAX_MATCH_VALUE_BYTES_def MAX_TIME_MULTIPLIERS_def
      MAX_TIME_MULTIPLIER_LABEL_CHARS_def valid_json_pointer_def upt_rec Let_def)

theorem time_multiplier_unique_window_witness:
  "compile_billing int_decimal string_json sample_billing = Inr sample_compiled \<and>
   time_multiplier int_decimal sample_compiled 0 0 0 = 2"
proof -
  have "filter (\<lambda>r. window_covers r (0 * 1440 + (0 * 60 + 0))) (ab_time_multipliers sample_billing) \<noteq> []"
    by (simp add: sample_billing_def window_covers_def week_minutes_def parse_utc_time_def
        digit_value_def is_ascii_digit_def week_defs Let_def) (rule exI [of _ 1], simp)
  then show ?thesis
    using time_multiplier_unique_window [OF compile_sample, of 0 0 0] compile_sample
    by (auto simp: sample_billing_def split: if_splits)
qed

section \<open>Long-context tiers\<close>

lemma tiers_valid_sorted:
  "tiers_valid D p ts \<Longrightarrow>
   sorted_wrt (\<lambda>a b. lt_input_tokens_threshold a < lt_input_tokens_threshold b) ts \<and>
   (\<forall>t \<in> set ts. p < lt_input_tokens_threshold t)"
proof (induction D p ts rule: tiers_valid.induct)
  case (2 D p t ts)
  then have "p < lt_input_tokens_threshold t" and "tiers_valid D (lt_input_tokens_threshold t) ts"
    by simp_all
  with "2.IH" show ?case by fastforce
qed simp

lemma find_rev_greatest:
  fixes f :: "'a \<Rightarrow> int"
  assumes "sorted_wrt (\<lambda>a b. f a < f b) xs" and "find (\<lambda>x. f x \<le> n) (rev xs) = Some x"
  shows "x \<in> set xs \<and> f x \<le> n \<and> (\<forall>y \<in> set xs. f y \<le> n \<longrightarrow> f y \<le> f x)"
  using assms
proof (induction xs rule: rev_induct)
  case (snoc a xs)
  then show ?case
    by (cases "f a \<le> n") (fastforce simp: sorted_wrt_append)+
qed simp

text \<open>C30. The prices of a request are those of the highest long-context tier whose threshold
  the input tokens reach, with the base output price where that tier names none, and the base
  prices below every threshold.\<close>

theorem prices_highest_reached_tier:
  assumes "compile_billing D J v = Inr c"
  shows "(\<forall>t \<in> set (ab_long_context_tiers v). tokens < lt_input_tokens_threshold t) \<and>
           prices c tokens bi bc bw bo = (bi, bc, bw, bo) \<or>
         (\<exists>t \<in> set (ab_long_context_tiers v).
           lt_input_tokens_threshold t \<le> tokens \<and>
           (\<forall>u \<in> set (ab_long_context_tiers v). lt_input_tokens_threshold u \<le> tokens \<longrightarrow>
              lt_input_tokens_threshold u \<le> lt_input_tokens_threshold t) \<and>
           prices c tokens bi bc bw bo =
             (lt_input_unit_price t, lt_cached_input_unit_price t, lt_cache_write_unit_price t,
              (case lt_output_unit_price t of None \<Rightarrow> bo | Some p \<Rightarrow> p)))"
proof -
  let ?ts = "ab_long_context_tiers v"
  from assms have c: "cb_long_context_tiers c = ?ts" and ok: "tiers_valid D 0 ?ts"
    by (auto simp: compile_billing_def split: if_splits option.splits)
  show ?thesis
  proof (cases "find (\<lambda>t. tokens \<ge> lt_input_tokens_threshold t) (rev ?ts)")
    case None
    then have "prices c tokens bi bc bw bo = (bi, bc, bw, bo)" by (simp add: prices_def c)
    moreover from None have "\<forall>t \<in> set ?ts. tokens < lt_input_tokens_threshold t"
      by (auto simp: find_None_iff not_le)
    ultimately show ?thesis by blast
  next
    case (Some t)
    note best = find_rev_greatest [OF conjunct1 [OF tiers_valid_sorted [OF ok]] Some]
    with Some show ?thesis by (intro disjI2 bexI [of _ t]) (simp_all add: prices_def c)
  qed
qed

theorem prices_highest_reached_tier_witness:
  "prices sample_compiled 100 1 1 1 1 = (5, 2, 6, 9) \<and> prices sample_compiled 99 1 1 1 1 = (1, 1, 1, 1)"
  using prices_highest_reached_tier [OF compile_sample, of 100 1 1 1 1]
    prices_highest_reached_tier [OF compile_sample, of 99 1 1 1 1]
  by (simp add: sample_billing_def)

section \<open>Effective prices\<close>

text \<open>What the code relies on of the decimal type: multiplication by one is exact, the order
  agrees with the sign, and checked multiplication of non-negative factors is monotone, in
  particular it succeeds where it succeeds for larger factors. Rounding is monotone.\<close>

definition decimal_laws :: "('d::linorder) decimal_ops \<Rightarrow> bool" where
  "decimal_laws D \<longleftrightarrow>
     (\<forall>a. d_checked_mul D a (d_one D) = Some a) \<and> d_zero D \<le> d_one D \<and>
     (\<forall>a. \<not> d_is_sign_negative D a \<longrightarrow> d_zero D \<le> a) \<and>
     (\<forall>a a' b b' p'. d_zero D \<le> a \<and> a \<le> a' \<and> d_zero D \<le> b \<and> b \<le> b' \<and>
        d_checked_mul D a' b' = Some p' \<longrightarrow>
        (\<exists>p. d_checked_mul D a b = Some p \<and> d_zero D \<le> p \<and> p \<le> p')) \<and>
     (\<forall>a b n. a \<le> b \<longrightarrow> d_round_dp D a n \<le> d_round_dp D b n)"

lemma laws_mul_one: "decimal_laws D \<Longrightarrow> d_checked_mul D a (d_one D) = Some a"
  by (simp add: decimal_laws_def)

lemma laws_one: "decimal_laws D \<Longrightarrow> d_zero D \<le> d_one D"
  by (simp add: decimal_laws_def)

lemma laws_sign: "decimal_laws D \<Longrightarrow> \<not> d_is_sign_negative D a \<Longrightarrow> d_zero D \<le> a"
  by (simp add: decimal_laws_def)

lemma laws_mono:
  assumes "decimal_laws D" "d_zero D \<le> a" "a \<le> a'" "d_zero D \<le> b" "b \<le> b'"
    and "d_checked_mul D a' b' = Some p'"
  shows "\<exists>p. d_checked_mul D a b = Some p \<and> d_zero D \<le> p \<and> p \<le> p'"
proof -
  have "\<forall>a a' b b' p'. d_zero D \<le> a \<and> a \<le> a' \<and> d_zero D \<le> b \<and> b \<le> b' \<and>
        d_checked_mul D a' b' = Some p' \<longrightarrow>
        (\<exists>p. d_checked_mul D a b = Some p \<and> d_zero D \<le> p \<and> p \<le> p')"
    using assms(1) unfolding decimal_laws_def by (elim conjE)
  from this [rule_format, of a a' b b' p'] assms(2-) show ?thesis by simp
qed

lemma laws_round: "decimal_laws D \<Longrightarrow> a \<le> b \<Longrightarrow> d_round_dp D a n \<le> d_round_dp D b n"
  by (simp add: decimal_laws_def)

lemma try_fold_mul_bound:
  assumes L: "decimal_laws D"
  shows "d_zero D \<le> acc \<Longrightarrow> acc \<le> acc' \<Longrightarrow> (\<forall>r \<in> set rs. d_zero D \<le> rm_multiplier r) \<Longrightarrow>
    try_fold_mul D acc' (filter (\<lambda>m. m > d_one D) (map rm_multiplier rs)) = Some p' \<Longrightarrow>
    \<exists>p. try_fold_mul D acc (map rm_multiplier (filter P rs)) = Some p \<and> d_zero D \<le> p \<and> p \<le> p'"
proof (induction rs arbitrary: acc acc')
  case (Cons r rs)
  let ?m = "rm_multiplier r"
  have m0: "d_zero D \<le> ?m" using Cons.prems by simp
  obtain a' where a': "acc \<le> a'" "try_fold_mul D a' (filter (\<lambda>m. m > d_one D) (map rm_multiplier rs)) = Some p'"
    and step: "P r \<Longrightarrow> \<exists>a. d_checked_mul D acc ?m = Some a \<and> d_zero D \<le> a \<and> a \<le> a'"
  proof (cases "?m > d_one D")
    case True
    with Cons.prems obtain a' where
      mul: "d_checked_mul D acc' ?m = Some a'" and
      rest: "try_fold_mul D a' (filter (\<lambda>m. m > d_one D) (map rm_multiplier rs)) = Some p'"
      by (auto split: option.splits)
    have "acc \<le> a'"
      using laws_mono [OF L Cons.prems(1,2) laws_one [OF L] less_imp_le [OF True] mul]
      unfolding laws_mul_one [OF L] by simp
    moreover have "\<exists>a. d_checked_mul D acc ?m = Some a \<and> d_zero D \<le> a \<and> a \<le> a'"
      by (rule laws_mono [OF L Cons.prems(1,2) m0 order.refl mul])
    ultimately show thesis using that rest by blast
  next
    case False
    then have "try_fold_mul D acc' (filter (\<lambda>m. m > d_one D) (map rm_multiplier rs)) = Some p'"
      using Cons.prems by simp
    moreover have "\<exists>a. d_checked_mul D acc ?m = Some a \<and> d_zero D \<le> a \<and> a \<le> acc'"
      by (rule laws_mono [OF L Cons.prems(1,2) m0 leI [OF False] laws_mul_one [OF L]])
    ultimately show thesis using that Cons.prems(2) by blast
  qed
  show ?case
  proof (cases "P r")
    case True
    with step obtain a where a: "d_checked_mul D acc ?m = Some a" "d_zero D \<le> a" "a \<le> a'" by blast
    from Cons.IH [OF a(2,3) _ a'(2)] Cons.prems(3) a(1) True show ?thesis by simp
  next
    case False
    with Cons.IH [OF Cons.prems(1) a'(1) _ a'(2)] Cons.prems(3) show ?thesis by simp
  qed
qed auto


lemma request_multiplier_bound:
  assumes L: "decimal_laws D" and c: "compile_billing D J v = Inr c"
  shows "\<exists>m. request_billing_multiplier_for_value D J c req = Some m \<and>
    d_zero D \<le> m \<and> m \<le> cb_maximum_request_multiplier c"
proof -
  let ?rs = "ab_request_multipliers v"
  from c have rs: "cb_request_multipliers c = ?rs"
    and v: "request_multipliers_valid D J [] ?rs"
    and mx: "try_fold_mul D (d_one D) (filter (\<lambda>m. m > d_one D) (map rm_multiplier ?rs)) =
      Some (cb_maximum_request_multiplier c)"
    by (auto simp: compile_billing_def split: if_splits option.splits)
  have "\<forall>r \<in> set qs. d_zero D \<le> rm_multiplier r" if "request_multipliers_valid D J ps qs" for ps qs
    using that by (induction qs arbitrary: ps) (use L in \<open>auto intro: laws_sign\<close>)
  from this [OF v] have n: "\<forall>r \<in> set ?rs. d_zero D \<le> rm_multiplier r" .
  note bound = try_fold_mul_bound [OF L laws_one [OF L] order.refl n mx]
  from bound have "\<exists>m. request_multiplier D J c req = Some m \<and> d_zero D \<le> m \<and> m \<le> cb_maximum_request_multiplier c"
    unfolding request_multiplier_def rs .
  moreover have "d_one D \<le> cb_maximum_request_multiplier c"
    using bound [of "\<lambda>_. False"] by simp
  ultimately show ?thesis
    using laws_one [OF L] by (auto simp: request_billing_multiplier_for_value_def)
qed

lemma fold_max_ge_acc: "m \<le> fold max ms (m :: 'a::linorder)"
proof (induction ms arbitrary: m)
  case (Cons a ms)
  have "m \<le> max a m" by simp
  also have "\<dots> \<le> fold max ms (max a m)" by (rule Cons.IH)
  finally show ?case by simp
qed simp

lemma fold_max_ge: "x \<in> set (m # ms) \<Longrightarrow> x \<le> fold max ms (m :: 'a::linorder)"
proof (induction ms arbitrary: m)
  case (Cons a ms)
  show ?case
  proof (cases "x \<in> set ms")
    case True
    with Cons.IH [of "max a m"] show ?thesis by simp
  next
    case False
    with Cons.prems have "x \<le> max a m" by auto
    also have "\<dots> \<le> fold max ms (max a m)" by (rule fold_max_ge_acc)
    finally show ?thesis by simp
  qed
qed simp

lemma time_multiplier_bound:
  assumes L: "decimal_laws D" and c: "compile_billing D J v = Inr c"
  shows "d_zero D \<le> time_multiplier D c wd h mi \<and>
    time_multiplier D c wd h mi \<le> cb_maximum_time_multiplier c"
proof -
  let ?rs = "ab_time_multipliers v"
  let ?big = "filter (\<lambda>m. m > d_one D) (map tm_multiplier ?rs)"
  from c have cs: "compile_time_multipliers D [] (\<lambda>_. False) ?rs = Some (cb_time_multipliers c)"
    and mx: "cb_maximum_time_multiplier c = (case ?big of [] \<Rightarrow> d_one D | m # ms \<Rightarrow> fold max ms m)"
    by (auto simp: compile_billing_def split: if_splits option.splits)
  have one: "d_one D \<le> cb_maximum_time_multiplier c"
  proof (cases ?big)
    case (Cons m ms)
    then have "m \<in> set ?big" by simp
    then have "d_one D < m" by auto
    with fold_max_ge [of m m ms] Cons show ?thesis by (simp add: mx)
  qed (simp add: mx)
  have le: "x \<le> cb_maximum_time_multiplier c" if "x \<in> set (map tm_multiplier ?rs)" for x
  proof (cases "d_one D < x")
    case True
    with that have "x \<in> set ?big" by auto
    then show ?thesis using fold_max_ge by (cases ?big) (auto simp: mx)
  qed (use one in auto)
  have nonneg: "\<forall>k \<in> set ks. d_zero D \<le> ct_multiplier k \<and> ct_multiplier k \<in> set (map tm_multiplier rs)"
    if "compile_time_multipliers D ps cov rs = Some ks" for ps cov rs ks
    using that
  proof (induction rs arbitrary: ps cov ks)
    case (Cons r rs)
    then obtain k cov' ks' where k: "compile_time_multiplier D ps r cov = Some (k, cov')"
      and ks': "compile_time_multipliers D (ps @ [r]) cov' rs = Some ks'" and ks: "ks = k # ks'"
      by (auto split: option.splits prod.splits)
    have "d_zero D \<le> tm_multiplier r"
      using k by (intro laws_sign [OF L]) (auto simp: compile_time_multiplier_def split: if_splits)
    with Cons.IH [OF ks'] compile_time_multiplier_Some(1) [OF k] show ?case by (auto simp: ks)
  qed simp
  show ?thesis
  proof (cases "find (\<lambda>r. time_matches r wd (h * 60 + mi)) (cb_time_multipliers c)")
    case None
    with one laws_one [OF L] show ?thesis by (simp add: time_multiplier_def)
  next
    case (Some k)
    then have "k \<in> set (cb_time_multipliers c)" by (auto simp: find_Some_iff)
    with nonneg [OF cs] le Some show ?thesis by (simp add: time_multiplier_def)
  qed
qed

lemma validate_prices_Inr:
  "validate_prices D mx mu ps = Inr () \<Longrightarrow> p \<in> set ps \<Longrightarrow>
   \<exists>e. d_checked_mul D p mu = Some e \<and> d_round_dp D e 12 \<le> mx"
  by (induction ps) (auto split: option.splits if_splits)

lemma tiers_valid_sign:
  assumes "tiers_valid D p ts" and "t \<in> set ts"
  shows "\<not> d_is_sign_negative D (lt_input_unit_price t)"
    "\<not> d_is_sign_negative D (lt_cached_input_unit_price t)"
    "\<not> d_is_sign_negative D (lt_cache_write_unit_price t)"
    "lt_output_unit_price t = Some q \<Longrightarrow> \<not> d_is_sign_negative D q"
  using assms by (induction D p ts rule: tiers_valid.induct) (auto split: option.splits)

lemma prices_are_candidates:
  assumes "compile_billing D J v = Inr c" and "decimal_laws D"
    and "d_zero D \<le> bi" "d_zero D \<le> bc" "d_zero D \<le> bw" "d_zero D \<le> bo"
    and "prices c tokens bi bc bw bo = (i, ci, cw, out)"
  shows "\<forall>p \<in> {i, ci, cw, out}. p \<in> set (price_candidates c bi bc bw bo) \<and> d_zero D \<le> p"
proof -
  from assms(1) have ct: "cb_long_context_tiers c = ab_long_context_tiers v"
    and ok: "tiers_valid D 0 (ab_long_context_tiers v)"
    by (auto simp: compile_billing_def split: if_splits option.splits)
  show ?thesis
  proof (cases "find (\<lambda>t. tokens \<ge> lt_input_tokens_threshold t) (rev (cb_long_context_tiers c))")
    case None
    with assms show ?thesis by (auto simp: prices_def price_candidates_def)
  next
    case (Some t)
    then have t: "t \<in> set (ab_long_context_tiers v)" by (auto dest: find_SomeD simp: ct)
    note sign = tiers_valid_sign [OF ok t] and ge0 = laws_sign [OF assms(2)]
    from Some assms(7) have "i = lt_input_unit_price t" "ci = lt_cached_input_unit_price t"
      "cw = lt_cache_write_unit_price t"
      "out = (case lt_output_unit_price t of None \<Rightarrow> bo | Some p \<Rightarrow> p)"
      by (simp_all add: prices_def)
    with t sign ge0 assms(6) show ?thesis
      by (auto simp: price_candidates_def ct intro!: bexI [of _ t] split: option.splits)
  qed
qed

text \<open>C28. Price validation at configuration time is sufficient for every later request: if a
  policy compiles and its effective prices pass the configuration check for a channel, then for
  every request document, every token count and every time of the week the request multiplier
  exists, no multiplication of the request price overflows, and every unit price that is
  recorded stays within the persisted precision.\<close>

theorem validated_prices_never_overflow:
  assumes L: "decimal_laws D"
    and c: "compile_billing D J v = Inr c"
    and V: "validate_effective_channel_prices D mx c snap chan = Inr ()"
    and nn: "d_zero D \<le> chan" "d_zero D \<le> mp_input_unit_price snap"
      "d_zero D \<le> mp_cached_input_unit_price snap" "d_zero D \<le> mp_cache_write_unit_price snap"
      "d_zero D \<le> mp_output_unit_price snap"
  shows "\<exists>m price.
     request_billing_multiplier_for_value D J c req = Some m \<and>
     request_price D snap c
       \<lparr>bf_started_weekday = wd, bf_started_hour = h, bf_started_minute = mi,
        bf_channel_multiplier = chan, bf_request_multiplier = m\<rparr> usage = Some price \<and>
     rp_input_unit_price price \<le> mx \<and> rp_cached_input_unit_price price \<le> mx \<and>
     rp_cache_write_unit_price price \<le> mx \<and> rp_output_unit_price price \<le> mx"
proof -
  let ?t = "time_multiplier D c wd h mi"
  let ?cands = "price_candidates c (mp_input_unit_price snap) (mp_cached_input_unit_price snap)
    (mp_cache_write_unit_price snap) (mp_output_unit_price snap)"
  from request_multiplier_bound [OF L c, of req] obtain m where
    m: "request_billing_multiplier_for_value D J c req = Some m"
      "d_zero D \<le> m" "m \<le> cb_maximum_request_multiplier c" by blast
  from V obtain mr M where
    mr: "d_checked_mul D chan (cb_maximum_request_multiplier c) = Some mr" and
    M: "d_checked_mul D mr (cb_maximum_time_multiplier c) = Some M" and
    vp: "validate_prices D mx M ?cands = Inr ()"
    by (auto simp: validate_effective_channel_prices_def maximum_effective_billing_multiplier_def
        split: option.splits bind_splits)
  from laws_mono [OF L nn(1) order.refl m(2,3) mr] obtain a where
    a: "d_checked_mul D chan m = Some a" "d_zero D \<le> a" "a \<le> mr" by blast
  note tb = time_multiplier_bound [OF L c, of wd h mi]
  from laws_mono [OF L a(2,3) conjunct1 [OF tb] conjunct2 [OF tb] M] obtain b where
    b: "d_checked_mul D a ?t = Some b" "d_zero D \<le> b" "b \<le> M" by blast
  have eff: "\<exists>e. effective_unit_price D p b = Some e \<and> e \<le> mx"
    if "p \<in> set ?cands" and p0: "d_zero D \<le> p" for p
  proof -
    from validate_prices_Inr [OF vp that(1)] obtain e where
      e: "d_checked_mul D p M = Some e" "d_round_dp D e 12 \<le> mx" by blast
    from laws_mono [OF L p0 order.refl b(2,3) e(1)] obtain q where
      q: "d_checked_mul D p b = Some q" "q \<le> e" by blast
    from laws_round [OF L q(2), of 12] e(2) q(1) show ?thesis
      by (auto simp: effective_unit_price_def)
  qed
  obtain i ci cw out where pr: "(case usage of
      None \<Rightarrow> (mp_input_unit_price snap, mp_cached_input_unit_price snap,
               mp_cache_write_unit_price snap, mp_output_unit_price snap)
    | Some u \<Rightarrow> prices c (ru_input_tokens u) (mp_input_unit_price snap) (mp_cached_input_unit_price snap)
                 (mp_cache_write_unit_price snap) (mp_output_unit_price snap)) = (i, ci, cw, out)"
    by (cases "case usage of
      None \<Rightarrow> (mp_input_unit_price snap, mp_cached_input_unit_price snap,
               mp_cache_write_unit_price snap, mp_output_unit_price snap)
    | Some u \<Rightarrow> prices c (ru_input_tokens u) (mp_input_unit_price snap) (mp_cached_input_unit_price snap)
                 (mp_cache_write_unit_price snap) (mp_output_unit_price snap)") blast
  have "\<forall>p \<in> {i, ci, cw, out}. p \<in> set ?cands \<and> d_zero D \<le> p"
  proof (cases usage)
    case None
    with pr nn show ?thesis by (auto simp: price_candidates_def)
  next
    case (Some u)
    with pr show ?thesis by (intro prices_are_candidates [OF c L nn(2-5)]) simp
  qed
  with eff have "\<forall>p \<in> {i, ci, cw, out}. \<exists>e. effective_unit_price D p b = Some e \<and> e \<le> mx" by blast
  then obtain ei eci ecw eo where
    "effective_unit_price D i b = Some ei" "ei \<le> mx" "effective_unit_price D ci b = Some eci" "eci \<le> mx"
    "effective_unit_price D cw b = Some ecw" "ecw \<le> mx" "effective_unit_price D out b = Some eo" "eo \<le> mx"
    by auto
  with m(1) a(1) b(1) pr show ?thesis
    by (simp add: request_price_def Let_def)
qed

lemma int_decimal_mono:
  assumes "0 \<le> a" "a \<le> a'" "0 \<le> b" "b \<le> b'" "d_checked_mul int_decimal a' b' = Some p'"
  shows "\<exists>p. d_checked_mul int_decimal a b = Some p \<and> 0 \<le> p \<and> p \<le> p'"
proof -
  from assms have le: "a * b \<le> a' * b'" by (intro mult_mono) simp_all
  from assms have nn: "0 \<le> a * b" by simp
  from assms(5) have p': "p' = a' * b'" and bound: "b' = 1 \<or> \<bar>a' * b'\<bar> < 10 ^ 28"
    by (auto simp: int_decimal_def split: if_splits)
  have "b = 0 \<or> b = 1 \<or> \<bar>a * b\<bar> < 10 ^ 28"
    using bound assms(3,4) le nn by linarith
  with le nn p' show ?thesis by (auto simp: int_decimal_def)
qed

lemma int_decimal_laws: "decimal_laws int_decimal"
  unfolding decimal_laws_def
proof (intro conjI allI impI)
  have zero: "d_zero int_decimal = 0" by (simp add: int_decimal_def)
  fix a a' b b' p'
  assume "d_zero int_decimal \<le> a \<and> a \<le> a' \<and> d_zero int_decimal \<le> b \<and> b \<le> b' \<and>
    d_checked_mul int_decimal a' b' = Some p'"
  then have "\<exists>p. d_checked_mul int_decimal a b = Some p \<and> 0 \<le> p \<and> p \<le> p'"
    by (intro int_decimal_mono [of a a' b b' p']) (simp_all add: zero)
  then show "\<exists>p. d_checked_mul int_decimal a b = Some p \<and> d_zero int_decimal \<le> p \<and> p \<le> p'"
    by (simp add: zero)
qed (simp_all add: int_decimal_def)

theorem validated_prices_never_overflow_witness:
  "\<exists>m price. request_billing_multiplier_for_value int_decimal string_json sample_compiled ''fast'' = Some m \<and>
     request_price int_decimal
       \<lparr>mp_currency = ''USD'', mp_price_unit_tokens = 1000000, mp_price_effective_at = 0,
        mp_input_unit_price = 1, mp_cached_input_unit_price = 1, mp_cache_write_unit_price = 1,
        mp_output_unit_price = 4\<rparr> sample_compiled
       \<lparr>bf_started_weekday = 0, bf_started_hour = 0, bf_started_minute = 0,
        bf_channel_multiplier = 1, bf_request_multiplier = m\<rparr>
       (Some \<lparr>ru_input_tokens = 200, ru_cached_input_tokens = 0, ru_cache_write_tokens = 0,
              ru_output_tokens = 10, ru_reasoning_tokens = 0\<rparr>) = Some price \<and>
     rp_output_unit_price price \<le> 1000"
proof -
  let ?snap = "\<lparr>mp_currency = ''USD'', mp_price_unit_tokens = 1000000, mp_price_effective_at = 0,
        mp_input_unit_price = 1, mp_cached_input_unit_price = 1, mp_cache_write_unit_price = 1,
        mp_output_unit_price = 4\<rparr> :: int model_price_snapshot"
  have "validate_effective_channel_prices int_decimal 1000 sample_compiled ?snap 1 = Inr ()"
    by (simp add: validate_effective_channel_prices_def maximum_effective_billing_multiplier_def
        sample_compiled_def sample_billing_def int_decimal_def price_candidates_def)
  from validated_prices_never_overflow [OF int_decimal_laws compile_sample this, of "''fast''" 0 0 0
      "Some \<lparr>ru_input_tokens = 200, ru_cached_input_tokens = 0, ru_cache_write_tokens = 0,
              ru_output_tokens = 10, ru_reasoning_tokens = 0\<rparr>"]
  show ?thesis by (simp add: int_decimal_def) blast
qed

end
