(* ===== verification/Compiled_Routing.thy ===== *)
theory Compiled_Routing
  imports Billing "HOL-Library.List_Lexorder" "HOL-Library.Char_ord"
begin

text \<open>
  The immutable routing configuration of \<^verbatim>\<open>src/domain/compiled_routing.rs\<close>: API keys with
  their authorization profile, channels with their transport mask and connectivity fingerprint, candidates, route
  tiers, model rules, and the published runtime configuration.

  SHA-256 and the text and byte forms of a UUID come from third-party crates. They are the arguments
  \<open>sha\<close>, \<open>ub\<close> (16 bytes) and \<open>ufmt\<close> (36 characters) of the definitions that use
  them. Slots (\<^verbatim>\<open>usize\<close>) are natural numbers, instants are integers, and \<open>now\<close> is
  the value of \<^verbatim>\<open>Utc::now()\<close>. The upstream policy of a channel (proxy, template and transform
  plans) is not read by routing and is not part of \<open>compiled_channel\<close>.
\<close>

section \<open>Authorization profiles and API keys\<close>

datatype api_key_permission = Proxy | ModelsRead

record authorization_profile =
  ap_allowed_channel_slots :: "u64 list"
  ap_accessible_route_slots :: "u64 list"
  ap_fingerprint :: "u8 list"

definition string_bytes :: "string \<Rightarrow> u8 list" where
  "string_bytes s = map (\<lambda>c. of_nat (of_char c)) s"

definition routing_scope_preimage ::
  "(uuid \<Rightarrow> u8 list) \<Rightarrow> uuid set \<Rightarrow> uuid set \<Rightarrow> u8 list" where
  "routing_scope_preimage ub groups channels =
     string_bytes ''ai-gateway:routing-scope:v1'' @ [0] @
     concat (map ub (sorted_list_of_set groups)) @ [0] @
     concat (map ub (sorted_list_of_set channels))"

definition routing_scope_fingerprint ::
  "(u8 list \<Rightarrow> u8 list) \<Rightarrow> (uuid \<Rightarrow> u8 list) \<Rightarrow> uuid set \<Rightarrow> uuid set \<Rightarrow> u8 list" where
  "routing_scope_fingerprint sha ub groups channels = sha (routing_scope_preimage ub groups channels)"

definition bit_is_set :: "u64 list \<Rightarrow> nat \<Rightarrow> bool" where
  "bit_is_set ws slot \<longleftrightarrow>
     slot div 64 < length ws \<and> ws ! (slot div 64) AND push_bit (slot mod 64) 1 \<noteq> 0"

definition authorization_profile_new ::
  "(u8 list \<Rightarrow> u8 list) \<Rightarrow> (uuid \<Rightarrow> u8 list) \<Rightarrow> uuid set \<Rightarrow> u64 list \<Rightarrow> u64 list \<Rightarrow> authorization_profile" where
  "authorization_profile_new sha ub channel_ids channel_slots route_slots =
     \<lparr>ap_allowed_channel_slots = channel_slots, ap_accessible_route_slots = route_slots,
      ap_fingerprint = routing_scope_fingerprint sha ub {} channel_ids\<rparr>"

record 'd compiled_api_key =
  ak_id :: uuid
  ak_user_id :: uuid
  ak_websocket_enabled :: bool
  ak_filter_fast_mode :: bool
  ak_allowed_api_formats :: "api_format set"
  ak_permissions :: "api_key_permission set"
  ak_authorization :: authorization_profile
  ak_expires_at :: "int option"
  ak_requests_per_minute :: "u32 option"
  ak_max_concurrent_requests :: "u32 option"
  ak_quota_limit_amount :: "'d option"
  ak_quota_used_amount :: 'd

definition is_expired :: "int \<Rightarrow> 'd compiled_api_key \<Rightarrow> bool" where
  "is_expired now k = (case ak_expires_at k of None \<Rightarrow> False | Some e \<Rightarrow> e \<le> now)"

definition key_permits :: "int \<Rightarrow> 'd compiled_api_key \<Rightarrow> api_format \<Rightarrow> api_key_permission \<Rightarrow> bool" where
  "key_permits now k fmt perm \<longleftrightarrow>
     fmt \<in> ak_allowed_api_formats k \<and> perm \<in> ak_permissions k \<and> \<not> is_expired now k"

definition permits_route_candidate :: "'d compiled_api_key \<Rightarrow> nat \<Rightarrow> bool" where
  "permits_route_candidate k slot = bit_is_set (ap_allowed_channel_slots (ak_authorization k)) slot"

definition permits_route :: "'d compiled_api_key \<Rightarrow> nat \<Rightarrow> bool" where
  "permits_route k slot = bit_is_set (ap_accessible_route_slots (ak_authorization k)) slot"

definition quota_exhausted_at :: "('d::linorder) compiled_api_key \<Rightarrow> 'd \<Rightarrow> bool" where
  "quota_exhausted_at k used = (case ak_quota_limit_amount k of None \<Rightarrow> False | Some l \<Rightarrow> l \<le> used)"

definition quota_exhausted :: "('d::linorder) compiled_api_key \<Rightarrow> bool" where
  "quota_exhausted k = quota_exhausted_at k (ak_quota_used_amount k)"

section \<open>Channels\<close>

fun transport_bit :: "capability_transport \<Rightarrow> u8" where
  "transport_bit HttpJson = 1"
| "transport_bit HttpSse = 2"
| "transport_bit Websocket = 4"
| "transport_bit Multipart = 8"

record channel_identity =
  ci_logical_channel_id :: uuid
  ci_access_id :: uuid
  ci_api_operation :: api_operation
  ci_credential_id :: "uuid option"
  ci_credential_revision :: "uuid option"
  ci_binding_revision :: uuid
  ci_access_revision :: uuid
  ci_capability_revision :: uuid

record 'd compiled_channel =
  ch_id :: uuid
  ch_group_id :: uuid
  ch_api_format :: api_format
  ch_logical_channel_id :: uuid
  ch_access_id :: uuid
  ch_api_operation :: api_operation
  ch_credential_id :: "uuid option"
  ch_connector_kind :: connector_kind
  ch_request_compression :: request_compression
  ch_base_url :: string
  ch_connectivity_fingerprint :: string
  ch_access_revision :: uuid
  ch_capability_revision :: uuid
  ch_supports_websocket :: bool
  ch_supports_standalone_web_search :: bool
  ch_transport_mask :: u8
  ch_strict_transport_contract :: bool
  ch_billing_multiplier :: 'd
  ch_outbound_network_policy_fingerprint :: "u8 list"
  ch_upstream_auth :: upstream_auth
  ch_available_models :: "string set"
  ch_auto_disable_allowed :: bool
  ch_auto_disabled :: bool
  ch_test_model :: "string option"

definition transports_mask :: "capability_transport list \<Rightarrow> u8" where
  "transports_mask ts = fold (\<lambda>t m. m OR transport_bit t) ts 0"

definition permits_transport :: "'d compiled_channel \<Rightarrow> capability_transport \<Rightarrow> bool" where
  "permits_transport c t \<longleftrightarrow> ch_transport_mask c AND transport_bit t \<noteq> 0"

text \<open>The decimal text of a natural number, as \<^verbatim>\<open>format!\<close> prints it.\<close>

fun nat_decimal :: "nat \<Rightarrow> string" where
  "nat_decimal n =
     (if n < 10 then [char_of (48 + n)] else nat_decimal (n div 10) @ [char_of (48 + n mod 10)])"

declare nat_decimal.simps [simp del]

definition with_transports :: "'d compiled_channel \<Rightarrow> capability_transport list \<Rightarrow> 'd compiled_channel" where
  "with_transports c0 ts =
     (let c = (if ts = [] then c0
               else (let c1 = c0\<lparr>ch_transport_mask := transports_mask ts\<rparr>
                     in c1\<lparr>ch_supports_websocket := permits_transport c1 Websocket\<rparr>))
      in c\<lparr>ch_connectivity_fingerprint :=
             ch_connectivity_fingerprint c @ ''#transport='' @ nat_decimal (unat (ch_transport_mask c))\<rparr>)"

definition restrict_transports :: "'d compiled_channel \<Rightarrow> capability_transport list \<Rightarrow> 'd compiled_channel" where
  "restrict_transports c0 ts =
     (let c1 = c0\<lparr>ch_strict_transport_contract := True,
                  ch_transport_mask := ch_transport_mask c0 AND transports_mask ts\<rparr>;
          c2 = c1\<lparr>ch_supports_websocket := permits_transport c1 Websocket\<rparr>
      in c2\<lparr>ch_connectivity_fingerprint :=
              ch_connectivity_fingerprint c2 @ ''#restricted-transport='' @
              nat_decimal (unat (ch_transport_mask c2))\<rparr>)"

definition unwrap_or_nil :: "uuid option \<Rightarrow> uuid" where
  "unwrap_or_nil u = (case u of None \<Rightarrow> 0 | Some x \<Rightarrow> x)"

definition identity_fingerprint :: "(uuid \<Rightarrow> string) \<Rightarrow> string \<Rightarrow> channel_identity \<Rightarrow> string" where
  "identity_fingerprint ufmt base i =
     base @ ''#'' @ ufmt (ci_logical_channel_id i) @ ''/'' @ operation_as_str (ci_api_operation i) @
     ''#'' @ ufmt (ci_binding_revision i) @ ''/'' @ ufmt (ci_access_revision i) @
     ''#'' @ ufmt (ci_access_id i) @ ''/'' @ ufmt (ci_capability_revision i) @
     ''#'' @ ufmt (unwrap_or_nil (ci_credential_id i)) @ ''/'' @
     ufmt (unwrap_or_nil (ci_credential_revision i))"

definition with_channel_identity ::
  "(uuid \<Rightarrow> string) \<Rightarrow> 'd compiled_channel \<Rightarrow> channel_identity \<Rightarrow> 'd compiled_channel" where
  "with_channel_identity ufmt c0 i =
     (let c = c0\<lparr>ch_logical_channel_id := ci_logical_channel_id i, ch_access_id := ci_access_id i,
                 ch_api_operation := ci_api_operation i, ch_credential_id := ci_credential_id i,
                 ch_access_revision := ci_access_revision i,
                 ch_capability_revision := ci_capability_revision i\<rparr>
      in if ci_credential_id i \<noteq> None \<or> ci_binding_revision i \<noteq> 0 \<or>
            ci_access_revision i \<noteq> 0 \<or> ci_capability_revision i \<noteq> 0
         then c\<lparr>ch_connectivity_fingerprint := identity_fingerprint ufmt (ch_base_url c) i\<rparr>
         else c)"

definition constructor_mask :: "api_format \<Rightarrow> connector_kind \<Rightarrow> bool \<Rightarrow> u8" where
  "constructor_mask fmt connector websocket =
     (let m = (case fmt of
                 OpenAiChatCompletions \<Rightarrow> transport_bit HttpJson OR transport_bit HttpSse
               | OpenAiResponses \<Rightarrow>
                   transport_bit HttpSse OR (if connector = CodexOauth then 0 else transport_bit HttpJson)
               | OpenAiImages \<Rightarrow> transport_bit HttpJson OR transport_bit Multipart)
      in if websocket then m OR transport_bit Websocket else m)"

definition channel_new ::
  "uuid \<Rightarrow> uuid \<Rightarrow> api_format \<Rightarrow> connector_kind \<Rightarrow> request_compression \<Rightarrow> string \<Rightarrow> 'd \<Rightarrow>
   u8 list \<Rightarrow> upstream_auth \<Rightarrow> string set \<Rightarrow> bool \<Rightarrow> bool \<Rightarrow> bool \<Rightarrow> bool \<Rightarrow> string option \<Rightarrow> 'd compiled_channel" where
  "channel_new cid gid fmt connector compression base mult policy_fp auth models websocket web_search
     disable_allowed disabled test =
     \<lparr>ch_id = cid, ch_group_id = gid, ch_api_format = fmt, ch_logical_channel_id = cid,
      ch_access_id = 0, ch_api_operation = legacy_default fmt, ch_credential_id = None,
      ch_connector_kind = connector, ch_request_compression = compression, ch_base_url = base,
      ch_connectivity_fingerprint = base, ch_access_revision = 0, ch_capability_revision = 0,
      ch_supports_websocket = websocket, ch_supports_standalone_web_search = web_search,
      ch_transport_mask = constructor_mask fmt connector websocket,
      ch_strict_transport_contract = False, ch_billing_multiplier = mult,
      ch_outbound_network_policy_fingerprint = policy_fp, ch_upstream_auth = auth,
      ch_available_models = models, ch_auto_disable_allowed = disable_allowed,
      ch_auto_disabled = disabled, ch_test_model = test\<rparr>"

definition supports_model :: "'d compiled_channel \<Rightarrow> string \<Rightarrow> bool" where
  "supports_model c m \<longleftrightarrow> m \<in> ch_available_models c"

section \<open>Candidates, tiers and rules\<close>

datatype selection_strategy = WeightedRandom | WeightedRoundRobin

definition strategy_parse :: "string \<Rightarrow> selection_strategy option" where
  "strategy_parse v =
     (if v = ''weighted_random'' then Some WeightedRandom
      else if v = ''weighted_round_robin'' then Some WeightedRoundRobin else None)"

record compiled_channel_group =
  cg_id :: uuid
  cg_api_format :: "api_format option"
  cg_connector_kind :: "connector_kind option"

record 'd compiled_candidate =
  cc_candidate_slot :: nat
  cc_channel_slot :: nat
  cc_channel :: "'d compiled_channel"
  cc_upstream_model :: string
  cc_weight :: u32

text \<open>\<^verbatim>\<open>CompiledCandidate::new\<close> panics on a negative weight.\<close>

definition candidate_new ::
  "nat \<Rightarrow> nat \<Rightarrow> 'd compiled_channel \<Rightarrow> string \<Rightarrow> int \<Rightarrow> 'd compiled_candidate option" where
  "candidate_new cslot chslot c model w =
     (if w < 0 then None
      else Some \<lparr>cc_candidate_slot = cslot, cc_channel_slot = chslot, cc_channel = c,
                 cc_upstream_model = model, cc_weight = of_int w\<rparr>)"

record 'd compiled_route_tier =
  rt_priority :: "32 word"
  rt_strategy :: selection_strategy
  rt_fingerprint :: "u8 list"
  rt_channel_ids :: "uuid list"
  rt_candidates :: "'d compiled_candidate list"

definition candidate_bytes :: "(uuid \<Rightarrow> u8 list) \<Rightarrow> 'd compiled_candidate \<Rightarrow> u8 list" where
  "candidate_bytes ub c =
     ub (ch_id (cc_channel c)) @ string_bytes (cc_upstream_model c) @ [0] @ to_le_bytes 4 (cc_weight c)"

definition strategy_byte :: "selection_strategy \<Rightarrow> u8" where
  "strategy_byte s = (case s of WeightedRandom \<Rightarrow> 0 | WeightedRoundRobin \<Rightarrow> 1)"

definition tier_preimage ::
  "(uuid \<Rightarrow> u8 list) \<Rightarrow> 32 word \<Rightarrow> selection_strategy \<Rightarrow> 'd compiled_candidate list \<Rightarrow> u8 list" where
  "tier_preimage ub priority strategy cs =
     string_bytes ''ai-gateway:route-tier:v1'' @ [0] @ to_le_bytes 4 priority @
     [strategy_byte strategy] @
     concat (map (candidate_bytes ub) cs)"

definition tier_new ::
  "(u8 list \<Rightarrow> u8 list) \<Rightarrow> (uuid \<Rightarrow> u8 list) \<Rightarrow> 32 word \<Rightarrow> selection_strategy \<Rightarrow>
   'd compiled_candidate list \<Rightarrow> 'd compiled_route_tier" where
  "tier_new sha ub priority strategy cs =
     \<lparr>rt_priority = priority, rt_strategy = strategy,
      rt_fingerprint = sha (tier_preimage ub priority strategy cs),
      rt_channel_ids = map (\<lambda>c. ch_id (cc_channel c)) cs, rt_candidates = cs\<rparr>"

record unavailable_route_candidate =
  uc_channel_id :: uuid
  uc_group_id :: uuid

record ('d, 'j) compiled_model_rule =
  mr_route_slot :: nat
  mr_id :: uuid
  mr_model_id :: uuid
  mr_client_model :: string
  mr_api_operation :: api_operation
  mr_price_snapshot :: "'d model_price_snapshot"
  mr_advanced_billing :: "('d, 'j) compiled_advanced_billing"
  mr_tiers :: "'d compiled_route_tier list"
  mr_unavailable_candidates :: "unavailable_route_candidate list"
  mr_target_candidates :: "u64 list"
  mr_model_capable_candidates :: "u64 list"
  mr_target_candidate_count :: nat
  mr_model_capable_candidate_count :: nat

record ('d, 'j) scheduled_test_model =
  st_id :: uuid
  st_price_snapshot :: "'d model_price_snapshot"
  st_advanced_billing :: "('d, 'j) compiled_advanced_billing"

definition words_intersect :: "u64 list \<Rightarrow> u64 list \<Rightarrow> bool" where
  "words_intersect xs ys = list_ex (\<lambda>(x, y). x AND y \<noteq> 0) (zip xs ys)"

definition authorization_candidates_intersect :: "('d, 'j) compiled_model_rule \<Rightarrow> u64 list \<Rightarrow> bool" where
  "authorization_candidates_intersect r allowed =
     words_intersect
       (if list_ex (\<lambda>w. w \<noteq> 0) (mr_model_capable_candidates r)
        then mr_model_capable_candidates r else mr_target_candidates r) allowed"

definition model_capable_candidates_intersect :: "('d, 'j) compiled_model_rule \<Rightarrow> u64 list \<Rightarrow> bool" where
  "model_capable_candidates_intersect r allowed = words_intersect (mr_model_capable_candidates r) allowed"

definition permits_model_capable_route :: "'d compiled_api_key \<Rightarrow> ('d, 'j) compiled_model_rule \<Rightarrow> bool" where
  "permits_model_capable_route k r =
     model_capable_candidates_intersect r (ap_allowed_channel_slots (ak_authorization k))"

definition rule_api_format :: "('d, 'j) compiled_model_rule \<Rightarrow> api_format" where
  "rule_api_format r = operation_format (mr_api_operation r)"

definition active_candidate_count :: "('d, 'j) compiled_model_rule \<Rightarrow> nat" where
  "active_candidate_count r = sum_list (map (\<lambda>t. length (rt_candidates t)) (mr_tiers r))"

section \<open>Route tables and the runtime configuration\<close>

type_synonym route_key = "api_operation \<times> string"
type_synonym ('d, 'j) model_routes = "(api_operation, (string, ('d, 'j) compiled_model_rule) hmap) hmap"

definition routes_insert ::
  "route_key \<times> ('d, 'j) compiled_model_rule \<Rightarrow> ('d, 'j) model_routes \<Rightarrow> ('d, 'j) model_routes" where
  "routes_insert e m = (case e of ((op, model), rule) \<Rightarrow>
     hm_insert op
       (hm_insert model rule (case hm_get m op of None \<Rightarrow> [] | Some inner \<Rightarrow> inner)) m)"

definition from_flat :: "(route_key, ('d, 'j) compiled_model_rule) hmap \<Rightarrow> ('d, 'j) model_routes" where
  "from_flat routes = fold routes_insert routes []"

definition routes_get ::
  "('d, 'j) model_routes \<Rightarrow> api_operation \<Rightarrow> string \<Rightarrow> ('d, 'j) compiled_model_rule option" where
  "routes_get m op model = Option.bind (hm_get m op) (\<lambda>inner. hm_get inner model)"

definition routes_values :: "('d, 'j) model_routes \<Rightarrow> ('d, 'j) compiled_model_rule list" where
  "routes_values m = concat (map (\<lambda>(_, inner). map snd inner) m)"

record ('d, 'j) compiled_runtime_config =
  rc_api_keys :: "(u8 list, 'd compiled_api_key) hmap"
  rc_model_rules :: "('d, 'j) model_routes"
  rc_channels :: "(uuid, 'd compiled_channel) hmap"
  rc_probe_channels :: "(uuid, 'd compiled_channel) hmap"
  rc_scheduled_test_models :: "(uuid, ('d, 'j) scheduled_test_model) hmap"
  rc_groups :: "(uuid, compiled_channel_group) hmap"

definition runtime_config_new ::
  "(u8 list, 'd compiled_api_key) hmap \<Rightarrow> (route_key, ('d, 'j) compiled_model_rule) hmap \<Rightarrow>
   (uuid, 'd compiled_channel) hmap \<Rightarrow> (uuid, 'd compiled_channel) hmap \<Rightarrow>
   (uuid, ('d, 'j) scheduled_test_model) hmap \<Rightarrow> (uuid, compiled_channel_group) hmap \<Rightarrow>
   ('d, 'j) compiled_runtime_config" where
  "runtime_config_new keys rules channels probes tests groups =
     \<lparr>rc_api_keys = keys, rc_model_rules = from_flat rules, rc_channels = channels,
      rc_probe_channels = probes, rc_scheduled_test_models = tests, rc_groups = groups\<rparr>"

definition from_secret :: "(u8 list \<Rightarrow> u8 list) \<Rightarrow> string \<Rightarrow> u8 list" where
  "from_secret sha secret = sha (string_bytes secret)"

definition authenticate ::
  "(u8 list \<Rightarrow> u8 list) \<Rightarrow> int \<Rightarrow> ('d, 'j) compiled_runtime_config \<Rightarrow> string \<Rightarrow> 'd compiled_api_key option" where
  "authenticate sha now cfg secret =
     (case hm_get (rc_api_keys cfg) (from_secret sha secret) of
        None \<Rightarrow> None
      | Some k \<Rightarrow> if \<not> is_expired now k then Some k else None)"

definition operation_rule ::
  "('d, 'j) compiled_runtime_config \<Rightarrow> api_operation \<Rightarrow> string \<Rightarrow> ('d, 'j) compiled_model_rule option" where
  "operation_rule cfg op model = routes_get (rc_model_rules cfg) op model"

definition model_rule ::
  "('d, 'j) compiled_runtime_config \<Rightarrow> api_format \<Rightarrow> string \<Rightarrow> ('d, 'j) compiled_model_rule option" where
  "model_rule cfg fmt model = operation_rule cfg (legacy_default fmt) model"

definition models_for ::
  "int \<Rightarrow> ('d, 'j) compiled_runtime_config \<Rightarrow> 'd compiled_api_key \<Rightarrow> api_format \<Rightarrow> string list" where
  "models_for now cfg k fmt =
     (if \<not> key_permits now k fmt Proxy \<or> \<not> key_permits now k fmt ModelsRead then []
      else remdups_adj (sort (map mr_client_model
             (filter (\<lambda>r. rule_api_format r = fmt \<and> permits_route k (mr_route_slot r) \<and>
                          permits_model_capable_route k r)
                (routes_values (rc_model_rules cfg))))))"

section \<open>Slot sets and transport masks\<close>

lemma bit_is_set_iff:
  "bit_is_set ws slot \<longleftrightarrow> slot div 64 < length ws \<and> bit (ws ! (slot div 64)) (slot mod 64)"
  by (simp add: bit_is_set_def bit_iff_and_push_bit_not_eq_0)

lemma word_and_nonzero_iff:
  "x AND y \<noteq> 0 \<longleftrightarrow> (\<exists>n < LENGTH('a). bit x n \<and> bit y n)" for x y :: "'a::len word"
proof
  assume "x AND y \<noteq> 0"
  then obtain n where "bit (x AND y) n"
    by (auto simp: bit_eq_iff)
  then show "\<exists>n < LENGTH('a). bit x n \<and> bit y n"
    by (auto simp: bit_and_iff dest: bit_imp_le_length)
next
  assume "\<exists>n < LENGTH('a). bit x n \<and> bit y n"
  then show "x AND y \<noteq> 0"
    by (auto simp: bit_eq_iff bit_and_iff)
qed

lemma words_intersect_iff:
  "words_intersect xs ys \<longleftrightarrow> (\<exists>slot. bit_is_set xs slot \<and> bit_is_set ys slot)"
proof
  assume "words_intersect xs ys"
  then obtain i where i: "i < length xs" "i < length ys" "xs ! i AND ys ! i \<noteq> 0"
    by (auto simp: words_intersect_def list_ex_iff in_set_zip)
  from i(3) obtain n where "n < 64" "bit (xs ! i) n" "bit (ys ! i) n"
    unfolding word_and_nonzero_iff by auto
  with i(1,2) have "bit_is_set xs (64 * i + n) \<and> bit_is_set ys (64 * i + n)"
    by (simp add: bit_is_set_iff)
  then show "\<exists>slot. bit_is_set xs slot \<and> bit_is_set ys slot" ..
next
  assume "\<exists>slot. bit_is_set xs slot \<and> bit_is_set ys slot"
  then obtain slot where s: "slot div 64 < length xs" "bit (xs ! (slot div 64)) (slot mod 64)"
    "slot div 64 < length ys" "bit (ys ! (slot div 64)) (slot mod 64)"
    by (auto simp: bit_is_set_iff)
  then have "xs ! (slot div 64) AND ys ! (slot div 64) \<noteq> 0"
    unfolding word_and_nonzero_iff by (intro exI [of _ "slot mod 64"]) simp
  moreover have "(xs ! (slot div 64), ys ! (slot div 64)) \<in> set (zip xs ys)"
    using s(1,3) by (auto simp: in_set_zip)
  ultimately show "words_intersect xs ys"
    by (auto simp: words_intersect_def list_ex_iff)
qed

fun transport_index :: "capability_transport \<Rightarrow> nat" where
  "transport_index HttpJson = 0"
| "transport_index HttpSse = 1"
| "transport_index Websocket = 2"
| "transport_index Multipart = 3"

lemma transport_bit_index: "transport_bit t = push_bit (transport_index t) 1"
  by (cases t) (simp_all add: push_bit_eq_mult)

lemma transport_index_inj: "transport_index a = transport_index b \<longleftrightarrow> a = b"
  by (cases a; cases b) simp_all

lemma bit_transport_bit: "bit (transport_bit t) (transport_index u) \<longleftrightarrow> t = u"
  by (cases t; cases u) (simp_all add: bit_numeral_rec bit_1_iff)

lemma permits_transport_iff: "permits_transport c t \<longleftrightarrow> bit (ch_transport_mask c) (transport_index t)"
  by (simp add: permits_transport_def transport_bit_index bit_iff_and_push_bit_not_eq_0)

lemma bit_fold_transports:
  "bit (fold (\<lambda>t m. m OR transport_bit t) ts m0) (transport_index t) \<longleftrightarrow>
   bit m0 (transport_index t) \<or> t \<in> set ts"
  by (induction ts arbitrary: m0) (auto simp: bit_or_iff bit_transport_bit)

lemma bit_transports_mask: "bit (transports_mask ts) (transport_index t) \<longleftrightarrow> t \<in> set ts"
  by (simp add: transports_mask_def bit_fold_transports)

text \<open>The transport mask of a channel is the set of transports it was given: a declared list replaces
  the defaults, a restriction intersects with it and never adds a transport, and the WebSocket
  flag agrees with the mask after either operation.\<close>

theorem transport_mask_is_set:
  "(ts \<noteq> [] \<longrightarrow> {t. permits_transport (with_transports c ts) t} = set ts) \<and>
   {t. permits_transport (restrict_transports c ts) t} = {t. permits_transport c t} \<inter> set ts \<and>
   (ts \<noteq> [] \<longrightarrow> ch_supports_websocket (with_transports c ts) = (Websocket \<in> set ts)) \<and>
   ch_supports_websocket (restrict_transports c ts) =
     permits_transport (restrict_transports c ts) Websocket"
  by (auto simp: with_transports_def restrict_transports_def permits_transport_iff Let_def
      bit_transports_mask bit_and_iff simp del: transport_index.simps)

theorem transport_mask_is_set_witness:
  "{t. permits_transport (with_transports
      (channel_new 1 2 OpenAiImages OpenAiCompatible DefaultCompression ''https://u'' (1::nat) [] NoAuth {} False False
        False False None) [HttpJson, Websocket]) t} = {HttpJson, Websocket}"
  using transport_mask_is_set [of "[HttpJson, Websocket]"
      "channel_new 1 2 OpenAiImages OpenAiCompatible DefaultCompression ''https://u'' (1::nat) [] NoAuth {} False False
        False False None"]
  by simp

section \<open>Route lookup\<close>

lemma routes_get_insert:
  "routes_get (routes_insert ((op, model), rule) m) op' model' =
     (if op' = op \<and> model' = model then Some rule else routes_get m op' model')"
  by (auto simp: routes_get_def routes_insert_def hm_get_simps split: option.splits)

lemma routes_get_fold:
  "hm_wf routes \<Longrightarrow>
   routes_get (fold routes_insert routes m) op model =
     (case hm_get routes (op, model) of None \<Rightarrow> routes_get m op model | Some r \<Rightarrow> Some r)"
proof (induction routes arbitrary: m)
  case (Cons e routes)
  obtain op' model' rule where e: "e = ((op', model'), rule)" by (metis prod.exhaust)
  from Cons.prems e have "hm_wf routes" and "hm_get routes (op', model') = None"
    by (auto simp: hm_wf_def hm_get_def map_of_eq_None_iff)
  with Cons.IH [of "routes_insert e m"] show ?case
    by (auto simp: e routes_get_insert hm_get_def split: option.splits)
qed simp

text \<open>C32. Route lookup is exact: in a published configuration an operation and a client model
  find precisely the rule compiled for that pair, and a pair with no rule finds none, whatever
  rules its sibling operations of the same format have.\<close>

theorem operation_rule_exact:
  assumes "hm_wf rules"
  shows "operation_rule (runtime_config_new keys rules channels probes tests groups) op model =
    hm_get rules (op, model)"
  using routes_get_fold [OF assms, of "[]"]
  by (simp add: operation_rule_def runtime_config_new_def from_flat_def routes_get_def split: option.splits)

definition routes_wf :: "('d, 'j) model_routes \<Rightarrow> bool" where
  "routes_wf m \<longleftrightarrow> hm_wf m \<and> (\<forall>(op, inner) \<in> set m. hm_wf inner)"

lemma routes_wf_insert: "routes_wf m \<Longrightarrow> routes_wf (routes_insert e m)"
  unfolding routes_wf_def
proof (intro conjI ballI)
  assume wf: "hm_wf m \<and> (\<forall>(op, inner) \<in> set m. hm_wf inner)"
  obtain op model rule where e: "e = ((op, model), rule)" by (metis prod.exhaust)
  show m': "hm_wf (routes_insert e m)" using wf by (simp add: e routes_insert_def gw_wf)
  fix x assume x: "x \<in> set (routes_insert e m)"
  obtain o' inner where oi: "x = (o', inner)" by fastforce
  with x m' have "hm_get (routes_insert e m) o' = Some inner" by (simp add: hm_get_Some_iff)
  with wf have "hm_wf inner"
    by (auto simp: e routes_insert_def hm_get_simps gw_wf split: if_splits option.splits
        dest!: hm_get_SomeD intro!: hm_wf_insert)
  with oi show "case x of (op, inner) \<Rightarrow> hm_wf inner" by simp
qed

lemma routes_wf_fold: "routes_wf m \<Longrightarrow> routes_wf (fold routes_insert es m)"
  by (induction es arbitrary: m) (simp_all add: routes_wf_insert)

lemma set_routes_values:
  assumes "routes_wf m"
  shows "r \<in> set (routes_values m) \<longleftrightarrow> (\<exists>op model. routes_get m op model = Some r)"
proof
  assume "r \<in> set (routes_values m)"
  then obtain op inner model where "(op, inner) \<in> set m" "(model, r) \<in> set inner"
    by (auto simp: routes_values_def)
  with assms have "hm_get m op = Some inner" "hm_get inner model = Some r"
    by (auto simp: routes_wf_def hm_get_Some_iff)
  then have "routes_get m op model = Some r" by (simp add: routes_get_def)
  then show "\<exists>op model. routes_get m op model = Some r" by blast
next
  assume "\<exists>op model. routes_get m op model = Some r"
  then show "r \<in> set (routes_values m)"
    by (force simp: routes_get_def routes_values_def Option.bind_eq_Some_conv dest!: hm_get_SomeD)
qed

lemma routes_values_from_flat:
  assumes "hm_wf rules"
  shows "r \<in> set (routes_values (from_flat rules)) \<longleftrightarrow> (\<exists>k. (k, r) \<in> set rules)"
proof -
  have "routes_wf (from_flat rules)"
    unfolding from_flat_def by (rule routes_wf_fold) (simp add: routes_wf_def)
  moreover have "routes_get (from_flat rules) op model = hm_get rules (op, model)" for op model
    using routes_get_fold [OF assms, of "[]" op model]
    by (simp add: from_flat_def routes_get_def split: option.splits)
  ultimately show ?thesis
    using assms by (auto simp: set_routes_values hm_get_Some_iff)
qed

lemma sorted_remdups_adj_distinct: "sorted xs \<Longrightarrow> distinct (remdups_adj xs)" for xs :: "'a::linorder list"
  by (induction xs rule: remdups_adj.induct) auto

text \<open>C31. The model list of a key is the sorted, duplicate-free list of exactly those client
  models that have a rule of the requested format whose route the key may use and one of whose
  model-capable candidates lies in the key's channel set; a key that is expired, or lacks one of
  the two permissions or the format, gets the empty list.\<close>

theorem models_for_spec:
  assumes "hm_wf rules"
    and "cfg = runtime_config_new keys rules channels probes tests groups"
  shows "sorted (models_for now cfg k fmt) \<and> distinct (models_for now cfg k fmt) \<and>
    set (models_for now cfg k fmt) =
      (if key_permits now k fmt Proxy \<and> key_permits now k fmt ModelsRead
       then {mr_client_model r | r op model. ((op, model), r) \<in> set rules \<and>
               operation_format (mr_api_operation r) = fmt \<and> permits_route k (mr_route_slot r) \<and>
               (\<exists>slot. bit_is_set (mr_model_capable_candidates r) slot \<and> permits_route_candidate k slot)}
       else {})"
proof -
  have "sorted (remdups_adj (sort xs)) \<and> distinct (remdups_adj (sort xs))" for xs :: "string list"
    by (simp add: sorted_remdups_adj sorted_remdups_adj_distinct)
  moreover have "set (routes_values (rc_model_rules cfg)) = {r. \<exists>k. (k, r) \<in> set rules}"
    using routes_values_from_flat [OF assms(1)] by (auto simp: assms(2) runtime_config_new_def)
  ultimately show ?thesis
    by (auto simp: models_for_def rule_api_format_def permits_model_capable_route_def
        model_capable_candidates_intersect_def words_intersect_iff permits_route_candidate_def)
qed

section \<open>Fingerprints\<close>

lemma first_separator:
  "xs @ c # ys = xs' @ c # ys' \<Longrightarrow> c \<notin> set xs \<Longrightarrow> c \<notin> set xs' \<Longrightarrow> xs = xs' \<and> ys = ys'"
proof (induction xs arbitrary: xs')
  case Nil
  then show ?case by (cases xs') auto
next
  case (Cons x xs)
  then show ?case by (cases xs') auto
qed

lemma last_separator:
  assumes "xs @ c # ys = xs' @ c # ys'" and "c \<notin> set ys" and "c \<notin> set ys'"
  shows "xs = xs' \<and> ys = ys'"
proof -
  from assms(1) have "rev ys @ c # rev xs = rev ys' @ c # rev xs'"
    by (metis append.assoc append_Cons append_Nil rev.simps(2) rev_append)
  from first_separator [OF this] assms(2,3) show ?thesis by simp
qed

lemma operation_no_slash: "CHR ''/'' \<notin> set (operation_as_str op)"
  by (cases op) simp_all

lemma identity_fingerprint_inj:
  assumes len: "\<And>u. length (ufmt u) = 36" and inj: "inj ufmt"
    and eq: "identity_fingerprint ufmt b i = identity_fingerprint ufmt b' i'"
  shows "b = b' \<and> ci_logical_channel_id i = ci_logical_channel_id i' \<and>
    ci_api_operation i = ci_api_operation i' \<and> ci_binding_revision i = ci_binding_revision i' \<and>
    ci_access_revision i = ci_access_revision i' \<and> ci_access_id i = ci_access_id i' \<and>
    ci_capability_revision i = ci_capability_revision i' \<and>
    unwrap_or_nil (ci_credential_id i) = unwrap_or_nil (ci_credential_id i') \<and>
    unwrap_or_nil (ci_credential_revision i) = unwrap_or_nil (ci_credential_revision i')"
proof -
  define tl where "tl i = ''#'' @ ufmt (ci_binding_revision i) @ ''/'' @ ufmt (ci_access_revision i) @
     ''#'' @ ufmt (ci_access_id i) @ ''/'' @ ufmt (ci_capability_revision i) @
     ''#'' @ ufmt (unwrap_or_nil (ci_credential_id i)) @ ''/'' @
     ufmt (unwrap_or_nil (ci_credential_revision i))" for i :: channel_identity
  define hd' where "hd' b i = b @ ''#'' @ ufmt (ci_logical_channel_id i)" for b and i :: channel_identity
  have split: "identity_fingerprint ufmt b i =
      (hd' b i @ CHR ''/'' # operation_as_str (ci_api_operation i)) @ tl i" for b and i :: channel_identity
    by (simp add: identity_fingerprint_def tl_def hd'_def)
  have "length (tl i) = length (tl i')" by (simp add: tl_def len)
  with eq have front: "hd' b i @ CHR ''/'' # operation_as_str (ci_api_operation i) =
      hd' b' i' @ CHR ''/'' # operation_as_str (ci_api_operation i')" and rear: "tl i = tl i'"
    unfolding split by (simp_all only: append_eq_append_conv simp_thms)
  from last_separator [OF front operation_no_slash operation_no_slash]
  have hd: "hd' b i = hd' b' i'" and "ci_api_operation i = ci_api_operation i'"
    by (simp_all add: operation_as_str_inj)
  moreover from hd have "b = b' \<and> ci_logical_channel_id i = ci_logical_channel_id i'"
    by (simp add: hd'_def len append_eq_append_conv inj_eq [OF inj])
  ultimately show ?thesis
    using rear by (simp add: tl_def len append_eq_append_conv inj_eq [OF inj])
qed

definition identified :: "channel_identity \<Rightarrow> bool" where
  "identified i \<longleftrightarrow> ci_credential_id i \<noteq> None \<or> ci_binding_revision i \<noteq> 0 \<or>
     ci_access_revision i \<noteq> 0 \<or> ci_capability_revision i \<noteq> 0"

lemma identified_fingerprint:
  "identified i \<Longrightarrow> ch_connectivity_fingerprint (with_channel_identity ufmt c i) =
     identity_fingerprint ufmt (ch_base_url c) i"
  unfolding with_channel_identity_def identified_def Let_def by simp

lemma unidentified_fingerprint:
  "\<not> identified i \<Longrightarrow> ch_connectivity_fingerprint (with_channel_identity ufmt c i) = ch_connectivity_fingerprint c"
  unfolding with_channel_identity_def identified_def Let_def by simp

text \<open>C33. What a connectivity fingerprint separates. Among channels bound to an identity, that is with a credential or a
  revision that is not nil, two fingerprints are equal exactly when base URL, logical channel, operation, access,
  credential and all revisions are equal, where a missing credential or credential revision counts as the nil id; so
  rebinding such a channel or changing one of its revisions always changes the fingerprint. A channel with neither a
  credential nor a revision keeps the fingerprint it was constructed with. The text form of a UUID is assumed to have
  36 characters and to determine the UUID.\<close>

theorem connectivity_fingerprint_separates:
  assumes "\<And>u. length (ufmt u) = 36" and "inj ufmt"
  shows "(identified i \<and> identified i' \<longrightarrow>
      (ch_connectivity_fingerprint (with_channel_identity ufmt c i) =
         ch_connectivity_fingerprint (with_channel_identity ufmt c' i') \<longleftrightarrow>
       ch_base_url c = ch_base_url c' \<and> ci_logical_channel_id i = ci_logical_channel_id i' \<and>
       ci_api_operation i = ci_api_operation i' \<and> ci_binding_revision i = ci_binding_revision i' \<and>
       ci_access_revision i = ci_access_revision i' \<and> ci_access_id i = ci_access_id i' \<and>
       ci_capability_revision i = ci_capability_revision i' \<and>
       unwrap_or_nil (ci_credential_id i) = unwrap_or_nil (ci_credential_id i') \<and>
       unwrap_or_nil (ci_credential_revision i) = unwrap_or_nil (ci_credential_revision i'))) \<and>
    (\<not> identified i \<longrightarrow>
      ch_connectivity_fingerprint (with_channel_identity ufmt c i) = ch_connectivity_fingerprint c)"
proof -
  have "identity_fingerprint ufmt (ch_base_url c) i = identity_fingerprint ufmt (ch_base_url c') i' \<longleftrightarrow>
      ch_base_url c = ch_base_url c' \<and> ci_logical_channel_id i = ci_logical_channel_id i' \<and>
      ci_api_operation i = ci_api_operation i' \<and> ci_binding_revision i = ci_binding_revision i' \<and>
      ci_access_revision i = ci_access_revision i' \<and> ci_access_id i = ci_access_id i' \<and>
      ci_capability_revision i = ci_capability_revision i' \<and>
      unwrap_or_nil (ci_credential_id i) = unwrap_or_nil (ci_credential_id i') \<and>
      unwrap_or_nil (ci_credential_revision i) = unwrap_or_nil (ci_credential_revision i')" (is "?eq \<longleftrightarrow> ?same")
  proof
    show ?same if ?eq using that by (rule identity_fingerprint_inj [OF assms])
    show ?eq if ?same using that by (simp add: identity_fingerprint_def)
  qed
  then show ?thesis by (simp add: identified_fingerprint unidentified_fingerprint)
qed

lemma unat_of_char: "unat (of_nat (of_char c) :: u8) = of_char c"
  by (simp add: unat_of_nat)

lemma string_bytes_inj: "string_bytes a = string_bytes b \<longleftrightarrow> a = b"
proof -
  have "inj (\<lambda>c. of_nat (of_char c) :: u8)"
    by (rule injI) (metis unat_of_char of_char_eq_iff)
  then show ?thesis unfolding string_bytes_def by (rule inj_map_eq_map)
qed

lemma string_bytes_zero: "0 \<in> set (string_bytes s) \<longleftrightarrow> CHR 0x00 \<in> set s"
proof -
  have "(of_nat (of_char c) :: u8) = 0 \<longleftrightarrow> c = CHR 0x00" for c
  proof -
    have "(of_nat (of_char c) :: u8) = 0 \<longleftrightarrow> (of_char c :: nat) = 0"
      by (metis unat_of_char unat_0 unat_eq_zero)
    also have "\<dots> \<longleftrightarrow> (of_char c :: nat) = of_char (CHR 0x00)" by simp
    finally show ?thesis by (simp only: of_char_eq_iff)
  qed
  then show ?thesis by (force simp: string_bytes_def)
qed

definition candidate_key :: "'d compiled_candidate \<Rightarrow> uuid \<times> string \<times> u32" where
  "candidate_key c = (ch_id (cc_channel c), cc_upstream_model c, cc_weight c)"

lemma candidate_bytes_inj:
  assumes len: "\<And>u. length (ub u) = 16" and inj: "inj ub"
    and eq: "candidate_bytes ub c @ rest = candidate_bytes ub c' @ rest'"
    and nul: "CHR 0x00 \<notin> set (cc_upstream_model c)" "CHR 0x00 \<notin> set (cc_upstream_model c')"
  shows "candidate_key c = candidate_key c' \<and> rest = rest'"
proof -
  from eq have ch: "ch_id (cc_channel c) = ch_id (cc_channel c')"
    and tail: "string_bytes (cc_upstream_model c) @ 0 # (to_le_bytes 4 (cc_weight c) @ rest) =
      string_bytes (cc_upstream_model c') @ 0 # (to_le_bytes 4 (cc_weight c') @ rest')"
    by (simp_all add: candidate_bytes_def len append_eq_append_conv inj_eq [OF inj])
  from first_separator [OF tail] nul have "cc_upstream_model c = cc_upstream_model c'"
    and "to_le_bytes 4 (cc_weight c) @ rest = to_le_bytes 4 (cc_weight c') @ rest'"
    by (simp_all add: string_bytes_zero string_bytes_inj)
  with ch show ?thesis
    by (simp add: append_eq_append_conv to_le_bytes_inj candidate_key_def)
qed

lemma candidates_bytes_inj:
  assumes "\<And>u. length (ub u) = 16" and "inj ub"
  shows "concat (map (candidate_bytes ub) cs) = concat (map (candidate_bytes ub) cs') \<Longrightarrow>
    (\<forall>c \<in> set cs \<union> set cs'. CHR 0x00 \<notin> set (cc_upstream_model c)) \<Longrightarrow>
    map candidate_key cs = map candidate_key cs'"
proof (induction cs arbitrary: cs')
  case Nil
  then show ?case by (cases cs') (auto simp: candidate_bytes_def)
next
  case (Cons c cs)
  then obtain c' cs'' where cs': "cs' = c' # cs''"
    by (cases cs') (auto simp: candidate_bytes_def)
  with Cons.prems have "candidate_key c = candidate_key c' \<and>
      concat (map (candidate_bytes ub) cs) = concat (map (candidate_bytes ub) cs'')"
    by (intro candidate_bytes_inj [OF assms]) simp_all
  with Cons.IH [of cs''] Cons.prems(2) cs' show ?case by simp
qed

text \<open>The byte string hashed into a tier's fingerprint determines the tier: equal preimages mean
  equal priority, strategy, and the same sequence of channel ids, upstream models and weights,
  for model names without a NUL character. Rotation and affinity state keyed by a fingerprint is
  therefore shared only between tiers that select alike.\<close>

theorem tier_preimage_determines_tier:
  assumes "\<And>u. length (ub u) = 16" and "inj ub"
    and "\<forall>c \<in> set cs \<union> set cs'. CHR 0x00 \<notin> set (cc_upstream_model c)"
    and "tier_preimage ub p s cs = tier_preimage ub p' s' cs'"
  shows "p = p' \<and> s = s' \<and>
    map (\<lambda>c. (ch_id (cc_channel c), cc_upstream_model c, cc_weight c)) cs =
    map (\<lambda>c. (ch_id (cc_channel c), cc_upstream_model c, cc_weight c)) cs'"
proof -
  from assms(4) have "to_le_bytes 4 p = to_le_bytes 4 p'" and s: "strategy_byte s = strategy_byte s'"
    and "concat (map (candidate_bytes ub) cs) = concat (map (candidate_bytes ub) cs')"
    by (simp_all add: tier_preimage_def append_eq_append_conv)
  then have "p = p'" "map candidate_key cs = map candidate_key cs'"
    using candidates_bytes_inj [OF assms(1,2) _ assms(3)] by (simp_all add: to_le_bytes_inj)
  moreover have "s = s'" using s by (simp add: strategy_byte_def split: selection_strategy.splits)
  ultimately show ?thesis by (simp add: candidate_key_def [abs_def])
qed

section \<open>A concrete configuration\<close>

definition sample_channel :: "uuid \<Rightarrow> int compiled_channel" where
  "sample_channel i = channel_new i 2 OpenAiResponses OpenAiCompatible DefaultCompression
     ''https://u'' 1 [] NoAuth {''up''} False False False False None"

definition sample_candidate :: "nat \<Rightarrow> u32 \<Rightarrow> int compiled_candidate" where
  "sample_candidate slot w =
     \<lparr>cc_candidate_slot = slot, cc_channel_slot = slot, cc_channel = sample_channel (of_nat slot),
      cc_upstream_model = ''up'', cc_weight = w\<rparr>"

definition sample_rule :: "int compiled_route_tier list \<Rightarrow> (int, string) compiled_model_rule" where
  "sample_rule tiers =
     \<lparr>mr_route_slot = 0, mr_id = 7, mr_model_id = 8, mr_client_model = ''gpt'',
      mr_api_operation = Responses,
      mr_price_snapshot = \<lparr>mp_currency = ''USD'', mp_price_unit_tokens = 1000000, mp_price_effective_at = 0,
        mp_input_unit_price = 1, mp_cached_input_unit_price = 1, mp_cache_write_unit_price = 1,
        mp_output_unit_price = 4\<rparr>,
      mr_advanced_billing = sample_compiled, mr_tiers = tiers, mr_unavailable_candidates = [],
      mr_target_candidates = [7], mr_model_capable_candidates = [6],
      mr_target_candidate_count = 3, mr_model_capable_candidate_count = 2\<rparr>"

definition sample_key :: "int compiled_api_key" where
  "sample_key =
     \<lparr>ak_id = 1, ak_user_id = 2, ak_websocket_enabled = True, ak_filter_fast_mode = False,
      ak_allowed_api_formats = {OpenAiResponses}, ak_permissions = {Proxy, ModelsRead},
      ak_authorization = \<lparr>ap_allowed_channel_slots = [3], ap_accessible_route_slots = [1],
                          ap_fingerprint = []\<rparr>,
      ak_expires_at = Some 100, ak_requests_per_minute = Some 2, ak_max_concurrent_requests = Some 1,
      ak_quota_limit_amount = Some 10, ak_quota_used_amount = 4\<rparr>"

definition uuid_text :: "uuid \<Rightarrow> string" where
  "uuid_text u = (let h = word_hex 32 u in
     take 8 h @ ''-'' @ take 4 (drop 8 h) @ ''-'' @ take 4 (drop 12 h) @ ''-'' @
     take 4 (drop 16 h) @ ''-'' @ drop 20 h)"

lemma length_uuid_text: "length (uuid_text u) = 36"
  by (simp add: uuid_text_def Let_def)

lemma uuid_text_inj: "inj uuid_text"
proof (rule injI)
  fix u v assume eq: "uuid_text u = uuid_text v"
  define h where "h = word_hex 32 u"
  define k where "k = word_hex 32 v"
  have len: "length h = 32" "length k = 32" by (simp_all add: h_def k_def)
  have join: "x = take 8 x @ take 4 (drop 8 x) @ take 4 (drop 12 x) @ take 4 (drop 16 x) @ drop 20 x"
    for x :: string
  proof -
    have "drop n x = take 4 (drop n x) @ drop (4 + n) x" for n
      by (metis append_take_drop_id drop_drop)
    from this [of 8] this [of 12] this [of 16]
    have "drop 8 x = take 4 (drop 8 x) @ drop 12 x" "drop 12 x = take 4 (drop 12 x) @ drop 16 x"
      "drop 16 x = take 4 (drop 16 x) @ drop 20 x" by simp_all
    with append_take_drop_id [of 8 x] show ?thesis by metis
  qed
  from eq len have "take 8 h = take 8 k \<and> take 4 (drop 8 h) = take 4 (drop 8 k) \<and>
      take 4 (drop 12 h) = take 4 (drop 12 k) \<and> take 4 (drop 16 h) = take 4 (drop 16 k) \<and>
      drop 20 h = drop 20 k"
    by (simp add: uuid_text_def Let_def h_def [symmetric] k_def [symmetric] append_eq_append_conv)
  then have "h = k" by (metis join)
  then show "u = v" unfolding h_def k_def by (rule word_hex_inj [rotated]) simp
qed

theorem operation_rule_exact_witness:
  "operation_rule (runtime_config_new [] [((Responses, ''gpt''), sample_rule [])] [] [] [] []) Responses ''gpt'' =
     Some (sample_rule []) \<and>
   operation_rule (runtime_config_new [] [((Responses, ''gpt''), sample_rule [])] [] [] [] [])
     ResponsesWebSocket ''gpt'' = None"
proof -
  have wf: "hm_wf [((Responses, ''gpt''), sample_rule [])]" by (simp add: hm_wf_def)
  show ?thesis
    using operation_rule_exact [OF wf, of "[]" "[]" "[]" "[]" "[]"] by (simp add: hm_get_def)
qed

theorem models_for_spec_witness:
  "set (models_for 0 (runtime_config_new [] [((Responses, ''gpt''), sample_rule [])] [] [] [] [])
      sample_key OpenAiResponses) = {''gpt''}"
proof -
  have wf: "hm_wf [((Responses, ''gpt''), sample_rule [])]" by (simp add: hm_wf_def)
  have "bit_is_set [6] 1 \<and> permits_route_candidate sample_key 1 \<and> permits_route sample_key 0"
    by (simp add: bit_is_set_iff permits_route_candidate_def permits_route_def sample_key_def
        bit_numeral_rec bit_1_iff)
  then show ?thesis
    using models_for_spec [OF wf refl, where now = 0 and k = sample_key and fmt = OpenAiResponses and keys = "[]"
        and channels = "[]" and probes = "[]" and tests = "[]" and groups = "[]"]
    by (auto simp: key_permits_def is_expired_def sample_key_def sample_rule_def)
qed

definition sample_identity :: "uuid \<Rightarrow> channel_identity" where
  "sample_identity r =
     \<lparr>ci_logical_channel_id = 1, ci_access_id = 2, ci_api_operation = Responses,
      ci_credential_id = Some 3, ci_credential_revision = None, ci_binding_revision = 4,
      ci_access_revision = r, ci_capability_revision = 6\<rparr>"

theorem connectivity_fingerprint_separates_witness:
  "ch_connectivity_fingerprint (with_channel_identity uuid_text (sample_channel 1) (sample_identity 5)) \<noteq>
   ch_connectivity_fingerprint (with_channel_identity uuid_text (sample_channel 1) (sample_identity 6))"
  using connectivity_fingerprint_separates [OF length_uuid_text uuid_text_inj,
      of "sample_identity 5" "sample_identity 6" "sample_channel 1" "sample_channel 1"]
  by (simp add: identified_def sample_identity_def)

theorem tier_preimage_determines_tier_witness:
  "tier_preimage (to_be_bytes 16) 0 WeightedRandom [sample_candidate 1 5] \<noteq>
   tier_preimage (to_be_bytes 16) 0 WeightedRandom [sample_candidate 1 6]"
proof -
  have "inj (to_be_bytes 16 :: uuid \<Rightarrow> u8 list)" by (rule injI) (simp add: to_be_bytes_inj)
  from tier_preimage_determines_tier [OF _ this, of "[sample_candidate 1 5]" "[sample_candidate 1 6]"
      0 WeightedRandom 0 WeightedRandom]
  show ?thesis by (auto simp: sample_candidate_def)
qed

end
