(* ===== verification/Lease_Pool.thy ===== *)
theory Lease_Pool
  imports Gateway_Prelude "HOL-Library.Multiset"
begin

text \<open>
  The lease discipline that request admission and channel health share. A holder acquires a
  lease, keeps it while its request runs, and releases it exactly once, when the lease value is
  dropped; the provider counts the leases that are out. \<open>lease_run\<close> is an arbitrary
  interleaving of acquisitions, releases of outstanding leases, and other operations.
  The locale \<open>lease_pool\<close> states what a provider promises of single operations; its
  lemmas lift the promise to whole runs.

  The counters of the code are machine integers, so a run keeps the number of outstanding
  leases of one key below \<open>bound\<close>, the largest value the counter can represent.
\<close>

inductive lease_run ::
  "('s \<Rightarrow> 'k \<Rightarrow> 's \<Rightarrow> bool) \<Rightarrow> ('s \<Rightarrow> 'k \<Rightarrow> 's \<Rightarrow> bool) \<Rightarrow> ('s \<Rightarrow> 's \<Rightarrow> bool) \<Rightarrow> nat \<Rightarrow>
   's \<Rightarrow> 's \<Rightarrow> 'k multiset \<Rightarrow> bool"
  for acquired released other bound s0 where
  run_init: "lease_run acquired released other bound s0 s0 {#}"
| run_acquire: "lease_run acquired released other bound s0 s L \<Longrightarrow> acquired s k s' \<Longrightarrow>
    count L k < bound \<Longrightarrow> lease_run acquired released other bound s0 s' (add_mset k L)"
| run_release: "lease_run acquired released other bound s0 s L \<Longrightarrow> k \<in># L \<Longrightarrow> released s k s' \<Longrightarrow>
    lease_run acquired released other bound s0 s' (L - {#k#})"
| run_other: "lease_run acquired released other bound s0 s L \<Longrightarrow> other s s' \<Longrightarrow>
    lease_run acquired released other bound s0 s' L"

locale lease_pool =
  fixes wf :: "'s \<Rightarrow> bool"
    and held :: "'s \<Rightarrow> 'k \<Rightarrow> nat"
    and acquired released :: "'s \<Rightarrow> 'k \<Rightarrow> 's \<Rightarrow> bool"
    and other :: "'s \<Rightarrow> 's \<Rightarrow> bool"
    and bound :: nat
  assumes acquire_law: "wf s \<Longrightarrow> held s k < bound \<Longrightarrow> acquired s k s' \<Longrightarrow>
      wf s' \<and> (\<forall>j. held s' j = (if j = k then Suc (held s k) else held s j))"
    and release_law: "wf s \<Longrightarrow> 0 < held s k \<Longrightarrow> released s k s' \<Longrightarrow>
      wf s' \<and> (\<forall>j. held s' j = (if j = k then held s k - 1 else held s j))"
    and release_enabled: "wf s \<Longrightarrow> 0 < held s k \<Longrightarrow> \<exists>s'. released s k s'"
    and other_law: "wf s \<Longrightarrow> other s s' \<Longrightarrow> wf s' \<and> (\<forall>j. held s' j = held s j)"
begin

lemma run_accounting:
  assumes "lease_run acquired released other bound s0 s L" and "wf s0" and "\<forall>k. held s0 k = 0"
  shows "wf s \<and> (\<forall>k. held s k = count L k)"
  using assms(1)
proof (induction rule: lease_run.induct)
  case run_init
  with assms show ?case by simp
next
  case (run_acquire s L k s')
  then show ?case using acquire_law [of s k s'] by auto
next
  case (run_release s L k s')
  then have "0 < held s k" by simp
  with run_release show ?case using release_law [of s k s'] by auto
next
  case (run_other s L s')
  then show ?case using other_law [of s s'] by auto
qed

lemma run_release_enabled:
  assumes "lease_run acquired released other bound s0 s L" and "wf s0" and "\<forall>k. held s0 k = 0"
    and "k \<in># L"
  shows "\<exists>s'. released s k s'"
  using run_accounting [OF assms(1-3)] assms(4) by (intro release_enabled) simp_all

lemma run_quiescent:
  assumes "lease_run acquired released other bound s0 s {#}" and "wf s0" and "\<forall>k. held s0 k = 0"
  shows "held s k = 0"
  using run_accounting [OF assms] by simp

end

end
