(* ===== verification/Admission.thy ===== *)
theory Admission
  imports Compiled_Routing Lease_Pool
begin

text \<open>
  Request admission, \<^verbatim>\<open>src/admission/mod.rs\<close>: the soft quota check, the per-key request
  window and the concurrency limit, with the lease that every admitted request holds.

  The state behind the mutex is \<open>admission_state\<close>; every operation runs under the lock and
  is one function on it. \<open>now\<close> is what the clock returned. A panic of the code
  (\<^verbatim>\<open>expect\<close>, or an overflowing addition of durations) is \<open>AdmissionPanic\<close> in
  \<open>admit\<close> and \<open>None\<close> in \<open>drop_lease\<close>.
\<close>

section \<open>State and operations\<close>

definition WINDOW :: duration where
  "WINDOW = from_secs 60"

record key_state =
  ks_window_started_at :: "duration option"
  ks_requests_in_window :: u32
  ks_in_flight :: u32

definition key_state_default :: key_state where
  "key_state_default = \<lparr>ks_window_started_at = None, ks_requests_in_window = 0, ks_in_flight = 0\<rparr>"

record 'd admission_state =
  ad_keys :: "(uuid, key_state) hmap"
  ad_settled_quota_used :: "(uuid, 'd) hmap"

definition admission_state_default :: "'d admission_state" where
  "admission_state_default = \<lparr>ad_keys = [], ad_settled_quota_used = []\<rparr>"

record admission_lease =
  al_key_id :: uuid
  al_released :: bool

datatype admission_error = RateLimited nat | ConcurrentLimited | InsufficientQuota

datatype admission_outcome =
    Admitted admission_lease | AdmissionRejected admission_error | AdmissionPanic

definition retry_after :: "duration \<Rightarrow> duration \<Rightarrow> nat" where
  "retry_after now reset_at =
     (let remaining = reset_at - now
      in as_secs remaining + (if subsec_nanos remaining \<noteq> 0 then 1 else 0))"

definition key_retained :: "duration \<Rightarrow> key_state \<Rightarrow> bool" where
  "key_retained now ks \<longleftrightarrow> 0 < ks_in_flight ks \<or>
     (case ks_window_started_at ks of None \<Rightarrow> False | Some started \<Rightarrow> now - started \<le> WINDOW)"

definition settled_quota :: "('d::linorder) compiled_api_key \<Rightarrow> 'd admission_state \<Rightarrow> 'd" where
  "settled_quota k st =
     (case hm_get (ad_settled_quota_used st) (ak_id k) of
        None \<Rightarrow> ak_quota_used_amount k | Some used \<Rightarrow> max used (ak_quota_used_amount k))"

definition open_window :: "duration \<Rightarrow> key_state \<Rightarrow> key_state" where
  "open_window now ks =
     (if (case ks_window_started_at ks of None \<Rightarrow> True | Some started \<Rightarrow> WINDOW \<le> now - started)
      then ks\<lparr>ks_window_started_at := Some now, ks_requests_in_window := 0\<rparr> else ks)"

text \<open>The part of \<^verbatim>\<open>admit\<close> after the quota check, on the state of one key.\<close>

definition admit_key ::
  "duration \<Rightarrow> 'd compiled_api_key \<Rightarrow> key_state \<Rightarrow> key_state \<times> admission_outcome" where
  "admit_key now k ks0 =
     (let ks = open_window now ks0
      in if (case ak_requests_per_minute k of
               None \<Rightarrow> False | Some limit \<Rightarrow> limit \<le> ks_requests_in_window ks)
         then (ks, case ks_window_started_at ks of
                     None \<Rightarrow> AdmissionPanic
                   | Some started \<Rightarrow>
                      (case duration_add started WINDOW of
                         None \<Rightarrow> AdmissionPanic
                       | Some reset_at \<Rightarrow> AdmissionRejected (RateLimited (retry_after now reset_at))))
         else
           (let ks1 = ks\<lparr>ks_requests_in_window := sat_add (ks_requests_in_window ks) 1\<rparr>
            in if (case ak_max_concurrent_requests k of
                     None \<Rightarrow> False | Some limit \<Rightarrow> limit \<le> ks_in_flight ks1)
               then (ks1, AdmissionRejected ConcurrentLimited)
               else (ks1\<lparr>ks_in_flight := sat_add (ks_in_flight ks1) 1\<rparr>,
                     Admitted \<lparr>al_key_id = ak_id k, al_released = False\<rparr>)))"

definition admit ::
  "duration \<Rightarrow> ('d::linorder) compiled_api_key \<Rightarrow> 'd admission_state \<Rightarrow>
   'd admission_state \<times> admission_outcome" where
  "admit now k st0 =
     (let st = st0\<lparr>ad_keys := hm_retain (\<lambda>_. key_retained now) (ad_keys st0)\<rparr>
      in if quota_exhausted_at k (settled_quota k st)
         then (st, AdmissionRejected InsufficientQuota)
         else
           (let ks0 = (case hm_get (ad_keys st) (ak_id k) of None \<Rightarrow> key_state_default | Some ks \<Rightarrow> ks);
                (ks, out) = admit_key now k ks0
            in (st\<lparr>ad_keys := hm_insert (ak_id k) ks (ad_keys st)\<rparr>, out)))"

definition record_settled_quota_usage ::
  "uuid \<Rightarrow> 'd::linorder \<Rightarrow> 'd admission_state \<Rightarrow> 'd admission_state" where
  "record_settled_quota_usage i amount st =
     st\<lparr>ad_settled_quota_used :=
          hm_insert i
            (case hm_get (ad_settled_quota_used st) i of
               None \<Rightarrow> amount | Some current \<Rightarrow> max current amount)
            (ad_settled_quota_used st)\<rparr>"

record pressure_snapshot =
  ps_tracked_api_keys :: u64
  ps_requests_in_current_windows :: u64
  ps_in_flight_requests :: u64

definition u64_of_len :: "nat \<Rightarrow> u64" where
  "u64_of_len n = (if n < 2 ^ 64 then of_nat n else - 1)"

definition pressure_snapshot :: "'d admission_state \<Rightarrow> pressure_snapshot" where
  "pressure_snapshot st =
     \<lparr>ps_tracked_api_keys = u64_of_len (hm_len (ad_keys st)),
      ps_requests_in_current_windows =
        fold (\<lambda>(_, ks) total. sat_add total (ucast (ks_requests_in_window ks))) (ad_keys st) 0,
      ps_in_flight_requests =
        fold (\<lambda>(_, ks) total. sat_add total (ucast (ks_in_flight ks))) (ad_keys st) 0\<rparr>"

definition drop_lease ::
  "duration \<Rightarrow> admission_lease \<Rightarrow> 'd admission_state \<Rightarrow> 'd admission_state option" where
  "drop_lease now l st =
     (if al_released l then Some st
      else case hm_get (ad_keys st) (al_key_id l) of
             None \<Rightarrow> None
           | Some ks0 \<Rightarrow>
              (let ks = ks0\<lparr>ks_in_flight := sat_sub (ks_in_flight ks0) 1\<rparr>;
                   keys = hm_insert (al_key_id l) ks (ad_keys st);
                   remove = (ks_in_flight ks = 0 \<and>
                     (case ks_window_started_at ks of
                        None \<Rightarrow> False | Some started \<Rightarrow> WINDOW < now - started))
               in Some (st\<lparr>ad_keys := if remove then hm_remove (al_key_id l) keys else keys\<rparr>)))"

section \<open>Lease accounting\<close>

definition admission_wf :: "'d admission_state \<Rightarrow> bool" where
  "admission_wf st \<longleftrightarrow> hm_wf (ad_keys st)"

definition admission_held :: "'d admission_state \<Rightarrow> uuid \<Rightarrow> nat" where
  "admission_held st i = (case hm_get (ad_keys st) i of None \<Rightarrow> 0 | Some ks \<Rightarrow> unat (ks_in_flight ks))"

definition admission_acquired :: "('d::linorder) admission_state \<Rightarrow> uuid \<Rightarrow> 'd admission_state \<Rightarrow> bool" where
  "admission_acquired st i st' \<longleftrightarrow>
     (\<exists>now k. ak_id k = i \<and> admit now k st = (st', Admitted \<lparr>al_key_id = i, al_released = False\<rparr>))"

definition admission_released :: "'d admission_state \<Rightarrow> uuid \<Rightarrow> 'd admission_state \<Rightarrow> bool" where
  "admission_released st i st' \<longleftrightarrow>
     (\<exists>now. drop_lease now \<lparr>al_key_id = i, al_released = False\<rparr> st = Some st')"

definition admission_other :: "('d::linorder) admission_state \<Rightarrow> 'd admission_state \<Rightarrow> bool" where
  "admission_other st st' \<longleftrightarrow>
     (\<exists>now k out. admit now k st = (st', out) \<and> (\<forall>l. out \<noteq> Admitted l)) \<or>
     (\<exists>i amount. st' = record_settled_quota_usage i amount st)"

lemma open_window_in_flight [simp]: "ks_in_flight (open_window now ks) = ks_in_flight ks"
  by (simp add: open_window_def)

lemma admit_key_in_flight:
  "admit_key now k ks = (ks', out) \<Longrightarrow>
   ks_in_flight ks' = (case out of Admitted _ \<Rightarrow> sat_add (ks_in_flight ks) 1 | _ \<Rightarrow> ks_in_flight ks)"
  by (auto simp: admit_key_def Let_def split: if_splits option.splits)

lemma retained_in_flight:
  "hm_wf m \<Longrightarrow>
   (case hm_get (hm_retain (\<lambda>_. key_retained now) m) i of None \<Rightarrow> 0 | Some ks \<Rightarrow> unat (ks_in_flight ks)) =
   (case hm_get m i of None \<Rightarrow> 0 | Some ks \<Rightarrow> unat (ks_in_flight ks))"
  by (auto simp: hm_get_simps key_retained_def word_gt_0 split: option.splits)

lemma admit_wf: "admit now k st = (st', out) \<Longrightarrow> admission_wf st \<Longrightarrow> admission_wf st'"
  by (auto simp: admit_def admission_wf_def Let_def gw_wf split: if_splits prod.splits)

lemma admit_held:
  assumes "admit now k st = (st', out)" and "admission_wf st"
  shows "admission_held st' i =
    (case out of
       Admitted _ \<Rightarrow> if i = ak_id k then min (Suc (admission_held st i)) (2 ^ 32 - 1) else admission_held st i
     | _ \<Rightarrow> admission_held st i)"
proof -
  let ?m = "hm_retain (\<lambda>_. key_retained now) (ad_keys st)"
  let ?ks0 = "case hm_get ?m (ak_id k) of None \<Rightarrow> key_state_default | Some ks \<Rightarrow> ks"
  have r: "(case hm_get ?m j of None \<Rightarrow> 0 | Some ks \<Rightarrow> unat (ks_in_flight ks)) = admission_held st j" for j
    using retained_in_flight assms(2) by (simp add: admission_held_def admission_wf_def)
  then have ks0: "unat (ks_in_flight ?ks0) = admission_held st (ak_id k)"
    by (auto simp: key_state_default_def split: option.splits) (metis option.simps(4), metis option.simps(5))
  obtain ks' o' where ak: "admit_key now k ?ks0 = (ks', o')" by fastforce
  note fl = admit_key_in_flight [OF ak]
  show ?thesis
  proof (cases "quota_exhausted_at k (settled_quota k (st\<lparr>ad_keys := ?m\<rparr>))")
    case True
    with assms(1) have "st' = st\<lparr>ad_keys := ?m\<rparr>" "out = AdmissionRejected InsufficientQuota"
      by (simp_all add: admit_def Let_def)
    then show ?thesis using r [of i] by (simp add: admission_held_def)
  next
    case False
    with assms(1) ak have st': "st' = st\<lparr>ad_keys := hm_insert (ak_id k) ks' ?m\<rparr>" and o': "out = o'"
      by (simp_all add: admit_def Let_def)
    have "admission_held st' i = (if i = ak_id k then unat (ks_in_flight ks') else admission_held st i)"
      using r [of i] by (simp add: st' admission_held_def hm_get_simps)
    with fl ks0 o' show ?thesis
      by (auto simp: unat_sat_add split: admission_outcome.splits)
  qed
qed

lemma drop_lease_defined:
  assumes "0 < admission_held st i"
  shows "\<exists>st'. drop_lease now \<lparr>al_key_id = i, al_released = False\<rparr> st = Some st'"
proof -
  from assms obtain ks where "hm_get (ad_keys st) i = Some ks"
    by (auto simp: admission_held_def split: option.splits)
  then show ?thesis by (simp add: drop_lease_def Let_def)
qed

lemma drop_lease_held:
  assumes "drop_lease now \<lparr>al_key_id = i, al_released = False\<rparr> st = Some st'" and "admission_wf st"
  shows "admission_wf st' \<and>
    (\<forall>j. admission_held st' j = (if j = i then admission_held st i - 1 else admission_held st j))"
proof -
  from assms(1) obtain ks where ks: "hm_get (ad_keys st) i = Some ks"
    by (auto simp: drop_lease_def split: option.splits)
  let ?ks = "ks\<lparr>ks_in_flight := sat_sub (ks_in_flight ks) 1\<rparr>"
  from assms(1) ks have "ad_keys st' = hm_insert i ?ks (ad_keys st) \<or>
      (ks_in_flight ?ks = 0 \<and> ad_keys st' = hm_remove i (hm_insert i ?ks (ad_keys st)))"
    by (auto simp: drop_lease_def Let_def split: if_splits)
  moreover have "unat (ks_in_flight ?ks) = admission_held st i - 1"
    by (simp add: admission_held_def ks unat_sat_sub)
  ultimately show ?thesis
    using assms(2) by (auto simp: admission_wf_def admission_held_def gw_wf hm_get_simps)
qed

interpretation admission_pool: lease_pool admission_wf admission_held
  admission_acquired admission_released admission_other "2 ^ 32 - 1"
proof unfold_locales
  fix s s' :: "'a::linorder admission_state" and k
  assume "admission_wf s" and "admission_held s k < 2 ^ 32 - 1" and "admission_acquired s k s'"
  then show "admission_wf s' \<and>
      (\<forall>j. admission_held s' j = (if j = k then Suc (admission_held s k) else admission_held s j))"
    by (auto simp: admission_acquired_def admit_wf admit_held)
next
  fix s s' :: "'a::linorder admission_state" and k
  assume "admission_wf s" and "admission_released s k s'"
  then show "admission_wf s' \<and>
      (\<forall>j. admission_held s' j = (if j = k then admission_held s k - 1 else admission_held s j))"
    unfolding admission_released_def using drop_lease_held by blast
next
  fix s :: "'a::linorder admission_state" and k
  assume "0 < admission_held s k"
  then show "\<exists>s'. admission_released s k s'"
    unfolding admission_released_def using drop_lease_defined by blast
next
  fix s s' :: "'a::linorder admission_state"
  assume "admission_wf s" and "admission_other s s'"
  then show "admission_wf s' \<and> (\<forall>j. admission_held s' j = admission_held s j)"
    unfolding admission_other_def
  proof (elim disjE exE conjE)
    fix now k out
    assume *: "admit now k s = (s', out)" "\<forall>l. out \<noteq> Admitted l" "admission_wf s"
    then show ?thesis
      using admit_wf [OF *(1,3)] admit_held [OF *(1,3)] by (cases out) simp_all
  qed (simp add: record_settled_quota_usage_def admission_held_def admission_wf_def)
qed

abbreviation admission_run :: "('d::linorder) admission_state \<Rightarrow> uuid multiset \<Rightarrow> bool" where
  "admission_run \<equiv> lease_run admission_acquired admission_released admission_other (2 ^ 32 - 1)
     admission_state_default"

lemma admission_default_pool:
  "admission_wf admission_state_default" "\<forall>i. admission_held admission_state_default i = 0"
  by (simp_all add: admission_state_default_def admission_wf_def admission_held_def)

text \<open>C5. In-flight accounting of admission is exact in every interleaving of admissions, rejections, quota
  settlements and lease drops: the counter of a key equals the number of its leases that are
  out, dropping any outstanding lease finds its state (the drop never panics), and when all
  leases are gone no key counts as busy.\<close>

theorem admission_lease_accounting:
  assumes "lease_run admission_acquired admission_released admission_other (2 ^ 32 - 1)
     admission_state_default st leases"
  shows "(\<forall>i. (case hm_get (ad_keys st) i of None \<Rightarrow> 0 | Some ks \<Rightarrow> unat (ks_in_flight ks)) = count leases i) \<and>
    (\<forall>i \<in># leases. \<forall>now. drop_lease now \<lparr>al_key_id = i, al_released = False\<rparr> st \<noteq> None)"
proof -
  from admission_pool.run_accounting [OF assms admission_default_pool]
  have acc: "admission_held st i = count leases i" for i by simp
  have "drop_lease now \<lparr>al_key_id = i, al_released = False\<rparr> st \<noteq> None" if "i \<in># leases" for i now
    using drop_lease_defined [of st i now] acc [of i] that by auto
  with acc show ?thesis by (simp add: admission_held_def)
qed

text \<open>C6. The concurrency limit is never exceeded: whenever a request is admitted under a limit,
  the leases of its key that are out, the new one included, are at most that limit, also when
  earlier leases were granted under another or no limit; and a key with a positive limit and no
  lease out is never refused for concurrency.\<close>

theorem admission_concurrency_bound:
  assumes "lease_run admission_acquired admission_released admission_other (2 ^ 32 - 1)
     admission_state_default st leases"
    and "ak_max_concurrent_requests k = Some limit"
    and "admit now k st = (st', out)"
  shows "(\<forall>l. out = Admitted l \<longrightarrow> count (add_mset (al_key_id l) leases) (ak_id k) \<le> unat limit) \<and>
    (0 < limit \<and> count leases (ak_id k) = 0 \<longrightarrow> out \<noteq> AdmissionRejected ConcurrentLimited)"
proof -
  from admission_pool.run_accounting [OF assms(1) admission_default_pool]
  have wf: "admission_wf st" and acc: "admission_held st (ak_id k) = count leases (ak_id k)" by simp_all
  let ?m = "hm_retain (\<lambda>_. key_retained now) (ad_keys st)"
  let ?ks0 = "case hm_get ?m (ak_id k) of None \<Rightarrow> key_state_default | Some ks \<Rightarrow> ks"
  have fl: "unat (ks_in_flight ?ks0) = count leases (ak_id k)"
    using retained_in_flight [of "ad_keys st" now "ak_id k"] wf acc
    by (auto simp: admission_held_def admission_wf_def key_state_default_def split: option.splits)
  obtain ks' where ak: "out = AdmissionRejected InsufficientQuota \<or> admit_key now k ?ks0 = (ks', out)"
    using assms(3) by (auto simp: admit_def Let_def split: if_splits prod.splits)
  from ak assms(2) have "\<forall>l. out = Admitted l \<longrightarrow> al_key_id l = ak_id k \<and> ks_in_flight ?ks0 < limit"
    and "out = AdmissionRejected ConcurrentLimited \<longrightarrow> limit \<le> ks_in_flight ?ks0"
    by (auto simp: admit_key_def Let_def not_le split: if_splits option.splits)
  with fl show ?thesis by (auto simp: word_less_nat_alt word_le_nat_alt)
qed

section \<open>The request window\<close>

text \<open>
  A run of the gateway with a monotone clock. The log records every admission: its time, its
  key, the start of the window it was counted in, and the limit that applied.
\<close>

record log_entry =
  le_time :: duration
  le_key :: uuid
  le_window :: duration
  le_limit :: "u32 option"

record 'd rpm_world =
  rw_state :: "'d admission_state"
  rw_now :: duration
  rw_log :: "log_entry list"

definition rpm_init :: "'d rpm_world" where
  "rpm_init = \<lparr>rw_state = admission_state_default, rw_now = 0, rw_log = []\<rparr>"

inductive rpm_step :: "('d::linorder) rpm_world \<Rightarrow> 'd rpm_world \<Rightarrow> bool" where
  rpm_admit: "rw_now w \<le> now \<Longrightarrow> admit now k (rw_state w) = (st', Admitted l) \<Longrightarrow>
    hm_get (ad_keys st') (ak_id k) = Some ks \<Longrightarrow> ks_window_started_at ks = Some win \<Longrightarrow>
    rpm_step w \<lparr>rw_state = st', rw_now = now,
      rw_log = \<lparr>le_time = now, le_key = ak_id k, le_window = win,
                le_limit = ak_requests_per_minute k\<rparr> # rw_log w\<rparr>"
| rpm_reject: "rw_now w \<le> now \<Longrightarrow> admit now k (rw_state w) = (st', out) \<Longrightarrow> (\<forall>l. out \<noteq> Admitted l) \<Longrightarrow>
    rpm_step w (w\<lparr>rw_state := st', rw_now := now\<rparr>)"
| rpm_drop: "rw_now w \<le> now \<Longrightarrow> drop_lease now l (rw_state w) = Some st' \<Longrightarrow>
    rpm_step w (w\<lparr>rw_state := st', rw_now := now\<rparr>)"
| rpm_settle: "rpm_step w (w\<lparr>rw_state := record_settled_quota_usage i amount (rw_state w)\<rparr>)"

inductive rpm_reachable :: "('d::linorder) rpm_world \<Rightarrow> bool" where
  rpm_start: "rpm_reachable rpm_init"
| rpm_next: "rpm_reachable w \<Longrightarrow> rpm_step w w' \<Longrightarrow> rpm_reachable w'"

definition window_count :: "log_entry list \<Rightarrow> uuid \<Rightarrow> duration \<Rightarrow> nat" where
  "window_count log i win = length (filter (\<lambda>e. le_key e = i \<and> le_window e = win) log)"

fun log_limited :: "log_entry list \<Rightarrow> bool" where
  "log_limited [] = True"
| "log_limited (e # log) =
     ((case le_limit e of None \<Rightarrow> True
       | Some l \<Rightarrow> Suc (window_count log (le_key e) (le_window e)) \<le> unat l) \<and> log_limited log)"

definition windows_closed :: "duration \<Rightarrow> log_entry list \<Rightarrow> uuid \<Rightarrow> bool" where
  "windows_closed t log i \<longleftrightarrow> (\<forall>e \<in> set log. le_key e = i \<longrightarrow> le_window e + WINDOW \<le> t)"

definition key_inv :: "duration \<Rightarrow> log_entry list \<Rightarrow> uuid \<Rightarrow> key_state option \<Rightarrow> bool" where
  "key_inv now log i ko \<longleftrightarrow>
     (case ko of
        None \<Rightarrow> windows_closed now log i
      | Some ks \<Rightarrow>
         (case ks_window_started_at ks of
            None \<Rightarrow> False
          | Some win \<Rightarrow> win \<le> now \<and>
              (\<forall>e \<in> set log. le_key e = i \<longrightarrow> le_window e = win \<or> le_window e + WINDOW \<le> win) \<and>
              (ks_requests_in_window ks = - 1 \<or>
               window_count log i win \<le> unat (ks_requests_in_window ks))))"

definition log_wf :: "log_entry list \<Rightarrow> bool" where
  "log_wf log \<longleftrightarrow> log_limited log \<and>
     (\<forall>e \<in> set log. le_window e \<le> le_time e \<and> le_time e < le_window e + WINDOW) \<and>
     (\<forall>e \<in> set log. \<forall>f \<in> set log. le_key e = le_key f \<longrightarrow>
        le_window e = le_window f \<or> le_window e + WINDOW \<le> le_window f \<or> le_window f + WINDOW \<le> le_window e)"

definition rpm_inv :: "'d rpm_world \<Rightarrow> bool" where
  "rpm_inv w \<longleftrightarrow> admission_wf (rw_state w) \<and> log_wf (rw_log w) \<and>
     (\<forall>i. key_inv (rw_now w) (rw_log w) i (hm_get (ad_keys (rw_state w)) i))"

lemma WINDOW_pos: "0 < WINDOW"
  by (simp add: WINDOW_def from_secs_def nanos_per_sec_def)

lemma window_count_closed:
  assumes "windows_closed t log i"
  shows "window_count log i t = 0"
proof -
  have "\<not> (le_key e = i \<and> le_window e = t)" if "e \<in> set log" for e
    using assms that WINDOW_pos by (fastforce simp: windows_closed_def)
  then show ?thesis by (simp add: window_count_def filter_empty_conv)
qed

lemma key_inv_later: "key_inv now0 log i ko \<Longrightarrow> now0 \<le> now \<Longrightarrow> key_inv now log i ko"
  by (fastforce simp: key_inv_def windows_closed_def split: option.splits)

lemma key_inv_closed:
  assumes "key_inv now0 log i (Some ks)" and "ks_window_started_at ks = Some win"
    and "WINDOW \<le> now - win"
  shows "windows_closed now log i"
proof -
  have "win + WINDOW \<le> now" using assms(3) WINDOW_pos by linarith
  with assms(1,2) show ?thesis by (fastforce simp: key_inv_def windows_closed_def)
qed

lemma key_inv_prune:
  assumes "key_inv now0 log i ko" and "now0 \<le> now"
  shows "key_inv now log i (case ko of None \<Rightarrow> None | Some ks \<Rightarrow> if key_retained now ks then Some ks else None)"
proof (cases ko)
  case None
  with key_inv_later [OF assms] show ?thesis by simp
next
  case (Some ks)
  then obtain win where win: "ks_window_started_at ks = Some win"
    using assms(1) by (auto simp: key_inv_def split: option.splits)
  show ?thesis
  proof (cases "key_retained now ks")
    case True
    with key_inv_later [OF assms] Some show ?thesis by simp
  next
    case False
    with win have "WINDOW \<le> now - win" by (simp add: key_retained_def)
    with key_inv_closed [OF _ win] assms(1) Some False show ?thesis by (simp add: key_inv_def)
  qed
qed

lemma key_inv_fresh:
  "windows_closed now log i \<Longrightarrow> ks_window_started_at ks = Some now \<Longrightarrow> key_inv now log i (Some ks)"
  by (simp add: key_inv_def window_count_closed) (simp add: windows_closed_def)

lemma key_inv_open:
  assumes "key_inv now log i ko"
  shows "key_inv now log i (Some (open_window now (case ko of None \<Rightarrow> key_state_default | Some ks \<Rightarrow> ks)))"
proof (cases ko)
  case None
  with assms show ?thesis
    by (intro key_inv_fresh) (simp_all add: key_inv_def open_window_def key_state_default_def)
next
  case (Some ks)
  then obtain win where win: "ks_window_started_at ks = Some win"
    using assms by (auto simp: key_inv_def split: option.splits)
  show ?thesis
  proof (cases "WINDOW \<le> now - win")
    case True
    with key_inv_closed [OF _ win] assms Some win show ?thesis
      by (intro key_inv_fresh) (simp_all add: open_window_def)
  next
    case False
    with Some win assms show ?thesis by (simp add: open_window_def)
  qed
qed

lemma open_window_started:
  assumes "key_inv now log i ko"
  shows "\<exists>win. ks_window_started_at (open_window now (case ko of None \<Rightarrow> key_state_default | Some ks \<Rightarrow> ks)) =
    Some win \<and> win \<le> now \<and> now < win + WINDOW"
  using assms WINDOW_pos
  by (cases ko)
    (auto simp: open_window_def key_state_default_def key_inv_def split: option.splits if_splits)

lemma key_inv_count:
  assumes "key_inv now log i (Some ks)" and "requests = sat_add (ks_requests_in_window ks) 1"
    and "ks_window_started_at ks' = ks_window_started_at ks" and "ks_requests_in_window ks' = requests"
  shows "key_inv now log i (Some ks')"
  using assms by (auto simp: key_inv_def word_unat_eq_iff unat_sat_add unat_max_word split: option.splits)

text \<open>What \<open>admit\<close> does to the state of each key.\<close>

definition pruned :: "duration \<Rightarrow> key_state option \<Rightarrow> key_state option" where
  "pruned now ko = (case ko of None \<Rightarrow> None | Some ks \<Rightarrow> if key_retained now ks then Some ks else None)"

lemma admit_cases:
  assumes "admit now k st = (st', out)" and "admission_wf st"
  obtains (quota) "out = AdmissionRejected InsufficientQuota"
      "\<And>i. hm_get (ad_keys st') i = pruned now (hm_get (ad_keys st) i)"
  | (decided) ks where
      "admit_key now k (case pruned now (hm_get (ad_keys st) (ak_id k)) of
         None \<Rightarrow> key_state_default | Some ks \<Rightarrow> ks) = (ks, out)"
      "\<And>i. hm_get (ad_keys st') i =
         (if i = ak_id k then Some ks else pruned now (hm_get (ad_keys st) i))"
proof -
  let ?st = "st\<lparr>ad_keys := hm_retain (\<lambda>_. key_retained now) (ad_keys st)\<rparr>"
  have get: "hm_get (ad_keys ?st) i = pruned now (hm_get (ad_keys st) i)" for i
    using assms(2) by (simp add: pruned_def admission_wf_def hm_get_retain)
  show thesis
  proof (cases "quota_exhausted_at k (settled_quota k ?st)")
    case True
    with assms(1) get show thesis by (intro quota) (auto simp: admit_def Let_def)
  next
    case False
    obtain ks o' where ks: "admit_key now k (case hm_get (ad_keys ?st) (ak_id k) of
        None \<Rightarrow> key_state_default | Some ks \<Rightarrow> ks) = (ks, o')" by fastforce
    with False assms(1) have "out = o'" and "st' = ?st\<lparr>ad_keys := hm_insert (ak_id k) ks (ad_keys ?st)\<rparr>"
      by (simp_all add: admit_def Let_def)
    with ks get show thesis by (intro decided [of ks]) (simp_all add: hm_get_insert)
  qed
qed

lemma admit_key_cases:
  assumes "admit_key now k ks0 = (ks, out)"
  shows "(\<exists>e. out = AdmissionRejected e \<or> out = AdmissionPanic) \<and> ks = open_window now ks0 \<or>
    ks_window_started_at ks = ks_window_started_at (open_window now ks0) \<and>
    ks_requests_in_window ks = sat_add (ks_requests_in_window (open_window now ks0)) 1 \<and>
    (case ak_requests_per_minute k of None \<Rightarrow> True
     | Some l \<Rightarrow> ks_requests_in_window (open_window now ks0) < l)"
  using assms by (auto simp: admit_key_def Let_def not_le split: if_splits option.splits)

lemma admit_key_inv:
  assumes "admit_key now k (case ko of None \<Rightarrow> key_state_default | Some ks \<Rightarrow> ks) = (ks, out)"
    and "key_inv now log i ko"
  shows "key_inv now log i (Some ks)"
  using admit_key_cases [OF assms(1)] key_inv_open [OF assms(2)] key_inv_count by blast

lemma admit_key_inv_all:
  assumes "admit now k st = (st', out)" and "admission_wf st" and "now0 \<le> now"
    and "\<And>i. key_inv now0 log i (hm_get (ad_keys st) i)"
  shows "key_inv now log i (hm_get (ad_keys st') i)"
proof -
  have pr: "key_inv now log j (pruned now (hm_get (ad_keys st) j))" for j
    unfolding pruned_def using key_inv_prune [OF assms(4,3)] .
  from assms(1,2) show ?thesis
  proof (cases rule: admit_cases)
    case quota
    with pr show ?thesis by simp
  next
    case (decided ks)
    with pr admit_key_inv [OF decided(1) pr] show ?thesis by simp
  qed
qed

text \<open>Recording an admission keeps the log within the limits.\<close>

lemma key_inv_log:
  assumes "key_inv now log i (Some ks)" and "ks_window_started_at ks = Some win"
    and "ks_requests_in_window ks' = sat_add (ks_requests_in_window ks) 1"
    and "ks_window_started_at ks' = Some win" and "le_key e = i" and "le_window e = win"
  shows "key_inv now (e # log) i (Some ks')"
  using assms
  by (auto simp: key_inv_def window_count_def word_unat_eq_iff unat_sat_add unat_max_word)

lemma key_inv_log_other: "le_key e \<noteq> i \<Longrightarrow> key_inv now (e # log) i ko = key_inv now log i ko"
  by (auto simp: key_inv_def window_count_def windows_closed_def split: option.splits)

lemma log_wf_Cons:
  assumes "log_wf log" and "key_inv now log (le_key e) (Some ks)"
    and "ks_window_started_at ks = Some (le_window e)"
    and "le_window e \<le> le_time e" "le_time e < le_window e + WINDOW"
    and "case le_limit e of None \<Rightarrow> True | Some l \<Rightarrow> ks_requests_in_window ks < l"
  shows "log_wf (e # log)"
proof -
  have "case le_limit e of None \<Rightarrow> True | Some l \<Rightarrow> Suc (window_count log (le_key e) (le_window e)) \<le> unat l"
  proof (cases "le_limit e")
    case (Some l)
    with assms(6) have less: "ks_requests_in_window ks < l" by simp
    then have "ks_requests_in_window ks \<noteq> - 1"
      using word_n1_ge [of l] by (auto simp: not_less [symmetric])
    with assms(2,3) less Some show ?thesis by (auto simp: key_inv_def word_less_nat_alt)
  qed simp
  moreover have "\<forall>f \<in> set log. le_key f = le_key e \<longrightarrow>
      le_window f = le_window e \<or> le_window f + WINDOW \<le> le_window e"
    using assms(2,3) by (auto simp: key_inv_def)
  ultimately show ?thesis using assms(1,4,5) unfolding log_wf_def by auto
qed

lemma drop_lease_window:
  assumes "drop_lease now l st = Some st'"
  shows "hm_get (ad_keys st') i = hm_get (ad_keys st) i \<or>
    (\<exists>ks win. hm_get (ad_keys st) i = Some ks \<and> ks_window_started_at ks = Some win \<and>
       WINDOW < now - win \<and> hm_get (ad_keys st') i = None) \<or>
    (\<exists>ks ks'. hm_get (ad_keys st) i = Some ks \<and> hm_get (ad_keys st') i = Some ks' \<and>
       ks_window_started_at ks' = ks_window_started_at ks \<and>
       ks_requests_in_window ks' = ks_requests_in_window ks)"
  using assms
  by (auto simp: drop_lease_def Let_def hm_get_simps split: if_splits option.splits)

lemma drop_lease_key_inv:
  assumes "drop_lease now l st = Some st'" and "now0 \<le> now"
    and "key_inv now0 log i (hm_get (ad_keys st) i)"
  shows "key_inv now log i (hm_get (ad_keys st') i)"
  using drop_lease_window [OF assms(1), of i]
proof (elim disjE exE conjE)
  fix ks win
  assume *: "hm_get (ad_keys st) i = Some ks" "ks_window_started_at ks = Some win"
    "WINDOW < now - win" "hm_get (ad_keys st') i = None"
  then have "windows_closed now log i"
    using key_inv_closed [of now0 log i ks win now] assms(3) by simp
  with * show ?thesis by (simp add: key_inv_def)
next
  assume "hm_get (ad_keys st') i = hm_get (ad_keys st) i"
  with key_inv_later [OF assms(3,2)] show ?thesis by simp
next
  fix ks ks'
  assume "hm_get (ad_keys st) i = Some ks" "hm_get (ad_keys st') i = Some ks'"
    "ks_window_started_at ks' = ks_window_started_at ks"
    "ks_requests_in_window ks' = ks_requests_in_window ks"
  with key_inv_later [OF assms(3,2)] show ?thesis by (auto simp: key_inv_def split: option.splits)
qed

lemma drop_lease_wf: "drop_lease now l st = Some st' \<Longrightarrow> admission_wf st \<Longrightarrow> admission_wf st'"
  by (auto simp: drop_lease_def admission_wf_def Let_def gw_wf split: if_splits option.splits)

lemma rpm_admit_inv:
  assumes "rpm_inv w" and "rw_now w \<le> now" and adm: "admit now k (rw_state w) = (st', Admitted l)"
    and ks: "hm_get (ad_keys st') (ak_id k) = Some ks" "ks_window_started_at ks = Some win"
  shows "rpm_inv \<lparr>rw_state = st', rw_now = now,
      rw_log = \<lparr>le_time = now, le_key = ak_id k, le_window = win,
                le_limit = ak_requests_per_minute k\<rparr> # rw_log w\<rparr>"
proof -
  let ?e = "\<lparr>le_time = now, le_key = ak_id k, le_window = win, le_limit = ak_requests_per_minute k\<rparr>"
  let ?log = "rw_log w" and ?ko = "pruned now (hm_get (ad_keys (rw_state w)) (ak_id k))"
  let ?op = "open_window now (case ?ko of None \<Rightarrow> key_state_default | Some ks \<Rightarrow> ks)"
  from assms(1) have wf: "admission_wf (rw_state w)" and lw: "log_wf ?log"
    and inv: "\<And>i. key_inv (rw_now w) ?log i (hm_get (ad_keys (rw_state w)) i)"
    by (simp_all add: rpm_inv_def)
  from adm wf obtain ks' where
    ak: "admit_key now k (case ?ko of None \<Rightarrow> key_state_default | Some ks \<Rightarrow> ks) = (ks', Admitted l)" and
    keys: "\<And>i. hm_get (ad_keys st') i =
      (if i = ak_id k then Some ks' else pruned now (hm_get (ad_keys (rw_state w)) i))"
    by (cases rule: admit_cases) auto
  from keys ks have "ks' = ks" by simp
  with admit_key_cases [OF ak] have op: "ks_window_started_at ks = ks_window_started_at ?op"
    "ks_requests_in_window ks = sat_add (ks_requests_in_window ?op) 1"
    "case ak_requests_per_minute k of None \<Rightarrow> True | Some l \<Rightarrow> ks_requests_in_window ?op < l"
    by auto
  have pr: "key_inv now ?log i (pruned now (hm_get (ad_keys (rw_state w)) i))" for i
    unfolding pruned_def using key_inv_prune [OF inv assms(2)] .
  note opi = key_inv_open [OF pr, of "ak_id k"]
  from op(1) ks(2) have opw: "ks_window_started_at ?op = Some win" by simp
  with open_window_started [OF pr, of "ak_id k"] have t: "win \<le> now" "now < win + WINDOW" by auto
  have "log_wf (?e # ?log)"
    by (rule log_wf_Cons [OF lw, where ks = ?op]) (use opi opw t op(3) in simp_all)
  moreover have "key_inv now (?e # ?log) i (hm_get (ad_keys st') i)" for i
  proof (cases "i = ak_id k")
    case True
    with key_inv_log [OF opi opw op(2) ks(2), of ?e] ks(1) show ?thesis by simp
  next
    case False
    with pr [of i] keys [of i] show ?thesis by (simp add: key_inv_log_other)
  qed
  ultimately show ?thesis using admit_wf [OF adm wf] by (simp add: rpm_inv_def)
qed

lemma rpm_step_inv: "rpm_step w w' \<Longrightarrow> rpm_inv w \<Longrightarrow> rpm_inv w'"
proof (induction rule: rpm_step.induct)
  case (rpm_admit w now k st' l ks win)
  then show ?case by (intro rpm_admit_inv)
next
  case (rpm_reject w now k st' out)
  then show ?case
    using admit_wf admit_key_inv_all [OF rpm_reject(2) _ rpm_reject(1)] by (auto simp: rpm_inv_def)
next
  case (rpm_drop w now l st')
  then show ?case
    using drop_lease_wf drop_lease_key_inv [OF rpm_drop(2,1)] by (auto simp: rpm_inv_def)
next
  case (rpm_settle w i amount)
  then show ?case by (simp add: rpm_inv_def record_settled_quota_usage_def admission_wf_def)
qed

lemma rpm_reachable_inv: "rpm_reachable w \<Longrightarrow> rpm_inv w"
proof (induction rule: rpm_reachable.induct)
  case rpm_start
  show ?case
    by (simp add: rpm_inv_def rpm_init_def admission_state_default_def admission_wf_def log_wf_def
        key_inv_def windows_closed_def)
qed (rule rpm_step_inv)

lemma window_count_bound:
  "log_limited log \<Longrightarrow> (\<forall>e \<in> set log. le_key e = i \<longrightarrow> (\<exists>l. le_limit e = Some l \<and> unat l \<le> L)) \<Longrightarrow>
   window_count log i win \<le> L"
  by (induction log) (fastforce simp: window_count_def)+

lemma length_filter_two:
  "(\<And>x. x \<in> set xs \<Longrightarrow> P x \<Longrightarrow> Q x \<or> R x) \<Longrightarrow>
   length (filter P xs) \<le> length (filter Q xs) + length (filter R xs)"
  by (induction xs) (auto simp: le_SucI)

lemma two_windows:
  assumes wf: "log_wf log"
    and "P = (\<lambda>e. le_key e = i \<and> t \<le> le_time e \<and> le_time e < t + WINDOW)"
  shows "\<exists>a b. \<forall>e \<in> set log. P e \<longrightarrow> le_window e = a \<or> le_window e = b"
proof (cases "\<exists>e \<in> set log. P e")
  case False
  then show ?thesis by blast
next
  case True
  define T where "T = le_window ` {e \<in> set log. P e}"
  have fin: "finite T" "T \<noteq> {}" using True by (auto simp: T_def)
  have near: "t < w + WINDOW \<and> w < t + WINDOW" if "w \<in> T" for w
    using that wf assms(2) by (fastforce simp: T_def log_wf_def)
  have apart: "w = v \<or> w + WINDOW \<le> v \<or> v + WINDOW \<le> w" if "w \<in> T" "v \<in> T" for w v
  proof -
    from that obtain e f where "e \<in> set log" "f \<in> set log" "le_key e = le_key f"
      "le_window e = w" "le_window f = v" by (auto simp: T_def assms(2))
    with wf show ?thesis unfolding log_wf_def by blast
  qed
  have "w = Min T \<or> w = Max T" if "w \<in> T" for w
  proof (rule ccontr)
    assume "\<not> ?thesis"
    with that fin have "Min T < w" "w < Max T" by (auto simp: order.not_eq_order_implies_strict)
    with apart [OF that Min_in [OF fin]] apart [OF that Max_in [OF fin]]
      near [OF Min_in [OF fin]] near [OF Max_in [OF fin]] show False by linarith
  qed
  then show ?thesis unfolding T_def by blast
qed

text \<open>C7. Rate limiting holds in every run with a monotone clock, whatever is interleaved and
  however states are pruned and recreated: if every admission of a key had a limit of at most
  \<open>L\<close> requests per minute, then in any period of sixty seconds at most \<open>2 * L\<close> of
  its requests are admitted, and at most \<open>L\<close> of them are counted in the same window.\<close>

theorem rpm_bound:
  assumes "rpm_reachable w"
    and "\<forall>e \<in> set (rw_log w). le_key e = i \<longrightarrow> (\<exists>l. le_limit e = Some l \<and> unat l \<le> L)"
  shows "length (filter (\<lambda>e. le_key e = i \<and> t \<le> le_time e \<and> le_time e < t + WINDOW) (rw_log w)) \<le> 2 * L \<and>
    length (filter (\<lambda>e. le_key e = i \<and> le_window e = win) (rw_log w)) \<le> L"
proof -
  from rpm_reachable_inv [OF assms(1)] have wf: "log_wf (rw_log w)" by (simp add: rpm_inv_def)
  then have "log_limited (rw_log w)" by (simp add: log_wf_def)
  from window_count_bound [OF this assms(2)]
  have one: "length (filter (\<lambda>e. le_key e = i \<and> le_window e = win) (rw_log w)) \<le> L" for win
    by (simp add: window_count_def)
  from two_windows [OF wf refl, of i t] obtain a b where
    ab: "\<And>e. e \<in> set (rw_log w) \<Longrightarrow> le_key e = i \<and> t \<le> le_time e \<and> le_time e < t + WINDOW \<Longrightarrow>
      le_window e = a \<or> le_window e = b" by blast
  have "length (filter (\<lambda>e. le_key e = i \<and> t \<le> le_time e \<and> le_time e < t + WINDOW) (rw_log w)) \<le>
      length (filter (\<lambda>e. le_key e = i \<and> le_window e = a) (rw_log w)) +
      length (filter (\<lambda>e. le_key e = i \<and> le_window e = b) (rw_log w))"
    by (rule length_filter_two) (use ab in blast)
  with one [of a] one [of b] have
    "length (filter (\<lambda>e. le_key e = i \<and> t \<le> le_time e \<and> le_time e < t + WINDOW) (rw_log w)) \<le> 2 * L"
    by linarith
  with one [of win] show ?thesis by simp
qed

section \<open>Retry hints, pruning and quota\<close>

lemma retry_after_bounds:
  assumes "now < reset" and "reset \<le> now + WINDOW"
  shows "1 \<le> retry_after now reset \<and> retry_after now reset \<le> 60 \<and>
    reset \<le> now + from_secs (retry_after now reset)"
proof -
  define d where "d = reset - now"
  have d: "0 < d" "d \<le> 60 * 1000000000"
    using assms by (auto simp: d_def WINDOW_def from_secs_def nanos_per_sec_def)
  define q where "q = d div 1000000000"
  define m where "m = d mod 1000000000"
  have dq: "d = q * 1000000000 + m" by (simp add: q_def m_def)
  have r: "retry_after now reset = q + (if m \<noteq> 0 then 1 else 0)"
    by (simp add: retry_after_def as_secs_def subsec_nanos_def nanos_per_sec_def Let_def d_def q_def m_def)
  have m: "m < 1000000000" by (simp add: m_def)
  have "reset = now + d" using assms(1) by (simp add: d_def)
  with d m dq show ?thesis
    unfolding r from_secs_def nanos_per_sec_def by (cases "m = 0") auto
qed

lemma open_window_expired:
  "WINDOW \<le> later - win \<Longrightarrow> ks_window_started_at ks = Some win \<Longrightarrow>
   ks_requests_in_window (open_window later ks) = 0"
  by (simp add: open_window_def)

lemma admit_key_not_rate_limited:
  "ks_requests_in_window (open_window now ks) < l \<Longrightarrow> ak_requests_per_minute k = Some l \<Longrightarrow>
   snd (admit_key now k ks) \<noteq> AdmissionRejected (RateLimited r)"
  by (auto simp: admit_key_def Let_def)

lemma admit_key_rate_limited:
  assumes "admit_key now k ks0 = (ks, AdmissionRejected (RateLimited r))"
  shows "ks = open_window now ks0 \<and>
    (\<exists>win. ks_window_started_at ks = Some win \<and> r = retry_after now (win + WINDOW))"
  using assms
  by (auto simp: admit_key_def Let_def duration_add_def split: if_splits option.splits)

text \<open>C8. The retry hint of a rate rejection is honest: in every run it lies between 1 and 60
  seconds, and a request of the same key made at least that many seconds later, with nothing in
  between, is not refused for its rate (for a limit of at least one request).\<close>

theorem retry_after_is_sufficient:
  assumes "rpm_reachable w" and "rw_now w \<le> now"
    and "admit now k (rw_state w) = (st', AdmissionRejected (RateLimited r))"
    and "ak_requests_per_minute k = Some l" and "0 < l"
  shows "1 \<le> r \<and> r \<le> 60 \<and>
    (\<forall>later \<ge> now + from_secs r. \<forall>r'. snd (admit later k st') \<noteq> AdmissionRejected (RateLimited r'))"
proof -
  let ?ko = "pruned now (hm_get (ad_keys (rw_state w)) (ak_id k))"
  from rpm_reachable_inv [OF assms(1)] have wf: "admission_wf (rw_state w)"
    and inv: "key_inv (rw_now w) (rw_log w) (ak_id k) (hm_get (ad_keys (rw_state w)) (ak_id k))"
    by (simp_all add: rpm_inv_def)
  from key_inv_prune [OF inv assms(2)] have pr: "key_inv now (rw_log w) (ak_id k) ?ko"
    by (simp add: pruned_def)
  from assms(3) wf obtain ks where
    ak: "admit_key now k (case ?ko of None \<Rightarrow> key_state_default | Some ks \<Rightarrow> ks) =
      (ks, AdmissionRejected (RateLimited r))" and
    ks: "hm_get (ad_keys st') (ak_id k) = Some ks"
    by (cases rule: admit_cases) auto
  from admit_key_rate_limited [OF ak] open_window_started [OF pr] obtain win where
    win: "ks_window_started_at ks = Some win" "win \<le> now" "now < win + WINDOW"
    and r: "r = retry_after now (win + WINDOW)" by auto
  from retry_after_bounds [of now "win + WINDOW"] win r
  have hint: "1 \<le> r" "r \<le> 60" "win + WINDOW \<le> now + from_secs r" by auto
  have "snd (admit later k st') \<noteq> AdmissionRejected (RateLimited r')"
    if "now + from_secs r \<le> later" for later r'
  proof -
    have exp: "WINDOW \<le> later - win" using that hint(3) by linarith
    have zero: "ks_requests_in_window (open_window later
        (case pruned later (Some ks) of None \<Rightarrow> key_state_default | Some ks \<Rightarrow> ks)) = 0"
      using open_window_expired [OF exp win(1)]
      by (auto simp: pruned_def open_window_def key_state_default_def)
    obtain st'' out where ad: "admit later k st' = (st'', out)" by fastforce
    from ad admit_wf [OF assms(3) wf] show ?thesis
    proof (cases rule: admit_cases)
      case (decided ks')
      then show ?thesis
        using admit_key_not_rate_limited [OF _ assms(4)] zero assms(5) ad ks by (metis snd_conv)
    qed (simp add: ad)
  qed
  with hint show ?thesis by blast
qed

text \<open>The reference machine never forgets a key.\<close>

definition admit_unpruned ::
  "duration \<Rightarrow> ('d::linorder) compiled_api_key \<Rightarrow> 'd admission_state \<Rightarrow>
   'd admission_state \<times> admission_outcome" where
  "admit_unpruned now k st =
     (if quota_exhausted_at k (settled_quota k st) then (st, AdmissionRejected InsufficientQuota)
      else
        (let ks0 = (case hm_get (ad_keys st) (ak_id k) of None \<Rightarrow> key_state_default | Some ks \<Rightarrow> ks);
             (ks, out) = admit_key now k ks0
         in (st\<lparr>ad_keys := hm_insert (ak_id k) ks (ad_keys st)\<rparr>, out)))"

definition drop_unpruned :: "uuid \<Rightarrow> 'd admission_state \<Rightarrow> 'd admission_state" where
  "drop_unpruned i st =
     (case hm_get (ad_keys st) i of
        None \<Rightarrow> st
      | Some ks \<Rightarrow> st\<lparr>ad_keys := hm_insert i (ks\<lparr>ks_in_flight := sat_sub (ks_in_flight ks) 1\<rparr>) (ad_keys st)\<rparr>)"

datatype 'd admission_op =
    OpAdmit duration "'d compiled_api_key" | OpDrop duration uuid | OpSettle duration uuid 'd

primrec op_time :: "'d admission_op \<Rightarrow> duration" where
  "op_time (OpAdmit now _) = now"
| "op_time (OpDrop now _) = now"
| "op_time (OpSettle now _ _) = now"

fun run_ops :: "('d::linorder) admission_op list \<Rightarrow> 'd admission_state \<Rightarrow> admission_outcome list option" where
  "run_ops [] st = Some []"
| "run_ops (OpAdmit now k # ops) st =
     (let (st', out) = admit now k st in map_option ((#) out) (run_ops ops st'))"
| "run_ops (OpDrop now i # ops) st =
     (case drop_lease now \<lparr>al_key_id = i, al_released = False\<rparr> st of
        None \<Rightarrow> None | Some st' \<Rightarrow> run_ops ops st')"
| "run_ops (OpSettle _ i amount # ops) st = run_ops ops (record_settled_quota_usage i amount st)"

fun run_unpruned :: "('d::linorder) admission_op list \<Rightarrow> 'd admission_state \<Rightarrow> admission_outcome list" where
  "run_unpruned [] st = []"
| "run_unpruned (OpAdmit now k # ops) st =
     (let (st', out) = admit_unpruned now k st in out # run_unpruned ops st')"
| "run_unpruned (OpDrop now i # ops) st = run_unpruned ops (drop_unpruned i st)"
| "run_unpruned (OpSettle _ i amount # ops) st =
     run_unpruned ops (record_settled_quota_usage i amount st)"

definition same_live :: "duration \<Rightarrow> 'd admission_state \<Rightarrow> 'd admission_state \<Rightarrow> bool" where
  "same_live now a b \<longleftrightarrow> admission_wf a \<and> ad_settled_quota_used a = ad_settled_quota_used b \<and>
     (\<forall>i. pruned now (hm_get (ad_keys a) i) = pruned now (hm_get (ad_keys b) i))"

lemma pruned_later: "now \<le> later \<Longrightarrow> pruned later (pruned now ko) = pruned later ko"
  by (auto simp: pruned_def key_retained_def split: option.splits)

lemma same_live_later:
  assumes "same_live now a b" and "now \<le> later"
  shows "same_live later a b"
proof -
  have "pruned later (hm_get (ad_keys a) i) = pruned later (hm_get (ad_keys b) i)" for i
    using assms pruned_later [OF assms(2), of "hm_get (ad_keys a) i"]
      pruned_later [OF assms(2), of "hm_get (ad_keys b) i"] by (simp add: same_live_def)
  with assms(1) show ?thesis by (simp add: same_live_def)
qed

lemma pruned_open_window:
  "open_window now (case pruned now ko of None \<Rightarrow> key_state_default | Some ks \<Rightarrow> ks) =
   open_window now (case ko of None \<Rightarrow> key_state_default | Some ks \<Rightarrow> ks)"
  by (auto simp: pruned_def key_retained_def open_window_def key_state_default_def word_gt_0
      split: option.splits)

lemma admit_key_open: "open_window now a = open_window now b \<Longrightarrow> admit_key now k a = admit_key now k b"
  by (simp add: admit_key_def)

lemma pruned_idem: "pruned now (pruned now ko) = pruned now ko"
  by (simp add: pruned_later)

lemma admit_same_live:
  assumes "same_live now a b" and "admit now k a = (a', out)" and "admit_unpruned now k b = (b', out')"
  shows "out = out' \<and> same_live now a' b'"
proof -
  have wf: "admission_wf a" and settled: "ad_settled_quota_used a = ad_settled_quota_used b"
    and live: "pruned now (hm_get (ad_keys a) i) = pruned now (hm_get (ad_keys b) i)" for i
    using assms(1) by (simp_all add: same_live_def)
  let ?a = "a\<lparr>ad_keys := hm_retain (\<lambda>_. key_retained now) (ad_keys a)\<rparr>"
  have get: "hm_get (ad_keys ?a) i = pruned now (hm_get (ad_keys a) i)" for i
    using wf by (simp add: pruned_def admission_wf_def hm_get_retain)
  have q: "settled_quota k ?a = settled_quota k b" by (simp add: settled_quota_def settled)
  have key: "admit_key now k (case hm_get (ad_keys ?a) (ak_id k) of None \<Rightarrow> key_state_default | Some ks \<Rightarrow> ks) =
      admit_key now k (case hm_get (ad_keys b) (ak_id k) of None \<Rightarrow> key_state_default | Some ks \<Rightarrow> ks)"
    unfolding get live by (rule admit_key_open) (rule pruned_open_window)
  have wf': "admission_wf a'" using admit_wf [OF assms(2) wf] .
  show ?thesis
  proof (cases "quota_exhausted_at k (settled_quota k b)")
    case True
    with assms(2,3) q have "a' = ?a" "b' = b" "out = out'"
      by (simp_all add: admit_def admit_unpruned_def Let_def)
    with wf' settled get live show ?thesis by (simp add: same_live_def pruned_idem)
  next
    case False
    obtain ks o' where ks: "admit_key now k (case hm_get (ad_keys b) (ak_id k) of
        None \<Rightarrow> key_state_default | Some ks \<Rightarrow> ks) = (ks, o')" by fastforce
    with False assms(2,3) q key
    have a': "a' = ?a\<lparr>ad_keys := hm_insert (ak_id k) ks (ad_keys ?a)\<rparr>"
      and b': "b' = b\<lparr>ad_keys := hm_insert (ak_id k) ks (ad_keys b)\<rparr>" and "out = out'"
      by (simp_all add: admit_def admit_unpruned_def Let_def)
    with wf' settled get live show ?thesis
      by (simp add: same_live_def hm_get_insert pruned_idem)
  qed
qed

lemma pruned_SomeD: "pruned now ko = Some ks \<Longrightarrow> ko = Some ks"
  by (auto simp: pruned_def split: option.splits if_splits)

lemma not_retained_dec:
  "\<not> key_retained now ks \<Longrightarrow> \<not> key_retained now (ks\<lparr>ks_in_flight := sat_sub (ks_in_flight ks) 1\<rparr>)"
  by (auto simp: key_retained_def word_gt_0 sat_sub_def split: option.splits)

lemma drop_same_live:
  assumes "same_live now a b" and "drop_lease now \<lparr>al_key_id = i, al_released = False\<rparr> a = Some a'"
  shows "same_live now a' (drop_unpruned i b)"
proof -
  have wf: "admission_wf a" and settled: "ad_settled_quota_used a = ad_settled_quota_used b"
    and live: "pruned now (hm_get (ad_keys a) j) = pruned now (hm_get (ad_keys b) j)" for j
    using assms(1) by (simp_all add: same_live_def)
  from assms(2) obtain ks where ks: "hm_get (ad_keys a) i = Some ks"
    by (auto simp: drop_lease_def split: option.splits)
  define dec where "dec s = s\<lparr>ks_in_flight := sat_sub (ks_in_flight s) 1\<rparr>" for s :: key_state
  let ?keys = "hm_insert i (dec ks) (ad_keys a)"
  have a': "a' = a\<lparr>ad_keys := ?keys\<rparr> \<or>
      (\<not> key_retained now (dec ks) \<and> a' = a\<lparr>ad_keys := hm_remove i ?keys\<rparr>)"
  proof (cases "ks_in_flight (dec ks) = 0 \<and>
      (case ks_window_started_at (dec ks) of None \<Rightarrow> False | Some s \<Rightarrow> WINDOW < now - s)")
    case True
    then have "\<not> key_retained now (dec ks)" by (auto simp: key_retained_def split: option.splits)
    moreover have "a' = a\<lparr>ad_keys := hm_remove i ?keys\<rparr>"
      using assms(2) ks True by (simp add: drop_lease_def Let_def dec_def)
    ultimately show ?thesis by simp
  next
    case False
    then have "a' = a\<lparr>ad_keys := ?keys\<rparr>"
      using assms(2) ks by (simp add: drop_lease_def Let_def dec_def split: if_splits)
    then show ?thesis by simp
  qed
  have ai: "pruned now (hm_get (ad_keys a') i) = pruned now (Some (dec ks))"
    using a' by (auto simp: hm_get_simps pruned_def)
  moreover have aj: "j \<noteq> i \<Longrightarrow> hm_get (ad_keys a') j = hm_get (ad_keys a) j"
    and "ad_settled_quota_used a' = ad_settled_quota_used a" for j
    using a' by (auto simp: hm_get_simps)
  moreover have "ad_settled_quota_used (drop_unpruned i b) = ad_settled_quota_used b"
    and "hm_get (ad_keys (drop_unpruned i b)) j =
      (if j = i then map_option dec (hm_get (ad_keys b) i) else hm_get (ad_keys b) j)" for j
    by (simp_all add: drop_unpruned_def hm_get_insert dec_def split: option.splits)
  moreover have "pruned now (Some (dec ks)) = pruned now (map_option dec (hm_get (ad_keys b) i))"
  proof (cases "key_retained now ks")
    case True
    then have "pruned now (hm_get (ad_keys a) i) = Some ks" by (simp add: pruned_def ks)
    then have "hm_get (ad_keys b) i = Some ks" unfolding live by (rule pruned_SomeD)
    then show ?thesis by simp
  next
    case False
    then have "pruned now (hm_get (ad_keys a) i) = None" by (simp add: pruned_def ks)
    then have "pruned now (hm_get (ad_keys b) i) = None" unfolding live .
    then have "pruned now (map_option dec (hm_get (ad_keys b) i)) = None"
      using not_retained_dec [of now]
      by (cases "hm_get (ad_keys b) i") (simp_all add: pruned_def dec_def split: if_splits)
    with not_retained_dec [OF False] show ?thesis by (simp add: pruned_def dec_def)
  qed
  ultimately show ?thesis
    using drop_lease_wf [OF assms(2) wf] settled live by (simp add: same_live_def)
qed

lemma settle_same_live:
  "same_live now a b \<Longrightarrow>
   same_live now (record_settled_quota_usage i x a) (record_settled_quota_usage i x b)"
  by (simp add: same_live_def record_settled_quota_usage_def admission_wf_def)

lemma run_same_live:
  "same_live now a b \<Longrightarrow> sorted_wrt (\<le>) (now # map op_time ops) \<Longrightarrow> run_ops ops a = Some outs \<Longrightarrow>
   outs = run_unpruned ops b"
proof (induction ops arbitrary: now a b outs)
  case (Cons op ops)
  then have "now \<le> op_time op" and srt: "sorted_wrt (\<le>) (op_time op # map op_time ops)" by auto
  with Cons.prems(1) have sim: "same_live (op_time op) a b" by (auto intro: same_live_later)
  show ?case
  proof (cases op)
    case (OpAdmit t k)
    obtain a' out where a': "admit t k a = (a', out)" by fastforce
    obtain b' out' where b': "admit_unpruned t k b = (b', out')" by fastforce
    from sim OpAdmit have "same_live t a b" by simp
    from admit_same_live [OF this a' b'] have "out = out'" "same_live t a' b'" by simp_all
    from Cons.prems(3) OpAdmit a' obtain rest where
      rest: "run_ops ops a' = Some rest" "outs = out # rest" by auto
    have "rest = run_unpruned ops b'"
      by (rule Cons.IH [of t a']) (use srt OpAdmit rest(1) \<open>same_live t a' b'\<close> in simp_all)
    with rest(2) b' \<open>out = out'\<close> show ?thesis by (simp add: OpAdmit)
  next
    case (OpDrop t i)
    with Cons.prems(3) obtain a' where a': "drop_lease t \<lparr>al_key_id = i, al_released = False\<rparr> a = Some a'"
      "run_ops ops a' = Some outs" by (auto split: option.splits)
    from sim OpDrop have "same_live t a b" by simp
    from drop_same_live [OF this a'(1)] have "outs = run_unpruned ops (drop_unpruned i b)"
      by (rule Cons.IH [of t a']) (use srt OpDrop a'(2) in simp_all)
    then show ?thesis by (simp add: OpDrop)
  next
    case (OpSettle t i x)
    from settle_same_live [OF sim, of i x] have "outs = run_unpruned ops (record_settled_quota_usage i x b)"
      by (rule Cons.IH) (use srt OpSettle Cons.prems(3) in simp_all)
    then show ?thesis by (simp add: OpSettle)
  qed
qed simp

text \<open>C9. Pruning expired key states is invisible: on every sequence of admissions, lease drops and
  settlements in clock order, the outcomes are those of a gateway that keeps every key state
  forever.\<close>

theorem pruning_is_invisible:
  assumes "sorted (map op_time ops)" and "run_ops ops admission_state_default = Some outs"
  shows "outs = run_unpruned ops admission_state_default"
proof (rule run_same_live [OF _ _ assms(2)])
  show "same_live 0 admission_state_default admission_state_default"
    by (simp add: same_live_def admission_state_default_def admission_wf_def)
  show "sorted_wrt (\<le>) (0 # map op_time ops)" using assms(1) by simp
qed

lemma settled_after_step:
  "rpm_step w w' \<Longrightarrow> hm_get (ad_settled_quota_used (rw_state w)) i = Some a \<Longrightarrow>
   \<exists>b \<ge> a. hm_get (ad_settled_quota_used (rw_state w')) i = Some b"
proof (induction rule: rpm_step.induct)
  case (rpm_settle w j amount)
  then show ?case by (auto simp: record_settled_quota_usage_def hm_get_insert)
next
  case (rpm_drop w now l st')
  then show ?case by (auto simp: drop_lease_def Let_def split: if_splits option.splits)
qed (auto simp: admit_def Let_def split: if_splits prod.splits)

lemma settled_after_steps:
  "rpm_step\<^sup>*\<^sup>* w w' \<Longrightarrow> hm_get (ad_settled_quota_used (rw_state w)) i = Some a \<Longrightarrow>
   \<exists>b \<ge> a. hm_get (ad_settled_quota_used (rw_state w')) i = Some b"
proof (induction rule: rtranclp_induct)
  case (step y z)
  then obtain b where b: "a \<le> b" "hm_get (ad_settled_quota_used (rw_state y)) i = Some b" by blast
  from settled_after_step [OF step(2) b(2)] b(1) show ?case by (blast intro: order.trans)
qed auto

lemma admit_quota_iff:
  "snd (admit now k st) = AdmissionRejected InsufficientQuota \<longleftrightarrow> quota_exhausted_at k (settled_quota k st)"
proof -
  have "snd (admit_key now k ks) \<noteq> AdmissionRejected InsufficientQuota" for ks
    by (simp add: admit_key_def Let_def split: option.splits)
  then show ?thesis
    by (simp add: admit_def Let_def settled_quota_def split: prod.splits) (metis snd_conv)
qed

text \<open>C10. The quota check rejects exactly the keys whose settled usage (the larger of the
  published total and the total in the key's snapshot) has reached the limit, before any rate or
  concurrency decision; and a published total is never lost: once it has reached the limit of a
  key, every later request of that key is rejected, whatever happens in between.\<close>

theorem settled_quota_is_sticky:
  "(snd (admit now k st) = AdmissionRejected InsufficientQuota \<longleftrightarrow>
     (\<exists>q. ak_quota_limit_amount k = Some q \<and>
       (q \<le> ak_quota_used_amount k \<or>
        (\<exists>u. hm_get (ad_settled_quota_used st) (ak_id k) = Some u \<and> q \<le> u)))) \<and>
   (rpm_step\<^sup>*\<^sup>* w w' \<and> hm_get (ad_settled_quota_used (rw_state w)) (ak_id k) = Some a \<and>
    ak_quota_limit_amount k = Some q \<and> q \<le> a \<longrightarrow>
    snd (admit now k (rw_state w')) = AdmissionRejected InsufficientQuota)"
proof -
  have iff: "snd (admit now k st) = AdmissionRejected InsufficientQuota \<longleftrightarrow>
     (\<exists>q. ak_quota_limit_amount k = Some q \<and>
       (q \<le> ak_quota_used_amount k \<or>
        (\<exists>u. hm_get (ad_settled_quota_used st) (ak_id k) = Some u \<and> q \<le> u)))" for st
    by (auto simp: admit_quota_iff quota_exhausted_at_def settled_quota_def le_max_iff_disj
        split: option.splits)
  then show ?thesis using settled_after_steps [of w w' "ak_id k" a] by (auto dest: order.trans)
qed

section \<open>Concrete runs\<close>

lemmas admission_eval = admit_def admit_key_def admission_state_default_def key_state_default_def
  open_window_def key_retained_def settled_quota_def quota_exhausted_at_def sample_key_def
  hm_retain_def hm_get_def hm_insert_def sat_add_def WINDOW_def from_secs_def nanos_per_sec_def Let_def

definition sample_admitted :: "int admission_state" where
  "sample_admitted =
     \<lparr>ad_keys = [(1, \<lparr>ks_window_started_at = Some 0, ks_requests_in_window = 1, ks_in_flight = 1\<rparr>)],
      ad_settled_quota_used = []\<rparr>"

lemma sample_admit:
  "admit 0 (sample_key\<lparr>ak_requests_per_minute := r, ak_max_concurrent_requests := c\<rparr>) admission_state_default =
     (sample_admitted, Admitted \<lparr>al_key_id = 1, al_released = False\<rparr>)"
  if "r = None \<or> r = Some 1 \<or> r = Some 2" and "c = None \<or> c = Some 1"
  using that by (auto simp: admission_eval sample_admitted_def)

lemma sample_key_self:
  "sample_key\<lparr>ak_requests_per_minute := Some 2, ak_max_concurrent_requests := Some 1\<rparr> = sample_key"
  by (simp add: sample_key_def)

lemma sample_lease_run:
  "lease_run admission_acquired admission_released admission_other (2 ^ 32 - 1)
     admission_state_default sample_admitted {#1#}"
  by (rule lease_run.run_acquire [OF lease_run.run_init])
    (use sample_admit [of "Some 2" "Some 1"] in
      \<open>auto simp: admission_acquired_def sample_key_self intro!: exI [of _ 0] exI [of _ sample_key]
        simp: sample_key_def\<close>)

theorem admission_lease_accounting_witness:
  "(case hm_get (ad_keys sample_admitted) 1 of None \<Rightarrow> 0 | Some ks \<Rightarrow> unat (ks_in_flight ks)) =
     count {#1#} (1 :: uuid) \<and>
   drop_lease 7 \<lparr>al_key_id = 1, al_released = False\<rparr> sample_admitted \<noteq> None"
  using admission_lease_accounting [OF sample_lease_run] by simp

theorem admission_concurrency_bound_witness:
  "admit 0 sample_key admission_state_default =
     (sample_admitted, Admitted \<lparr>al_key_id = 1, al_released = False\<rparr>) \<and>
   count (add_mset 1 {#}) (ak_id sample_key) \<le> unat (1 :: u32)"
proof -
  have "ak_max_concurrent_requests sample_key = Some 1" by (simp add: sample_key_def)
  from admission_concurrency_bound [OF lease_run.run_init this]
    sample_admit [of "Some 2" "Some 1", unfolded sample_key_self]
  show ?thesis by simp
qed

definition sample_world :: "u32 option \<Rightarrow> int rpm_world" where
  "sample_world r =
     \<lparr>rw_state = sample_admitted, rw_now = 0,
      rw_log = [\<lparr>le_time = 0, le_key = 1, le_window = 0, le_limit = r\<rparr>]\<rparr>"

lemma sample_world_reachable:
  assumes "r = Some 1 \<or> r = Some 2"
  shows "rpm_reachable (sample_world r)"
proof (rule rpm_reachable.rpm_next [OF rpm_reachable.rpm_start])
  let ?k = "sample_key\<lparr>ak_requests_per_minute := r, ak_max_concurrent_requests := None\<rparr>"
  from assms sample_admit [of r None]
  have ad: "admit 0 ?k (rw_state rpm_init) = (sample_admitted, Admitted \<lparr>al_key_id = 1, al_released = False\<rparr>)"
    by (auto simp: rpm_init_def)
  have ks: "hm_get (ad_keys sample_admitted) (ak_id ?k) = Some \<lparr>ks_window_started_at = Some 0,
      ks_requests_in_window = 1, ks_in_flight = 1\<rparr>"
    by (simp add: sample_admitted_def hm_get_def sample_key_def)
  from rpm_step.rpm_admit [OF _ ad ks, of 0] show "rpm_step rpm_init (sample_world r)"
    by (simp add: sample_world_def sample_key_def rpm_init_def)
qed

theorem rpm_bound_witness:
  "length (filter (\<lambda>e. le_key e = 1 \<and> 0 \<le> le_time e \<and> le_time e < 0 + WINDOW)
     (rw_log (sample_world (Some 2)))) \<le> 2 * 2"
  using rpm_bound [OF sample_world_reachable [of "Some 2"], of 1 2 0 0]
  by (simp add: sample_world_def)

theorem retry_after_is_sufficient_witness:
  "snd (admit 0 (sample_key\<lparr>ak_requests_per_minute := Some 1\<rparr>) sample_admitted) =
     AdmissionRejected (RateLimited 60) \<and>
   (\<forall>r'. snd (admit (from_secs 60) (sample_key\<lparr>ak_requests_per_minute := Some 1\<rparr>) sample_admitted) \<noteq>
     AdmissionRejected (RateLimited r'))"
proof -
  let ?k = "sample_key\<lparr>ak_requests_per_minute := Some 1\<rparr>"
  have ad: "admit 0 ?k sample_admitted = (sample_admitted, AdmissionRejected (RateLimited 60))"
    by (simp add: admission_eval sample_admitted_def duration_add_def duration_max_def retry_after_def
        as_secs_def subsec_nanos_def)
  with retry_after_is_sufficient [OF sample_world_reachable [of "Some 1"], of 0 ?k sample_admitted 60 1]
  show ?thesis by (simp add: sample_world_def)
qed

theorem pruning_is_invisible_witness:
  "run_ops [OpAdmit 0 sample_key, OpDrop 5 1, OpAdmit (from_secs 61) sample_key] admission_state_default =
   Some (run_unpruned [OpAdmit 0 sample_key, OpDrop 5 1, OpAdmit (from_secs 61) sample_key]
     admission_state_default)"
proof -
  let ?ops = "[OpAdmit 0 sample_key, OpDrop 5 1, OpAdmit (from_secs 61) sample_key]"
  have srt: "sorted (map op_time ?ops)" by (simp add: from_secs_def nanos_per_sec_def)
  have "\<exists>outs. run_ops ?ops admission_state_default = Some outs"
    by (simp add: admission_eval drop_lease_def split: prod.splits)
  with pruning_is_invisible [OF srt] show ?thesis by blast
qed

theorem settled_quota_is_sticky_witness:
  "snd (admit 9 sample_key (rw_state
     (rpm_init\<lparr>rw_state := record_settled_quota_usage 1 12 admission_state_default\<rparr>))) =
     AdmissionRejected InsufficientQuota"
  using settled_quota_is_sticky [of 9 sample_key admission_state_default
      "rpm_init\<lparr>rw_state := record_settled_quota_usage 1 12 admission_state_default\<rparr>"
      "rpm_init\<lparr>rw_state := record_settled_quota_usage 1 12 admission_state_default\<rparr>" 12 10]
  by (simp add: record_settled_quota_usage_def hm_get_insert sample_key_def admission_state_default_def)

end
