(* ===== verification/Affinity_Cache.thy ===== *)
theory Affinity_Cache
  imports Domain "HOL-Library.List_Lexorder" "HOL-Library.Char_ord"
begin

text \<open>
  The session-affinity cache of \<^verbatim>\<open>src/routing/mod.rs\<close>: a bounded map from a session to the
  candidate that served it last, with an expiry per entry and a recency queue that decides what
  to evict. Every operation runs under the cache's mutex and is one function on
  \<open>affinity_state\<close>; \<open>now\<close> is what the clock returned.

  The queue holds a record (key, generation) per store. A record is \<^emph>\<open>live\<close> when the entry
  of its key still has that generation; the others are left behind by later stores and removals
  and are dropped when the queue is rebuilt. \<open>lru_list\<close> is the abstract value: the
  entries from the least to the most recently stored.
\<close>

section \<open>State\<close>

type_synonym digest32 = "u8 list"

record affinity_cache_key =
  ac_rule_fingerprint :: digest32
  ac_api_key_id :: uuid
  ac_model_rule_id :: uuid
  ac_session_hash :: digest32

record route_candidate_identity =
  rci_channel_id :: uuid
  rci_upstream_model :: string

record affinity_entry =
  ae_candidate :: route_candidate_identity
  ae_expires_at :: duration
  ae_generation :: u64

record affinity_state =
  af_enabled :: bool
  af_max_entries :: nat
  af_active_rules :: "(digest32, string) hmap"
  af_entries :: "(affinity_cache_key, affinity_entry) hmap"
  af_recency :: "(affinity_cache_key \<times> u64) list"
  af_next_generation :: u64

definition affinity_state_default :: affinity_state where
  "affinity_state_default =
     \<lparr>af_enabled = False, af_max_entries = 0, af_active_rules = [], af_entries = [],
      af_recency = [], af_next_generation = 0\<rparr>"

record affinity_binding =
  ab_key :: affinity_cache_key
  ab_ttl :: duration
  ab_candidate :: route_candidate_identity
  ab_cache_hit :: bool

section \<open>Operations\<close>

definition rule_active :: "affinity_state \<Rightarrow> affinity_cache_key \<Rightarrow> bool" where
  "rule_active st k \<longleftrightarrow> hm_get (af_active_rules st) (ac_rule_fingerprint k) \<noteq> None"

definition affinity_lookup ::
  "duration \<Rightarrow> affinity_cache_key \<Rightarrow> affinity_state \<Rightarrow> affinity_state \<times> route_candidate_identity option" where
  "affinity_lookup now k st =
     (if \<not> af_enabled st \<or> \<not> rule_active st k then (st, None)
      else case hm_get (af_entries st) k of
             None \<Rightarrow> (st, None)
           | Some e \<Rightarrow>
              if ae_expires_at e \<le> now then (st\<lparr>af_entries := hm_remove k (af_entries st)\<rparr>, None)
              else (st, Some (ae_candidate e)))"

function (sequential) trim_affinity_state :: "affinity_state \<Rightarrow> affinity_state" where
  "trim_affinity_state st =
     (if af_max_entries st < hm_len (af_entries st) then
        (case af_recency st of
           [] \<Rightarrow>
             (case af_entries st of
                [] \<Rightarrow> st
              | (k, _) # _ \<Rightarrow> trim_affinity_state (st\<lparr>af_entries := hm_remove k (af_entries st)\<rparr>))
         | (k, g) # rest \<Rightarrow>
             (case hm_get (af_entries st) k of
                None \<Rightarrow> trim_affinity_state (st\<lparr>af_recency := rest\<rparr>)
              | Some e \<Rightarrow>
                  if ae_generation e = g
                  then trim_affinity_state (st\<lparr>af_recency := rest, af_entries := hm_remove k (af_entries st)\<rparr>)
                  else trim_affinity_state (st\<lparr>af_recency := rest\<rparr>)))
      else st)"
  by pat_completeness auto

lemma hm_remove_length_le: "length (hm_remove k m) \<le> length m"
  by (simp add: hm_remove_def length_delete_le)

lemma hm_remove_hd: "length (hm_remove k ((k, v) # m)) \<le> length m"
  using hm_remove_length_le [of k m] by (simp add: hm_remove_def)

termination trim_affinity_state
  by (relation "measure (\<lambda>st. length (af_recency st) + length (af_entries st))")
    (auto simp: less_Suc_eq_le hm_remove_length_le hm_remove_hd)

declare trim_affinity_state.simps [simp del]

definition rebuild_affinity_recency :: "affinity_state \<Rightarrow> affinity_state" where
  "rebuild_affinity_recency st =
     st\<lparr>af_recency := sort_key snd (map (\<lambda>(k, e). (k, ae_generation e)) (af_entries st))\<rparr>"

definition compact_affinity_recency :: "affinity_state \<Rightarrow> affinity_state" where
  "compact_affinity_recency st =
     (if length (af_recency st) \<le> hm_len (af_entries st) * 4 + 1024 then st
      else rebuild_affinity_recency st)"

text \<open>\<open>None\<close>: the addition of the time to live to the clock panics.\<close>

definition affinity_store :: "duration \<Rightarrow> affinity_binding \<Rightarrow> affinity_state \<Rightarrow> affinity_state option" where
  "affinity_store now b st =
     (if \<not> af_enabled st \<or> af_max_entries st = 0 \<or> \<not> rule_active st (ab_key b) then Some st
      else
        (let g = max (af_next_generation st + 1) 1
         in case duration_add now (ab_ttl b) of
              None \<Rightarrow> None
            | Some expires \<Rightarrow>
                Some (compact_affinity_recency (trim_affinity_state
                  (st\<lparr>af_next_generation := g,
                      af_entries := hm_insert (ab_key b)
                        \<lparr>ae_candidate = ab_candidate b, ae_expires_at = expires, ae_generation = g\<rparr>
                        (af_entries st),
                      af_recency := af_recency st @ [(ab_key b, g)]\<rparr>)))))"

definition affinity_remove_if_candidate ::
  "affinity_cache_key \<Rightarrow> route_candidate_identity \<Rightarrow> affinity_state \<Rightarrow> affinity_state" where
  "affinity_remove_if_candidate k expected st =
     (case hm_get (af_entries st) k of
        None \<Rightarrow> st
      | Some e \<Rightarrow> if ae_candidate e = expected
                 then st\<lparr>af_entries := hm_remove k (af_entries st)\<rparr> else st)"

definition prune_expired_affinity :: "duration \<Rightarrow> affinity_state \<Rightarrow> affinity_state" where
  "prune_expired_affinity now st =
     (let st' = st\<lparr>af_entries := hm_retain (\<lambda>k e. rule_active st k \<and> now < ae_expires_at e) (af_entries st)\<rparr>
      in if hm_len (af_entries st') \<noteq> hm_len (af_entries st) then rebuild_affinity_recency st' else st')"

record affinity_settings =
  as_enabled :: bool
  as_max_entries :: nat
  as_rules :: "(digest32 \<times> string) list"

definition hm_collect :: "('k \<times> 'v) list \<Rightarrow> ('k, 'v) hmap" where
  "hm_collect kvs = fold (\<lambda>(k, v) m. hm_insert k v m) kvs []"

definition hm_eq :: "('k, 'v) hmap \<Rightarrow> ('k, 'v) hmap \<Rightarrow> bool" where
  "hm_eq a b \<longleftrightarrow> hm_len a = hm_len b \<and> list_all (\<lambda>(k, v). hm_get b k = Some v) a"

definition reconcile_affinity :: "duration \<Rightarrow> affinity_settings \<Rightarrow> affinity_state \<Rightarrow> affinity_state" where
  "reconcile_affinity now settings st0 =
     (let rules = hm_collect (as_rules settings);
          st = st0\<lparr>af_enabled := as_enabled settings, af_max_entries := as_max_entries settings\<rparr>
      in if \<not> af_enabled st then st\<lparr>af_active_rules := rules, af_entries := [], af_recency := []\<rparr>
         else
           (let st1 =
              (if hm_eq (af_active_rules st) rules then st
               else
                 (let st' = st\<lparr>af_active_rules := rules\<rparr>
                  in rebuild_affinity_recency
                       (st'\<lparr>af_entries :=
                          hm_retain (\<lambda>k e. rule_active st' k \<and> now < ae_expires_at e) (af_entries st')\<rparr>)))
            in trim_affinity_state st1))"

record rule_cache_snapshot =
  rcs_name :: string
  rcs_entries :: u64

record cache_snapshot =
  cn_enabled :: bool
  cn_max_entries :: u64
  cn_total_entries :: u64
  cn_rules :: "rule_cache_snapshot list"

definition usize_to_u64 :: "nat \<Rightarrow> u64" where
  "usize_to_u64 n = (if n < 2 ^ 64 then of_nat n else - 1)"

definition rule_counts :: "(affinity_cache_key, affinity_entry) hmap \<Rightarrow> (digest32, u64) hmap" where
  "rule_counts entries =
     fold (\<lambda>(k, _) counts.
        hm_insert (ac_rule_fingerprint k)
          (sat_add (case hm_get counts (ac_rule_fingerprint k) of None \<Rightarrow> 0 | Some c \<Rightarrow> c) 1) counts)
       entries []"

definition affinity_cache_snapshot :: "affinity_state \<Rightarrow> cache_snapshot" where
  "affinity_cache_snapshot st =
     (let counts = rule_counts (af_entries st)
      in \<lparr>cn_enabled = af_enabled st, cn_max_entries = usize_to_u64 (af_max_entries st),
          cn_total_entries = usize_to_u64 (hm_len (af_entries st)),
          cn_rules = sort_key rcs_name
            (map (\<lambda>(f, name). \<lparr>rcs_name = name,
                 rcs_entries = (case hm_get counts f of None \<Rightarrow> 0 | Some c \<Rightarrow> c)\<rparr>) (af_active_rules st))\<rparr>)"

definition session_affinity_cache_snapshot :: "duration \<Rightarrow> affinity_state \<Rightarrow> affinity_state \<times> cache_snapshot" where
  "session_affinity_cache_snapshot now st =
     (let st' = prune_expired_affinity now st in (st', affinity_cache_snapshot st'))"

record clear_result =
  cl_cleared_entries :: u64
  cl_cache :: cache_snapshot

definition clear_session_affinity_cache ::
  "duration \<Rightarrow> string option \<Rightarrow> affinity_state \<Rightarrow> affinity_state \<times> clear_result option" where
  "clear_session_affinity_cache now rule_name st0 =
     (let st = prune_expired_affinity now st0;
          finish = (\<lambda>entries.
            let st' = rebuild_affinity_recency (st\<lparr>af_entries := entries\<rparr>)
            in (st', Some \<lparr>cl_cleared_entries = usize_to_u64 (hm_len (af_entries st) - hm_len (af_entries st')),
                           cl_cache = affinity_cache_snapshot st'\<rparr>))
      in case rule_name of
           None \<Rightarrow> finish []
         | Some name \<Rightarrow>
             (case List.find (\<lambda>(_, n). eq_ignore_ascii_case n name) (af_active_rules st) of
                None \<Rightarrow> (st, None)
              | Some (f, _) \<Rightarrow> finish (hm_retain (\<lambda>k _. ac_rule_fingerprint k \<noteq> f) (af_entries st))))"

section \<open>Invariant\<close>

definition live :: "affinity_state \<Rightarrow> affinity_cache_key \<times> u64 \<Rightarrow> bool" where
  "live st r = (case hm_get (af_entries st) (fst r) of None \<Rightarrow> False | Some e \<Rightarrow> ae_generation e = snd r)"

definition affinity_wf :: "affinity_state \<Rightarrow> bool" where
  "affinity_wf st \<longleftrightarrow> hm_wf (af_entries st) \<and>
     (\<forall>k e. hm_get (af_entries st) k = Some e \<longrightarrow> (k, ae_generation e) \<in> set (af_recency st)) \<and>
     sorted_wrt (\<lambda>a b. snd a < snd b) (af_recency st) \<and>
     (\<forall>r \<in> set (af_recency st). snd r \<le> af_next_generation st)"

definition lru_list :: "affinity_state \<Rightarrow> (affinity_cache_key \<times> affinity_entry) list" where
  "lru_list st = map (\<lambda>(k, _). (k, the (hm_get (af_entries st) k))) (filter (live st) (af_recency st))"

section \<open>The recency queue orders the live entries\<close>

lemma sorted_snd_inj:
  "sorted_wrt (\<lambda>a b. snd a < snd b) xs \<Longrightarrow> distinct (map snd xs)" for xs :: "('a \<times> 'b::linorder) list"
  by (induction xs) auto

lemma sorted_snd_unique:
  fixes xs ys :: "('a \<times> 'b::linorder) list"
  assumes "sorted_wrt (\<lambda>a b. snd a < snd b) xs" and "sorted_wrt (\<lambda>a b. snd a < snd b) ys"
    and "set xs = set ys"
  shows "xs = ys"
proof (rule map_inj_on)
  have "sorted (map snd xs)" "sorted (map snd ys)"
    using assms(1,2) by (auto simp: sorted_map intro: sorted_wrt_mono_rel [of _ "\<lambda>a b. snd a < snd b"])
  then show "map snd xs = map snd ys"
    using sorted_snd_inj [OF assms(1)] sorted_snd_inj [OF assms(2)] assms(3)
    by (intro sorted_distinct_set_unique) auto
  show "inj_on snd (set xs \<union> set ys)"
    using sorted_snd_inj [OF assms(1)] assms(3) by (simp add: distinct_map)
qed

lemma sorted_wrt_filter_sub: "sorted_wrt R xs \<Longrightarrow> sorted_wrt R (filter P xs)"
  by (induction xs) auto

lemma live_iff:
  "live st (k, g) \<longleftrightarrow> (\<exists>e. hm_get (af_entries st) k = Some e \<and> ae_generation e = g)"
  by (auto simp: live_def split: option.splits)

lemma set_live_recency:
  assumes "affinity_wf st"
  shows "set (filter (live st) (af_recency st)) = (\<lambda>(k, e). (k, ae_generation e)) ` set (af_entries st)"
proof -
  have "hm_get (af_entries st) k = Some e \<longleftrightarrow> (k, e) \<in> set (af_entries st)" for k e
    using assms by (simp add: affinity_wf_def hm_get_Some_iff)
  with assms show ?thesis by (force simp: affinity_wf_def live_iff)
qed

lemma distinct_live_keys:
  assumes "affinity_wf st"
  shows "distinct (map fst (filter (live st) (af_recency st)))"
proof -
  have "distinct (filter (live st) (af_recency st))"
    using assms sorted_snd_inj [of "af_recency st"] by (simp add: affinity_wf_def distinct_map)
  moreover have "inj_on fst (set (filter (live st) (af_recency st)))"
    by (auto simp: inj_on_def live_iff)
  ultimately show ?thesis by (simp add: distinct_map)
qed

lemma length_lru_list:
  assumes "affinity_wf st"
  shows "length (lru_list st) = hm_len (af_entries st)"
proof -
  have "length (lru_list st) = card (set (map fst (filter (live st) (af_recency st))))"
    using distinct_card [OF distinct_live_keys [OF assms]] by (simp add: lru_list_def)
  also have "set (map fst (filter (live st) (af_recency st))) = fst ` set (af_entries st)"
    unfolding set_map set_live_recency [OF assms] by force
  also have "card (fst ` set (af_entries st)) = length (af_entries st)"
    using assms distinct_card [of "map fst (af_entries st)"] by (simp add: affinity_wf_def hm_wf_def)
  finally show ?thesis by (simp add: hm_len_def)
qed

lemma map_of_lru_list:
  assumes "affinity_wf st"
  shows "map_of (lru_list st) k = hm_get (af_entries st) k"
proof (cases "hm_get (af_entries st) k")
  case None
  then have "k \<notin> fst ` set (lru_list st)" by (auto simp: lru_list_def live_iff)
  with None show ?thesis by (simp add: map_of_eq_None_iff)
next
  case (Some e)
  have "distinct (map fst (lru_list st))"
    using distinct_live_keys [OF assms] by (simp add: lru_list_def comp_def case_prod_beta)
  moreover have "(k, ae_generation e) \<in> set (af_recency st)"
    using assms Some by (auto simp: affinity_wf_def)
  then have "(k, e) \<in> set (lru_list st)"
    using Some by (force simp: lru_list_def live_iff)
  ultimately show ?thesis using Some by (simp add: map_of_eq_Some_iff)
qed

text \<open>Removing entries and rebuilding the queue.\<close>

lemma affinity_wf_sub:
  assumes "affinity_wf st" and "hm_wf m" and "\<And>k e. hm_get m k = Some e \<Longrightarrow> hm_get (af_entries st) k = Some e"
  shows "affinity_wf (st\<lparr>af_entries := m\<rparr>)"
  using assms by (auto simp: affinity_wf_def)

lemma lru_list_sub:
  assumes "affinity_wf st"
    and "\<And>k. hm_get m k = (case hm_get (af_entries st) k of None \<Rightarrow> None | Some e \<Rightarrow> if P k e then Some e else None)"
  shows "lru_list (st\<lparr>af_entries := m\<rparr>) = filter (\<lambda>(k, e). P k e) (lru_list st)"
proof -
  define Q where "Q r = P (fst r) (the (hm_get (af_entries st) (fst r)))" for r :: "affinity_cache_key \<times> u64"
  have lv: "live (st\<lparr>af_entries := m\<rparr>) r = (Q r \<and> live st r)" for r
    by (auto simp: live_def assms(2) Q_def split: option.splits)
  have "filter (live (st\<lparr>af_entries := m\<rparr>)) (af_recency st) = filter Q (filter (live st) (af_recency st))"
    unfolding filter_filter by (rule filter_cong [OF refl]) (auto simp: lv)
  moreover have "the (hm_get m (fst r)) = the (hm_get (af_entries st) (fst r))"
    if "r \<in> set (filter Q (filter (live st) (af_recency st)))" for r
    using that by (auto simp: live_def assms(2) Q_def split: option.splits)
  ultimately have "lru_list (st\<lparr>af_entries := m\<rparr>) =
      map (\<lambda>r. (fst r, the (hm_get (af_entries st) (fst r)))) (filter Q (filter (live st) (af_recency st)))"
    by (auto simp: lru_list_def case_prod_beta intro!: map_cong)
  also have "\<dots> = filter (\<lambda>(k, e). P k e) (lru_list st)"
    by (simp add: lru_list_def filter_map comp_def case_prod_beta Q_def)
  finally show ?thesis .
qed

lemma sort_key_generation:
  assumes "affinity_wf st"
  shows "sort_key snd (map (\<lambda>(k, e). (k, ae_generation e)) (af_entries st)) = filter (live st) (af_recency st)"
    (is "?l = ?r")
proof (rule sorted_snd_unique)
  show r: "sorted_wrt (\<lambda>a b. snd a < snd b) ?r"
    using assms by (intro sorted_wrt_filter_sub) (simp add: affinity_wf_def)
  show set: "set ?l = set ?r" by (simp only: set_sort set_map set_live_recency [OF assms])
  have len: "length ?r = length ?l"
    using length_lru_list [OF assms] by (simp add: lru_list_def hm_len_def)
  have "card (set (map snd ?l)) = card (set (map snd ?r))" by (simp only: set_map set)
  also have "\<dots> = length (map snd ?r)" by (rule distinct_card [OF sorted_snd_inj [OF r]])
  also have "\<dots> = length (map snd ?l)" by (simp only: length_map len)
  finally have "distinct (map snd ?l)" by (rule card_distinct)
  moreover have "sorted (map snd ?l)" by simp
  ultimately have "sorted_wrt (<) (map snd ?l)" by (simp add: strict_sorted_iff)
  then show "sorted_wrt (\<lambda>a b. snd a < snd b) ?l" by (simp add: sorted_wrt_map)
qed

lemma rebuild_wf: "affinity_wf st \<Longrightarrow> affinity_wf (rebuild_affinity_recency st)"
  unfolding rebuild_affinity_recency_def
  by (simp add: sort_key_generation)
    (auto simp: affinity_wf_def live_iff intro: sorted_wrt_filter_sub)

lemma rebuild_lru: "affinity_wf st \<Longrightarrow> lru_list (rebuild_affinity_recency st) = lru_list st"
  unfolding rebuild_affinity_recency_def
  by (simp add: sort_key_generation) (auto simp: lru_list_def live_def intro!: map_cong filter_cong)

lemma rebuild_length:
  "length (af_recency (rebuild_affinity_recency st)) = hm_len (af_entries st)"
  by (simp add: rebuild_affinity_recency_def hm_len_def)

section \<open>Eviction and store\<close>

lemma trim_skip:
  assumes "affinity_wf st" and "af_recency st = r # rest" and "\<not> live st r"
  shows "affinity_wf (st\<lparr>af_recency := rest\<rparr>) \<and> lru_list (st\<lparr>af_recency := rest\<rparr>) = lru_list st"
proof -
  have "(k, ae_generation e) \<in> set rest" if "hm_get (af_entries st) k = Some e" for k e
    using assms that by (force simp: affinity_wf_def live_def)
  moreover have "live (st\<lparr>af_recency := rest\<rparr>) = live st" by (rule ext) (simp add: live_def)
  ultimately show ?thesis using assms by (auto simp: affinity_wf_def lru_list_def)
qed

lemma trim_evict:
  assumes wf: "affinity_wf st" and rec: "af_recency st = (k, g) # rest" and "live st (k, g)"
  defines "st' \<equiv> st\<lparr>af_recency := rest, af_entries := hm_remove k (af_entries st)\<rparr>"
  shows "affinity_wf st' \<and> lru_list st = (k, the (hm_get (af_entries st) k)) # lru_list st'"
proof -
  have g: "g < g'" if "(k', g') \<in> set rest" for k' g'
    using wf rec that by (auto simp: affinity_wf_def)
  have "(k', ae_generation e) \<in> set rest" if "hm_get (hm_remove k (af_entries st)) k' = Some e" for k' e
    using wf rec that by (auto simp: affinity_wf_def hm_get_simps split: if_splits)
  then have "affinity_wf st'"
    using wf rec by (auto simp: affinity_wf_def st'_def gw_wf)
  moreover have lv: "live st' r = live st r" if "r \<in> set rest" for r
  proof (cases "fst r = k")
    case True
    with g that assms(3) have "\<not> live st r" by (cases r) (fastforce simp: live_iff)
    with True show ?thesis by (simp add: live_def st'_def hm_get_simps)
  qed (simp add: live_def st'_def hm_get_simps)
  have "filter (live st) rest = filter (live st') rest"
    by (rule filter_cong) (simp_all add: lv)
  moreover have "fst r \<noteq> k" if "r \<in> set (filter (live st') rest)" for r
    using that by (auto simp: live_def st'_def hm_get_simps)
  ultimately show ?thesis
    using assms(3) rec
    by (auto simp: lru_list_def case_prod_beta st'_def hm_get_simps intro!: map_cong)
qed

definition same_config :: "affinity_state \<Rightarrow> affinity_state \<Rightarrow> bool" where
  "same_config a b \<longleftrightarrow> af_enabled a = af_enabled b \<and> af_max_entries a = af_max_entries b \<and>
     af_active_rules a = af_active_rules b \<and> af_next_generation a = af_next_generation b"

lemma trim_spec:
  "affinity_wf st \<Longrightarrow>
   affinity_wf (trim_affinity_state st) \<and>
   lru_list (trim_affinity_state st) = drop (length (lru_list st) - af_max_entries st) (lru_list st) \<and>
   same_config (trim_affinity_state st) st"
proof (induction "length (af_recency st)" arbitrary: st)
  case 0
  then have "hm_len (af_entries st) = 0" using length_lru_list [of st] by (simp add: lru_list_def)
  with 0 show ?case
    by (simp add: trim_affinity_state.simps [of st] same_config_def lru_list_def)
next
  case (Suc n)
  then obtain k g rest where rec: "af_recency st = (k, g) # rest" and n: "length rest = n"
    by (cases "af_recency st") auto
  note len = length_lru_list [OF Suc.prems]
  show ?case
  proof (cases "af_max_entries st < hm_len (af_entries st)")
    case False
    with len Suc.prems show ?thesis
      by (simp add: trim_affinity_state.simps [of st] same_config_def)
  next
    case big: True
    show ?thesis
    proof (cases "live st (k, g)")
      case True
      let ?st' = "st\<lparr>af_recency := rest, af_entries := hm_remove k (af_entries st)\<rparr>"
      from trim_evict [OF Suc.prems rec True] have wf': "affinity_wf ?st'"
        and lru: "lru_list st = (k, the (hm_get (af_entries st) k)) # lru_list ?st'" by simp_all
      have step: "trim_affinity_state st = trim_affinity_state ?st'"
        using big rec True by (auto simp: trim_affinity_state.simps [of st] live_iff)
      have "affinity_wf (trim_affinity_state ?st') \<and>
          lru_list (trim_affinity_state ?st') =
            drop (length (lru_list ?st') - af_max_entries ?st') (lru_list ?st') \<and>
          same_config (trim_affinity_state ?st') ?st'"
        by (rule Suc.hyps(1)) (use n wf' in simp_all)
      moreover have "length (lru_list st) - af_max_entries st = Suc (length (lru_list ?st') - af_max_entries st)"
        using big len lru by simp
      ultimately show ?thesis unfolding step using lru by (simp add: same_config_def)
    next
      case False
      let ?st' = "st\<lparr>af_recency := rest\<rparr>"
      from trim_skip [OF Suc.prems rec False] have wf': "affinity_wf ?st'"
        and lru: "lru_list ?st' = lru_list st" by simp_all
      have step: "trim_affinity_state st = trim_affinity_state ?st'"
        using big rec False by (auto simp: trim_affinity_state.simps [of st] live_iff split: option.splits)
      have "affinity_wf (trim_affinity_state ?st') \<and>
          lru_list (trim_affinity_state ?st') =
            drop (length (lru_list ?st') - af_max_entries ?st') (lru_list ?st') \<and>
          same_config (trim_affinity_state ?st') ?st'"
        by (rule Suc.hyps(1)) (use n wf' in simp_all)
      then show ?thesis unfolding step using lru by (simp add: same_config_def)
    qed
  qed
qed

lemmas trim_wf = trim_spec [THEN conjunct1]
lemmas trim_lru = trim_spec [THEN conjunct2, THEN conjunct1]
lemmas trim_config = trim_spec [THEN conjunct2, THEN conjunct2]

lemma compact_spec:
  assumes "affinity_wf st"
  shows "affinity_wf (compact_affinity_recency st) \<and> lru_list (compact_affinity_recency st) = lru_list st \<and>
    same_config (compact_affinity_recency st) st \<and> af_entries (compact_affinity_recency st) = af_entries st \<and>
    length (af_recency (compact_affinity_recency st)) \<le> hm_len (af_entries st) * 4 + 1024"
  using rebuild_wf [OF assms] rebuild_lru [OF assms] rebuild_length [of st] assms
  by (auto simp: compact_affinity_recency_def same_config_def rebuild_affinity_recency_def)

definition lru_store ::
  "nat \<Rightarrow> affinity_cache_key \<Rightarrow> affinity_entry \<Rightarrow> (affinity_cache_key \<times> affinity_entry) list \<Rightarrow>
   (affinity_cache_key \<times> affinity_entry) list" where
  "lru_store capacity k e l =
     (let l' = filter (\<lambda>p. fst p \<noteq> k) l @ [(k, e)] in drop (length l' - capacity) l')"

lemma max_next_generation:
  fixes g :: u64
  assumes "g \<noteq> - 1"
  shows "max (g + 1) 1 = g + 1" and "g < g + 1"
proof -
  have "unat g < 2 ^ 64 - 1"
    using assms unsigned_less [of g, where ?'a = nat] by (auto simp: word_unat_eq_iff unat_max_word)
  then have "unat (g + 1) = unat g + 1" by (simp add: unat_word_ariths)
  then show "max (g + 1) 1 = g + 1" "g < g + 1"
    by (auto simp: max_def word_le_nat_alt word_less_nat_alt unat_eq_zero)
qed

lemma insert_spec:
  fixes st k
  assumes wf: "affinity_wf st" and g: "af_next_generation st < g" and e: "ae_generation e = g"
  defines "st' \<equiv> st\<lparr>af_next_generation := g, af_entries := hm_insert k e (af_entries st),
      af_recency := af_recency st @ [(k, g)]\<rparr>"
  shows "affinity_wf st' \<and> lru_list st' = filter (\<lambda>p. fst p \<noteq> k) (lru_list st) @ [(k, e)]"
proof -
  have old: "snd r < g" if "r \<in> set (af_recency st)" for r
    using wf g that by (auto simp: affinity_wf_def intro: le_less_trans)
  have "affinity_wf st'"
    using wf old e g
    by (auto simp: affinity_wf_def st'_def gw_wf hm_get_simps sorted_wrt_append intro: less_imp_le
        split: if_splits)
  have lv: "live st' r = (fst r \<noteq> k \<and> live st r)" if "r \<in> set (af_recency st)" for r
    using old [OF that] e by (auto simp: live_def st'_def hm_get_simps)
  have "filter (live st') (af_recency st) = filter (\<lambda>r. fst r \<noteq> k) (filter (live st) (af_recency st))"
    unfolding filter_filter by (rule filter_cong) (auto simp: lv)
  moreover have "live st' (k, g)" using e by (simp add: live_def st'_def hm_get_simps)
  ultimately have "lru_list st' =
      map (\<lambda>r. (fst r, the (hm_get (af_entries st) (fst r))))
        (filter (\<lambda>r. fst r \<noteq> k) (filter (live st) (af_recency st))) @ [(k, e)]"
    by (auto simp: lru_list_def st'_def case_prod_beta hm_get_simps intro!: map_cong)
  also have "\<dots> = filter (\<lambda>p. fst p \<noteq> k) (lru_list st) @ [(k, e)]"
    by (simp add: lru_list_def filter_map comp_def case_prod_beta)
  finally show ?thesis using \<open>affinity_wf st'\<close> by simp
qed

lemma store_spec:
  assumes "affinity_wf st" and "af_enabled st" and "rule_active st (ab_key b)"
    and "0 < af_max_entries st" and "af_next_generation st \<noteq> - 1"
    and "affinity_store now b st = Some st'"
  shows "affinity_wf st' \<and>
    lru_list st' = lru_store (af_max_entries st) (ab_key b)
      \<lparr>ae_candidate = ab_candidate b, ae_expires_at = now + ab_ttl b,
       ae_generation = af_next_generation st + 1\<rparr> (lru_list st) \<and>
    hm_len (af_entries st') \<le> af_max_entries st' \<and>
    length (af_recency st') \<le> hm_len (af_entries st') * 4 + 1024"
proof -
  let ?g = "af_next_generation st + 1"
  let ?e = "\<lparr>ae_candidate = ab_candidate b, ae_expires_at = now + ab_ttl b, ae_generation = ?g\<rparr>"
  let ?in = "st\<lparr>af_next_generation := ?g, af_entries := hm_insert (ab_key b) ?e (af_entries st),
      af_recency := af_recency st @ [(ab_key b, ?g)]\<rparr>"
  let ?tr = "trim_affinity_state ?in"
  from assms max_next_generation [OF assms(5)] have st': "st' = compact_affinity_recency ?tr"
    by (auto simp: affinity_store_def Let_def split: option.splits dest: duration_add_SomeD)
  from insert_spec [OF assms(1) max_next_generation(2) [OF assms(5)], of ?e "ab_key b"]
  have inw: "affinity_wf ?in"
    and inl: "lru_list ?in = filter (\<lambda>p. fst p \<noteq> ab_key b) (lru_list st) @ [(ab_key b, ?e)]" by simp_all
  have max: "af_max_entries ?tr = af_max_entries st"
    using trim_config [OF inw] by (simp add: same_config_def)
  from compact_spec [OF trim_wf [OF inw]]
  have c: "affinity_wf st'" "lru_list st' = lru_list ?tr" "same_config st' ?tr" "af_entries st' = af_entries ?tr"
    "length (af_recency st') \<le> hm_len (af_entries st') * 4 + 1024"
    by (simp_all add: st')
  have lru: "lru_list st' = lru_store (af_max_entries st) (ab_key b) ?e (lru_list st)"
    using trim_lru [OF inw] c(2) inl by (simp add: lru_store_def Let_def)
  have "length (lru_list st') \<le> af_max_entries st"
    unfolding lru lru_store_def Let_def by simp
  with length_lru_list [OF c(1)] c(3) max have "hm_len (af_entries st') \<le> af_max_entries st'"
    by (simp add: same_config_def)
  with c lru show ?thesis by simp
qed

text \<open>C24. Storing an affinity is a least-recently-used insertion: the entry of the session moves to
  the most recent end and the oldest entries beyond the capacity are evicted, exactly these.
  The invariant is kept, the cache never exceeds its capacity, and the recency queue stays
  within four records per entry plus 1024, although stale records are collected lazily.\<close>

theorem affinity_store_is_lru:
  assumes "affinity_wf st" and "af_enabled st" and "rule_active st (ab_key b)"
    and "0 < af_max_entries st" and "af_next_generation st \<noteq> - 1"
    and "affinity_store now b st = Some st'"
  shows "affinity_wf st' \<and>
    lru_list st' = lru_store (af_max_entries st) (ab_key b)
      \<lparr>ae_candidate = ab_candidate b, ae_expires_at = now + ab_ttl b,
       ae_generation = af_next_generation st + 1\<rparr> (lru_list st) \<and>
    hm_len (af_entries st') \<le> af_max_entries st' \<and>
    length (af_recency st') \<le> hm_len (af_entries st') * 4 + 1024"
  by (rule store_spec [OF assms])

section \<open>Lookups\<close>

lemma map_of_lru_store:
  assumes "0 < capacity"
  shows "map_of (lru_store capacity k e l) k = Some e"
proof -
  define l' where "l' = filter (\<lambda>p. fst p \<noteq> k) l"
  have "drop (length (l' @ [(k, e)]) - capacity) (l' @ [(k, e)]) = drop (length (l' @ [(k, e)]) - capacity) l' @ [(k, e)]"
    using assms by simp
  moreover have "map_of (drop n l') k = None" for n
    by (auto simp: map_of_eq_None_iff l'_def dest: in_set_dropD)
  ultimately show ?thesis
    by (simp add: lru_store_def Let_def l'_def [symmetric] map_add_def)
qed

lemma map_of_lru_store_other:
  assumes "distinct (map fst l)" and "k' \<noteq> k"
  shows "map_of (lru_store capacity k e l) k' = None \<or> map_of (lru_store capacity k e l) k' = map_of l k'"
proof -
  define l' where "l' = filter (\<lambda>p. fst p \<noteq> k) l @ [(k, e)]"
  have d: "distinct (map fst l')" using assms(1) by (auto simp: l'_def distinct_map_filter)
  have "map_of (filter (\<lambda>p. fst p \<noteq> k) xs) k' = map_of xs k'" for xs :: "(affinity_cache_key \<times> affinity_entry) list"
    using assms(2) by (induction xs) auto
  then have l'k: "map_of l' k' = map_of l k'"
    using assms(2) by (simp add: l'_def map_add_def split: option.splits)
  have "map_of (drop n l') k' = None \<or> map_of (drop n l') k' = map_of l' k'" for n
  proof (cases "map_of (drop n l') k'")
    case (Some v)
    then have "(k', v) \<in> set l'" by (meson in_set_dropD map_of_SomeD)
    with d Some show ?thesis by simp
  qed simp
  with l'k show ?thesis by (simp add: lru_store_def Let_def l'_def [symmetric])
qed

lemma distinct_lru_keys: "affinity_wf st \<Longrightarrow> distinct (map fst (lru_list st))"
  using distinct_live_keys [of st] by (simp add: lru_list_def comp_def case_prod_beta)

lemma store_config:
  assumes "affinity_store now b st = Some st'" and "affinity_wf st" and "af_next_generation st \<noteq> - 1"
  shows "af_enabled st' = af_enabled st \<and> af_max_entries st' = af_max_entries st \<and>
    af_active_rules st' = af_active_rules st"
proof (cases "\<not> af_enabled st \<or> af_max_entries st = 0 \<or> \<not> rule_active st (ab_key b)")
  case True
  with assms(1) show ?thesis by (auto simp: affinity_store_def)
next
  case False
  let ?g = "af_next_generation st + 1"
  let ?e = "\<lparr>ae_candidate = ab_candidate b, ae_expires_at = now + ab_ttl b, ae_generation = ?g\<rparr>"
  let ?in = "st\<lparr>af_next_generation := ?g, af_entries := hm_insert (ab_key b) ?e (af_entries st),
      af_recency := af_recency st @ [(ab_key b, ?g)]\<rparr>"
  from False assms(1) max_next_generation [OF assms(3)]
  have st': "st' = compact_affinity_recency (trim_affinity_state ?in)"
    by (auto simp: affinity_store_def Let_def split: option.splits dest: duration_add_SomeD)
  from insert_spec [OF assms(2) max_next_generation(2) [OF assms(3)], of ?e "ab_key b"]
  have inw: "affinity_wf ?in" by simp
  from compact_spec [OF trim_wf [OF inw]] trim_config [OF inw] show ?thesis
    by (simp add: st' same_config_def)
qed

text \<open>C25. Affinity is sticky and never stale: after a session's candidate was stored, looking the
  session up returns that candidate until the time to live has passed and nothing from then on;
  the store leaves every other session as it was or evicts it, and no lookup ever returns a
  candidate while the feature is off, for an inactive rule, or past the expiry.\<close>

theorem affinity_lookup_after_store:
  assumes "affinity_wf st" and "af_enabled st" and "rule_active st (ab_key b)"
    and "0 < af_max_entries st" and "af_next_generation st \<noteq> - 1"
    and "affinity_store now b st = Some st'"
  shows "snd (affinity_lookup t (ab_key b) st') =
      (if t < now + ab_ttl b then Some (ab_candidate b) else None) \<and>
    (\<forall>k. k \<noteq> ab_key b \<longrightarrow> hm_get (af_entries st') k = None \<or>
       hm_get (af_entries st') k = hm_get (af_entries st) k) \<and>
    (\<forall>s k c. snd (affinity_lookup t k s) = Some c \<longrightarrow>
       af_enabled s \<and> rule_active s k \<and>
       (\<exists>e. hm_get (af_entries s) k = Some e \<and> ae_candidate e = c \<and> t < ae_expires_at e))"
proof -
  let ?e = "\<lparr>ae_candidate = ab_candidate b, ae_expires_at = now + ab_ttl b,
      ae_generation = af_next_generation st + 1\<rparr>"
  from store_spec [OF assms] have wf': "affinity_wf st'"
    and lru: "lru_list st' = lru_store (af_max_entries st) (ab_key b) ?e (lru_list st)" by simp_all
  have "hm_get (af_entries st') (ab_key b) = Some ?e"
    using map_of_lru_store [OF assms(4)] by (simp add: map_of_lru_list [OF wf', symmetric] lru)
  moreover have "af_enabled st'" "rule_active st' (ab_key b)"
    using store_config [OF assms(6,1,5)] assms(2,3) by (simp_all add: rule_active_def)
  ultimately have "snd (affinity_lookup t (ab_key b) st') =
      (if t < now + ab_ttl b then Some (ab_candidate b) else None)"
    by (auto simp: affinity_lookup_def)
  moreover have "hm_get (af_entries st') k = None \<or> hm_get (af_entries st') k = hm_get (af_entries st) k"
    if "k \<noteq> ab_key b" for k
    using map_of_lru_store_other [OF distinct_lru_keys [OF assms(1)] that]
    by (simp add: map_of_lru_list [OF wf', symmetric] map_of_lru_list [OF assms(1), symmetric] lru)
  moreover have "snd (affinity_lookup t k s) = Some c \<longrightarrow> af_enabled s \<and> rule_active s k \<and>
       (\<exists>e. hm_get (af_entries s) k = Some e \<and> ae_candidate e = c \<and> t < ae_expires_at e)" for s k c
    by (auto simp: affinity_lookup_def not_le split: option.splits if_splits)
  ultimately show ?thesis by blast
qed

section \<open>Every operation keeps the invariant\<close>

inductive affinity_step :: "affinity_state \<Rightarrow> affinity_state \<Rightarrow> bool" where
  a_lookup: "affinity_step st (fst (affinity_lookup now k st))"
| a_store: "af_next_generation st \<noteq> - 1 \<Longrightarrow> affinity_store now b st = Some st' \<Longrightarrow> affinity_step st st'"
| a_remove: "affinity_step st (affinity_remove_if_candidate k c st)"
| a_reconcile: "affinity_step st (reconcile_affinity now settings st)"
| a_snapshot: "affinity_step st (fst (session_affinity_cache_snapshot now st))"
| a_clear: "affinity_step st (fst (clear_session_affinity_cache now name st))"

inductive affinity_reachable :: "affinity_state \<Rightarrow> bool" where
  a_start: "affinity_reachable affinity_state_default"
| a_next: "affinity_reachable st \<Longrightarrow> affinity_step st st' \<Longrightarrow> affinity_reachable st'"

definition affinity_ok :: "affinity_state \<Rightarrow> bool" where
  "affinity_ok st \<longleftrightarrow> affinity_wf st \<and> hm_len (af_entries st) \<le> af_max_entries st \<and>
     (\<not> af_enabled st \<longrightarrow> af_entries st = [])"

lemma hm_len_remove_le: "hm_len (hm_remove k m) \<le> hm_len m"
  by (simp add: hm_len_def hm_remove_length_le)

lemma hm_remove_Nil [simp]: "hm_remove k [] = []"
  by (simp add: hm_remove_def)

lemma wf_remove:
  assumes "affinity_wf st"
  shows "affinity_wf (st\<lparr>af_entries := hm_remove k (af_entries st)\<rparr>)"
proof (rule affinity_wf_sub [OF assms])
  show "hm_wf (hm_remove k (af_entries st))" using assms by (simp add: affinity_wf_def gw_wf)
  fix j e assume "hm_get (hm_remove k (af_entries st)) j = Some e"
  then show "hm_get (af_entries st) j = Some e" by (simp add: hm_get_simps split: if_splits)
qed

lemma ok_remove: "affinity_ok st \<Longrightarrow> affinity_ok (st\<lparr>af_entries := hm_remove k (af_entries st)\<rparr>)"
  using hm_len_remove_le [of k "af_entries st"] wf_remove [of st k]
  by (auto simp: affinity_ok_def)

lemma wf_retain:
  assumes "affinity_wf st"
  shows "affinity_wf (st\<lparr>af_entries := hm_retain P (af_entries st)\<rparr>)"
proof (rule affinity_wf_sub [OF assms])
  show "hm_wf (hm_retain P (af_entries st))" using assms by (simp add: affinity_wf_def gw_wf)
  fix k e assume "hm_get (hm_retain P (af_entries st)) k = Some e"
  then show "hm_get (af_entries st) k = Some e"
    using assms by (auto simp: affinity_wf_def hm_get_simps split: option.splits if_splits)
qed

lemma rebuild_fields [simp]:
  "af_entries (rebuild_affinity_recency st) = af_entries st"
  "af_enabled (rebuild_affinity_recency st) = af_enabled st"
  "af_max_entries (rebuild_affinity_recency st) = af_max_entries st"
  "af_active_rules (rebuild_affinity_recency st) = af_active_rules st"
  by (simp_all add: rebuild_affinity_recency_def)

lemma ok_rebuild: "affinity_ok st \<Longrightarrow> affinity_ok (rebuild_affinity_recency st)"
  by (simp add: affinity_ok_def rebuild_wf)

lemma ok_retain: "affinity_ok st \<Longrightarrow> affinity_ok (st\<lparr>af_entries := hm_retain P (af_entries st)\<rparr>)"
  using hm_len_retain_le [of P "af_entries st"] wf_retain [of st P]
  by (auto simp: affinity_ok_def hm_retain_def)

lemma ok_prune: "affinity_ok st \<Longrightarrow> affinity_ok (prune_expired_affinity now st)"
  unfolding prune_expired_affinity_def Let_def by (auto intro: ok_rebuild ok_retain)

lemma ok_trim: "affinity_wf st \<Longrightarrow> af_enabled st \<Longrightarrow> affinity_ok (trim_affinity_state st)"
  using trim_spec [of st] length_lru_list [of "trim_affinity_state st"]
  by (simp add: affinity_ok_def same_config_def)

lemma ok_reconcile:
  assumes "affinity_ok st"
  shows "affinity_ok (reconcile_affinity now settings st)"
proof -
  let ?rules = "hm_collect (as_rules settings)"
  let ?st = "st\<lparr>af_enabled := as_enabled settings, af_max_entries := as_max_entries settings\<rparr>"
  have wf: "affinity_wf ?st" "affinity_wf (?st\<lparr>af_active_rules := ?rules\<rparr>)"
    using assms by (simp_all add: affinity_ok_def affinity_wf_def)
  show ?thesis
  proof (cases "as_enabled settings")
    case False
    then show ?thesis by (simp add: reconcile_affinity_def Let_def affinity_ok_def affinity_wf_def hm_len_def)
  next
    case True
    with ok_trim [OF wf(1)] ok_trim [OF rebuild_wf [OF wf_retain [OF wf(2)]]] show ?thesis
      by (simp add: reconcile_affinity_def Let_def)
  qed
qed

lemma ok_store:
  assumes "affinity_ok st" and "af_next_generation st \<noteq> - 1" and "affinity_store now b st = Some st'"
  shows "affinity_ok st'"
proof (cases "\<not> af_enabled st \<or> af_max_entries st = 0 \<or> \<not> rule_active st (ab_key b)")
  case True
  with assms show ?thesis by (auto simp: affinity_store_def)
next
  case False
  with assms store_spec [of st b now st'] store_config [OF assms(3) _ assms(2)] show ?thesis
    by (auto simp: affinity_ok_def)
qed

lemma ok_clear: "affinity_ok st \<Longrightarrow> affinity_ok (fst (clear_session_affinity_cache now name st))"
proof -
  assume "affinity_ok st"
  then have p: "affinity_ok (prune_expired_affinity now st)" by (rule ok_prune)
  then have "affinity_ok ((prune_expired_affinity now st)\<lparr>af_entries := []\<rparr>)"
    by (auto simp: affinity_ok_def affinity_wf_def hm_len_def)
  with p show ?thesis
    by (auto simp: clear_session_affinity_cache_def Let_def intro!: ok_rebuild ok_retain split: option.splits)
qed

lemma affinity_step_ok: "affinity_step st st' \<Longrightarrow> affinity_ok st \<Longrightarrow> affinity_ok st'"
  by (induction rule: affinity_step.induct)
    (auto simp: affinity_lookup_def affinity_remove_if_candidate_def session_affinity_cache_snapshot_def
      Let_def intro: ok_remove ok_store ok_reconcile ok_prune ok_clear split: option.splits)

text \<open>C26. The cache invariant holds in every run of lookups, stores, removals, snapshots, clears and
  configuration reloads: entries have distinct keys, every entry has its record in the recency
  queue, the queue is strictly ordered by generation, the number of entries never exceeds the
  configured capacity, and a disabled cache is empty.\<close>

theorem affinity_invariant:
  assumes "affinity_reachable st"
  shows "hm_wf (af_entries st) \<and>
    (\<forall>k e. hm_get (af_entries st) k = Some e \<longrightarrow> (k, ae_generation e) \<in> set (af_recency st)) \<and>
    sorted_wrt (\<lambda>a b. snd a < snd b) (af_recency st) \<and>
    hm_len (af_entries st) \<le> af_max_entries st \<and> (\<not> af_enabled st \<longrightarrow> af_entries st = [])"
proof -
  from assms have "affinity_ok st"
  proof (induction rule: affinity_reachable.induct)
    case a_start
    show ?case by (simp add: affinity_ok_def affinity_wf_def affinity_state_default_def hm_len_def)
  qed (rule affinity_step_ok)
  then show ?thesis by (simp add: affinity_ok_def affinity_wf_def)
qed

text \<open>Counting.\<close>

lemma rule_counts_fold:
  fixes counts :: "(digest32, u64) hmap"
  assumes "\<And>f. unat (case hm_get counts f of None \<Rightarrow> 0 | Some c \<Rightarrow> c) = n f"
    and "\<And>f. n f + length entries < 2 ^ 64"
  shows "unat (case hm_get (fold (\<lambda>(k, _) counts.
        hm_insert (ac_rule_fingerprint k)
          (sat_add (case hm_get counts (ac_rule_fingerprint k) of None \<Rightarrow> 0 | Some c \<Rightarrow> c) 1) counts)
       entries counts) f of None \<Rightarrow> 0 | Some c \<Rightarrow> c) =
    n f + length (filter (\<lambda>(k, _). ac_rule_fingerprint k = f) entries)"
  using assms
proof (induction entries arbitrary: counts n)
  case (Cons p entries)
  obtain k e where p: "p = (k, e)" by fastforce
  let ?f = "ac_rule_fingerprint k"
  let ?c = "hm_insert ?f (sat_add (case hm_get counts ?f of None \<Rightarrow> 0 | Some c \<Rightarrow> c) 1) counts"
  let ?n = "\<lambda>g. n g + (if g = ?f then 1 else 0)"
  have "unat (case hm_get ?c g of None \<Rightarrow> 0 | Some c \<Rightarrow> c) = ?n g" for g
    using Cons.prems(1) [of g] Cons.prems(2) [of g]
    by (auto simp: hm_get_simps unat_sat_add)
  moreover have "?n g + length entries < 2 ^ 64" for g using Cons.prems(2) [of g] by auto
  ultimately show ?case using Cons.IH [of ?c ?n] by (simp add: p)
qed (simp add: split: option.splits)

lemma rule_counts_spec:
  "length entries < 2 ^ 64 \<Longrightarrow>
   unat (case hm_get (rule_counts entries) f of None \<Rightarrow> 0 | Some c \<Rightarrow> c) =
   length (filter (\<lambda>(k, _). ac_rule_fingerprint k = f) entries)"
  unfolding rule_counts_def using rule_counts_fold [of "[]" "\<lambda>_. 0" entries f] by simp

text \<open>C27. Clearing one rule's cache removes exactly the entries of that rule (and those already
  expired or of retired rules), reports how many unexpired entries it removed, and the snapshot it returns
  counts the remaining entries of every active rule.\<close>

theorem clear_rule_cache:
  assumes "affinity_wf st" and "length (af_entries st) < 2 ^ 64"
    and "clear_session_affinity_cache now (Some name) st = (st', Some r)"
  shows "\<exists>f n. (f, n) \<in> set (af_active_rules st) \<and> eq_ignore_ascii_case n name \<and>
    (\<forall>k. hm_get (af_entries st') k =
       (case hm_get (af_entries st) k of
          None \<Rightarrow> None
        | Some e \<Rightarrow> if rule_active st k \<and> now < ae_expires_at e \<and> ac_rule_fingerprint k \<noteq> f
                   then Some e else None)) \<and>
    unat (cl_cleared_entries r) =
      length (filter (\<lambda>(k, e). rule_active st k \<and> now < ae_expires_at e \<and> ac_rule_fingerprint k = f)
        (af_entries st)) \<and>
    (\<forall>s \<in> set (cn_rules (cl_cache r)). \<exists>g. (g, rcs_name s) \<in> set (af_active_rules st) \<and>
       unat (rcs_entries s) = length (filter (\<lambda>(k, _). ac_rule_fingerprint k = g) (af_entries st')))"
proof -
  let ?p = "prune_expired_affinity now st"
  define keep where "keep k e = (rule_active st k \<and> now < ae_expires_at e)" for k and e :: affinity_entry
  have pe: "af_entries ?p = hm_retain keep (af_entries st)"
    by (simp add: prune_expired_affinity_def Let_def keep_def [abs_def])
  have pr: "af_active_rules ?p = af_active_rules st"
    by (simp add: prune_expired_affinity_def Let_def)
  from assms(3) obtain f n where
    find: "List.find (\<lambda>(_, n). eq_ignore_ascii_case n name) (af_active_rules ?p) = Some (f, n)"
    by (auto simp: clear_session_affinity_cache_def Let_def split: option.splits)
  let ?e' = "hm_retain (\<lambda>k _. ac_rule_fingerprint k \<noteq> f) (af_entries ?p)"
  from assms(3) find have st': "st' = rebuild_affinity_recency (?p\<lparr>af_entries := ?e'\<rparr>)"
    and r: "cl_cleared_entries r = usize_to_u64 (hm_len (af_entries ?p) - hm_len (af_entries st'))"
      "cl_cache r = affinity_cache_snapshot st'"
    by (auto simp: clear_session_affinity_cache_def Let_def)
  have e': "af_entries st' = ?e'" by (simp add: st')
  from find_SomeD [OF find] have fn: "(f, n) \<in> set (af_active_rules st)" "eq_ignore_ascii_case n name"
    by (simp_all add: pr)
  have wf: "hm_wf (af_entries st)" using assms(1) by (simp add: affinity_wf_def)
  have get: "hm_get (af_entries st') k =
       (case hm_get (af_entries st) k of
          None \<Rightarrow> None
        | Some e \<Rightarrow> if rule_active st k \<and> now < ae_expires_at e \<and> ac_rule_fingerprint k \<noteq> f
                   then Some e else None)" for k
    using wf by (auto simp: e' pe hm_get_simps gw_wf keep_def split: option.splits)
  have small: "length (af_entries st') < 2 ^ 64"
    using assms(2) by (auto simp: e' pe hm_retain_def intro: le_less_trans [OF length_filter_le])
  have "hm_len (af_entries ?p) - hm_len (af_entries st') =
      length (filter (\<lambda>(k, _). ac_rule_fingerprint k = f) (af_entries ?p))"
    using sum_length_filter_compl [of "\<lambda>p. ac_rule_fingerprint (fst p) = f" "af_entries ?p"]
    by (simp add: e' hm_len_def hm_retain_def case_prod_unfold)
  also have "\<dots> = length (filter (\<lambda>(k, e). rule_active st k \<and> now < ae_expires_at e \<and> ac_rule_fingerprint k = f)
        (af_entries st))"
    by (simp add: pe hm_retain_def keep_def case_prod_unfold conj_ac)
  finally have cleared: "hm_len (af_entries ?p) - hm_len (af_entries st') = \<dots>" .
  then have "unat (cl_cleared_entries r) = \<dots>"
    using assms(2) by (simp add: r usize_to_u64_def unat_of_nat le_less_trans [OF length_filter_le])
  moreover have "\<exists>g. (g, rcs_name s) \<in> set (af_active_rules st) \<and>
       unat (rcs_entries s) = length (filter (\<lambda>(k, _). ac_rule_fingerprint k = g) (af_entries st'))"
    if "s \<in> set (cn_rules (cl_cache r))" for s
    using that rule_counts_spec [OF small] by (auto simp: r affinity_cache_snapshot_def Let_def st' pr)
  ultimately show ?thesis using fn get by blast
qed

section \<open>Concrete caches\<close>

definition sample_affinity :: affinity_state where
  "sample_affinity = affinity_state_default\<lparr>af_enabled := True, af_max_entries := 1,
     af_active_rules := [([7], ''Chat'')]\<rparr>"

definition sample_binding :: affinity_binding where
  "sample_binding =
     \<lparr>ab_key = \<lparr>ac_rule_fingerprint = [7], ac_api_key_id = 1, ac_model_rule_id = 2, ac_session_hash = [9]\<rparr>,
      ab_ttl = 10, ab_candidate = \<lparr>rci_channel_id = 4, rci_upstream_model = ''up''\<rparr>, ab_cache_hit = False\<rparr>"

definition sample_stored :: affinity_state where
  "sample_stored = sample_affinity\<lparr>
     af_entries := [(ab_key sample_binding,
       \<lparr>ae_candidate = ab_candidate sample_binding, ae_expires_at = 15, ae_generation = 1\<rparr>)],
     af_recency := [(ab_key sample_binding, 1)], af_next_generation := 1\<rparr>"

lemma sample_affinity_ready:
  "affinity_wf sample_affinity" "af_enabled sample_affinity" "rule_active sample_affinity (ab_key sample_binding)"
  "0 < af_max_entries sample_affinity" "af_next_generation sample_affinity \<noteq> - 1"
  by (simp_all add: sample_affinity_def affinity_state_default_def affinity_wf_def rule_active_def
      sample_binding_def hm_get_def)

lemma sample_store: "affinity_store 5 sample_binding sample_affinity = Some sample_stored"
  by (simp add: affinity_store_def sample_affinity_ready [simplified] sample_affinity_ready(2)
      duration_add_def duration_max_def compact_affinity_recency_def
      trim_affinity_state.simps hm_len_def hm_insert_def sample_stored_def Let_def)
    (simp add: sample_affinity_def affinity_state_default_def sample_binding_def rule_active_def hm_get_def
      trim_affinity_state.simps hm_len_def compact_affinity_recency_def)

theorem affinity_store_is_lru_witness:
  "lru_list sample_stored = lru_store 1 (ab_key sample_binding)
     \<lparr>ae_candidate = ab_candidate sample_binding, ae_expires_at = 15, ae_generation = 1\<rparr> []"
  using affinity_store_is_lru [OF sample_affinity_ready sample_store]
  by (simp add: sample_affinity_def affinity_state_default_def lru_list_def sample_binding_def)

theorem affinity_lookup_after_store_witness:
  "snd (affinity_lookup 14 (ab_key sample_binding) sample_stored) = Some (ab_candidate sample_binding) \<and>
   snd (affinity_lookup 15 (ab_key sample_binding) sample_stored) = None"
  using affinity_lookup_after_store [OF sample_affinity_ready sample_store, of 14]
    affinity_lookup_after_store [OF sample_affinity_ready sample_store, of 15]
  by (simp add: sample_binding_def)

lemma sample_configured:
  "reconcile_affinity 0 \<lparr>as_enabled = True, as_max_entries = 1, as_rules = [([7], ''Chat'')]\<rparr> affinity_state_default =
   sample_affinity"
  by (simp add: reconcile_affinity_def Let_def affinity_state_default_def sample_affinity_def hm_collect_def hm_insert_def hm_eq_def
      hm_len_def hm_get_def hm_retain_def rebuild_affinity_recency_def trim_affinity_state.simps)

theorem affinity_invariant_witness:
  "affinity_reachable sample_stored \<and> hm_len (af_entries sample_stored) = 1 \<and> hm_len (af_entries sample_stored) \<le> af_max_entries sample_stored \<and>
   (ab_key sample_binding, 1) \<in> set (af_recency sample_stored)"
proof -
  have "affinity_reachable sample_affinity"
    unfolding sample_configured [symmetric]
    by (rule affinity_reachable.a_next [OF affinity_reachable.a_start]) (rule affinity_step.a_reconcile)
  then have reach: "affinity_reachable sample_stored"
    by (rule affinity_reachable.a_next) (rule affinity_step.a_store [OF sample_affinity_ready(5) sample_store])
  moreover have "hm_get (af_entries sample_stored) (ab_key sample_binding) =
      Some \<lparr>ae_candidate = ab_candidate sample_binding, ae_expires_at = 15, ae_generation = 1\<rparr>"
    by (simp add: sample_stored_def hm_get_def)
  moreover have "hm_len (af_entries sample_stored) = 1" by (simp add: sample_stored_def hm_len_def)
  ultimately show ?thesis using affinity_invariant [OF reach] by fastforce
qed

theorem clear_rule_cache_witness:
  "\<exists>st' r. clear_session_affinity_cache 6 (Some ''CHAT'') sample_stored = (st', Some r) \<and>
     hm_get (af_entries st') (ab_key sample_binding) = None \<and> unat (cl_cleared_entries r) = 1"
proof -
  have wf: "affinity_wf sample_stored"
    by (auto simp: affinity_wf_def sample_stored_def sample_affinity_def affinity_state_default_def hm_wf_def
        hm_get_def split: if_splits)
  have small: "length (af_entries sample_stored) < 2 ^ 64" by (simp add: sample_stored_def)
  have rules: "af_active_rules sample_stored = [([7], ''Chat'')]"
    by (simp add: sample_stored_def sample_affinity_def)
  have rp: "af_active_rules (prune_expired_affinity 6 sample_stored) = [([7], ''Chat'')]"
    by (simp add: prune_expired_affinity_def Let_def rules)
  have "eq_ignore_ascii_case ''Chat'' ''CHAT''"
    by code_simp
  then obtain st' r where cl: "clear_session_affinity_cache 6 (Some ''CHAT'') sample_stored = (st', Some r)"
    by (simp add: clear_session_affinity_cache_def Let_def rp)
  from clear_rule_cache [OF wf small cl] obtain f n where "(f, n) \<in> set (af_active_rules sample_stored)"
    and get: "hm_get (af_entries st') (ab_key sample_binding) =
       (case hm_get (af_entries sample_stored) (ab_key sample_binding) of
          None \<Rightarrow> None
        | Some e \<Rightarrow> if rule_active sample_stored (ab_key sample_binding) \<and> 6 < ae_expires_at e \<and>
              ac_rule_fingerprint (ab_key sample_binding) \<noteq> f then Some e else None)"
    and n: "unat (cl_cleared_entries r) =
      length (filter (\<lambda>(k, e). rule_active sample_stored k \<and> 6 < ae_expires_at e \<and> ac_rule_fingerprint k = f)
        (af_entries sample_stored))" by blast
  then have "f = [7]" by (simp add: rules)
  with get n have "hm_get (af_entries st') (ab_key sample_binding) = None \<and> unat (cl_cleared_entries r) = 1"
    by (simp add: sample_stored_def sample_affinity_def sample_binding_def hm_get_def rule_active_def)
  with cl show ?thesis by blast
qed

end
