(* ===== verification/Load_Balancing.thy ===== *)
theory Load_Balancing
  imports Compiled_Routing Affinity_Cache
begin

text \<open>
  The two ways of choosing a candidate within a tier, \<^verbatim>\<open>weighted_ticket\<close> and
  \<^verbatim>\<open>smooth_round_robin\<close> of \<^verbatim>\<open>src/routing/mod.rs\<close>, and the process
  entropy they draw from.

  Both scan the candidates of the tier and ask for each whether it is eligible (capability, authorization, exclusions
  and passive health). The weighted ticket scans twice, and other requests may change channel health between the
  scans: \<open>view n\<close> is eligibility as scan number \<open>n\<close> observes it. Its two loops may run for
  ever, so they are partial functions and \<open>None\<close> is divergence. Sums of weights are natural numbers; a
  tier would need \<open>2 ^ 32\<close> candidates before a sum of 32-bit weights could leave 64 bits. The counters of
  the round robin are integers for the same reason.
\<close>

section \<open>Process entropy\<close>

definition splitmix_gamma :: u64 where
  "splitmix_gamma = 0x9e3779b97f4a7c15"

definition splitmix_mix :: "u64 \<Rightarrow> u64" where
  "splitmix_mix z0 =
     (let z1 = (z0 XOR drop_bit 30 z0) * 0xbf58476d1ce4e5b9;
          z2 = (z1 XOR drop_bit 27 z1) * 0x94d049bb133111eb
      in z2 XOR drop_bit 31 z2)"

definition process_entropy_next :: "u64 \<Rightarrow> u64 \<times> u64" where
  "process_entropy_next s = (let s' = s + splitmix_gamma in (s', splitmix_mix s'))"

section \<open>Weighted tickets\<close>

abbreviation u64_max :: nat where
  "u64_max \<equiv> 2 ^ 64 - 1"

definition candidate_weight :: "'d compiled_candidate \<Rightarrow> nat" where
  "candidate_weight c = unat (cc_weight c)"

definition eligible_total :: "('d compiled_candidate \<Rightarrow> bool) \<Rightarrow> 'd compiled_candidate list \<Rightarrow> nat" where
  "eligible_total eligible cs = sum_list (map candidate_weight (filter eligible cs))"

partial_function (option) draw_below :: "nat \<Rightarrow> u64 \<Rightarrow> (u64 \<times> nat) option" where
  "draw_below zone s =
     (let (s', v) = process_entropy_next s
      in if unat v < zone then Some (s', unat v) else draw_below zone s')"

definition ticket_step ::
  "('d compiled_candidate \<Rightarrow> bool) \<Rightarrow> 'd compiled_candidate \<Rightarrow>
   nat \<times> nat \<times> 'd compiled_candidate option \<Rightarrow> nat \<times> nat \<times> 'd compiled_candidate option" where
  "ticket_step eligible c acc =
     (case acc of (remaining, observed, selected) \<Rightarrow>
        if \<not> eligible c then acc
        else
          (let w = candidate_weight c
           in if selected = None \<and> remaining < w then (remaining, observed + w, Some c)
              else if selected = None then (remaining - w, observed + w, None)
              else (remaining, observed + w, selected)))"

definition ticket_zone :: "nat \<Rightarrow> nat" where
  "ticket_zone tot = u64_max - u64_max mod tot"

partial_function (option) weighted_ticket ::
  "(nat \<Rightarrow> 'd compiled_candidate \<Rightarrow> bool) \<Rightarrow> 'd compiled_candidate list \<Rightarrow> nat \<Rightarrow> u64 \<Rightarrow>
   (u64 \<times> 'd compiled_candidate option) option" where
  "weighted_ticket view cs n s =
     (let tot = eligible_total (view (2 * n)) cs
      in if tot = 0 then Some (s, None)
         else
           Option.bind (draw_below (ticket_zone tot) s) (\<lambda>(s', v).
             (let (_, observed, selected) = fold (ticket_step (view (2 * n + 1))) cs (v mod tot, 0, None)
              in if observed = tot then Some (s', selected)
                 else weighted_ticket view cs (n + 1) s')))"

section \<open>Smooth weighted round robin\<close>

definition from_candidate :: "'d compiled_candidate \<Rightarrow> route_candidate_identity" where
  "from_candidate c = \<lparr>rci_channel_id = ch_id (cc_channel c), rci_upstream_model = cc_upstream_model c\<rparr>"

type_synonym srr_current = "(route_candidate_identity, int) hmap"

definition srr_step ::
  "('d compiled_candidate \<Rightarrow> bool) \<Rightarrow> 'd compiled_candidate \<Rightarrow>
   srr_current \<times> int \<times> ('d compiled_candidate \<times> int) option \<Rightarrow>
   srr_current \<times> int \<times> ('d compiled_candidate \<times> int) option" where
  "srr_step eligible c acc =
     (case acc of (current, tot, winner) \<Rightarrow>
        if \<not> eligible c then acc
        else
          (let w = int (candidate_weight c);
               v = (case hm_get current (from_candidate c) of None \<Rightarrow> 0 | Some x \<Rightarrow> x) + w
           in (hm_insert (from_candidate c) v current, tot + w,
               if (case winner of None \<Rightarrow> True | Some (_, wv) \<Rightarrow> wv < v) then Some (c, v) else winner)))"

text \<open>The code unwraps the winner's counter; the scan has just inserted it, so the third case of the
  last case distinction is the only one that occurs.\<close>

definition smooth_round_robin ::
  "('d compiled_candidate \<Rightarrow> bool) \<Rightarrow> 'd compiled_candidate list \<Rightarrow> srr_current \<Rightarrow>
   srr_current \<times> 'd compiled_candidate option" where
  "smooth_round_robin eligible cs current0 =
     (case fold (srr_step eligible) cs (current0, 0, None) of
        (current, tot, winner) \<Rightarrow>
          (case winner of
             None \<Rightarrow> (current, None)
           | Some (c, _) \<Rightarrow>
               (case hm_get current (from_candidate c) of
                  None \<Rightarrow> (current, None)
                | Some x \<Rightarrow> (hm_insert (from_candidate c) (x - tot) current, Some c))))"

section \<open>The entropy source reaches every value\<close>

lemma xor_shift_inj:
  fixes x y :: "'a::len word"
  assumes "0 < k" and "x XOR drop_bit k x = y XOR drop_bit k y"
  shows "x = y"
proof -
  have eq: "bit x n \<longleftrightarrow> bit y n" if "n < LENGTH('a)" for n
    using that
  proof (induction "LENGTH('a) - n" arbitrary: n rule: less_induct)
    case less
    have "bit (x XOR drop_bit k x) n = bit (y XOR drop_bit k y) n" by (simp add: assms(2))
    then have *: "(bit x n \<noteq> bit x (k + n)) = (bit y n \<noteq> bit y (k + n))"
      by (simp add: bit_xor_iff bit_drop_bit_eq)
    have "bit x (k + n) = bit y (k + n)"
    proof (cases "k + n < LENGTH('a)")
      case True
      with less assms(1) show ?thesis by (intro less.hyps) auto
    next
      case False
      then show ?thesis using bit_imp_le_length [of x "k + n"] bit_imp_le_length [of y "k + n"] by auto
    qed
    with * show ?case by blast
  qed
  then show ?thesis by (rule bit_word_eqI)
qed

lemma mult_odd_inj:
  fixes c c' x y :: "'a::len word"
  assumes "c * c' = 1" and "x * c = y * c"
  shows "x = y"
proof -
  have "x = (x * c) * c'" by (simp add: mult.assoc assms(1))
  also have "\<dots> = y" by (simp add: assms(2) mult.assoc assms(1))
  finally show ?thesis .
qed

lemma xor_shift_mult_inj:
  fixes c c' x y :: "'a::len word"
  assumes "0 < k" and "c * c' = 1" and "(x XOR drop_bit k x) * c = (y XOR drop_bit k y) * c"
  shows "x = y"
  by (rule xor_shift_inj [OF assms(1) mult_odd_inj [OF assms(2,3)]])

lemma splitmix_mix_inj: "inj splitmix_mix"
proof (rule injI)
  fix x y assume eq: "splitmix_mix x = splitmix_mix y"
  define f where "f z = (z XOR drop_bit 30 z) * 0xbf58476d1ce4e5b9" for z :: u64
  define g where "g z = (z XOR drop_bit 27 z) * 0x94d049bb133111eb" for z :: u64
  have mix: "splitmix_mix z = g (f z) XOR drop_bit 31 (g (f z))" for z
    unfolding splitmix_mix_def Let_def f_def g_def ..
  have c1: "(0xbf58476d1ce4e5b9 :: u64) * 0x96de1b173f119089 = 1" by simp
  have c2: "(0x94d049bb133111eb :: u64) * 0x319642b2d24d8ec3 = 1" by simp
  from eq have "g (f x) = g (f y)" unfolding mix by (intro xor_shift_inj [of 31 "g (f x)" "g (f y)"]) simp_all
  then have "f x = f y" unfolding g_def by (intro xor_shift_mult_inj [OF _ c2, of 27 "f x" "f y"]) simp_all
  then show "x = y" unfolding f_def by (intro xor_shift_mult_inj [OF _ c1, of 30 x y]) simp_all
qed

lemma process_entropy_reaches:
  "\<exists>n. splitmix_mix (s + of_nat (Suc n) * splitmix_gamma) = v"
proof -
  have "surj splitmix_mix" by (rule finite_UNIV_inj_surj [OF _ splitmix_mix_inj]) simp
  then obtain z where z: "splitmix_mix z = v" by (metis surjD)
  have inv: "0xf1de83e19937733d * splitmix_gamma = 1" by (simp add: splitmix_gamma_def)
  let ?d = "(z - s) * 0xf1de83e19937733d"
  have "\<exists>n. (of_nat (Suc n) :: u64) = ?d"
  proof (cases "unat ?d")
    case 0
    then have "?d = 0" by (simp add: unat_eq_zero)
    moreover have "(of_nat (Suc (2 ^ 64 - 1)) :: u64) = 0" by simp
    ultimately show ?thesis by (intro exI [of _ "2 ^ 64 - 1"]) (simp only:)
  next
    case (Suc n)
    have "of_nat (unat ?d) = ?d" by simp
    then have "of_nat (Suc n) = ?d" unfolding Suc .
    then show ?thesis by blast
  qed
  then obtain n where n: "(of_nat (Suc n) :: u64) = ?d" by blast
  have "of_nat (Suc n) * splitmix_gamma = z - s"
    unfolding n by (simp only: mult.assoc inv mult_1_right)
  then have "s + of_nat (Suc n) * splitmix_gamma = z" by simp
  with z show ?thesis by (intro exI [of _ n]) (simp only:)
qed

lemma draw_below_returns_at:
  "unat (splitmix_mix (s + of_nat (Suc n) * splitmix_gamma)) < zone \<Longrightarrow> \<exists>r. draw_below zone s = Some r"
proof (induction n arbitrary: s)
  case 0
  then show ?case by (simp add: draw_below.simps process_entropy_next_def Let_def)
next
  case (Suc n)
  have "s + of_nat (Suc (Suc n)) * splitmix_gamma = (s + splitmix_gamma) + of_nat (Suc n) * splitmix_gamma"
    by (simp add: algebra_simps)
  with Suc.prems have "unat (splitmix_mix ((s + splitmix_gamma) + of_nat (Suc n) * splitmix_gamma)) < zone"
    by (simp only:)
  then have "\<exists>r. draw_below zone (s + splitmix_gamma) = Some r" by (rule Suc.IH)
  then show ?case by (simp add: draw_below.simps [of zone s] process_entropy_next_def Let_def)
qed

lemma draw_below_returns:
  assumes "0 < zone"
  shows "\<exists>r. draw_below zone s = Some r"
proof -
  from process_entropy_reaches [of s 0] obtain n where
    "splitmix_mix (s + of_nat (Suc n) * splitmix_gamma) = 0" by blast
  with assms have "unat (splitmix_mix (s + of_nat (Suc n) * splitmix_gamma)) < zone"
    by (simp only: unat_0)
  then show ?thesis by (rule draw_below_returns_at)
qed

lemma draw_below_value: "draw_below zone s = Some (s', v) \<Longrightarrow> v = unat (splitmix_mix s') \<and> v < zone"
proof -
  have "snd r = unat (splitmix_mix (fst r)) \<and> snd r < zone" if "draw_below zone s = Some r" for r
    by (rule draw_below.raw_induct [where P = "\<lambda>zone s r. snd r = unat (splitmix_mix (fst r)) \<and> snd r < zone", OF _ that])
      (auto simp: Let_def process_entropy_next_def split: prod.splits if_splits)
  then show "draw_below zone s = Some (s', v) \<Longrightarrow> v = unat (splitmix_mix s') \<and> v < zone" by fastforce
qed

section \<open>Which candidate a ticket selects\<close>

fun pick :: "('d compiled_candidate \<Rightarrow> bool) \<Rightarrow> 'd compiled_candidate list \<Rightarrow> nat \<Rightarrow> 'd compiled_candidate option" where
  "pick eligible [] r = None"
| "pick eligible (c # cs) r =
     (if \<not> eligible c then pick eligible cs r
      else if r < candidate_weight c then Some c else pick eligible cs (r - candidate_weight c))"

lemma eligible_total_Cons:
  "eligible_total e (c # cs) = (if e c then candidate_weight c else 0) + eligible_total e cs"
  by (simp add: eligible_total_def)

lemma ticket_step_simps:
  "ticket_step e c (r, obs, None) =
     (if \<not> e c then (r, obs, None)
      else if r < candidate_weight c then (r, obs + candidate_weight c, Some c)
      else (r - candidate_weight c, obs + candidate_weight c, None))"
  "ticket_step e c (r, obs, Some d) = (r, obs + (if e c then candidate_weight c else 0), Some d)"
  by (simp_all add: ticket_step_def Let_def)

lemma fold_ticket_selected:
  "fold (ticket_step e) cs (r, obs, Some c) = (r, obs + eligible_total e cs, Some c)"
  by (induction cs arbitrary: obs) (simp_all add: ticket_step_simps eligible_total_Cons, simp add: eligible_total_def)

lemma fold_ticket:
  "snd (fold (ticket_step e) cs (r, obs, None)) = (obs + eligible_total e cs, pick e cs r)"
proof (induction cs arbitrary: r obs)
  case (Cons c cs)
  then show ?case
    by (cases "e c"; cases "r < candidate_weight c")
      (simp_all add: ticket_step_simps eligible_total_Cons fold_ticket_selected)
qed (simp add: eligible_total_def)

lemma pick_Some: "pick e cs r = Some c \<Longrightarrow> c \<in> set cs \<and> e c \<and> r < eligible_total e cs"
  by (induction e cs r rule: pick.induct) (auto simp: eligible_total_Cons split: if_splits)

lemma pick_returns: "r < eligible_total e cs \<Longrightarrow> \<exists>c. pick e cs r = Some c"
proof (induction e cs r rule: pick.induct)
  case (2 e c cs r)
  then show ?case by (cases "e c"; cases "r < candidate_weight c") (auto simp: eligible_total_Cons)
qed (simp add: eligible_total_def)

lemma ticket_zone_mult: "ticket_zone n = (u64_max div n) * n"
  by (simp add: ticket_zone_def minus_mod_eq_mult_div mult.commute)

lemma eligible_total_le: "eligible_total e cs \<le> length cs * (2 ^ 32 - 1)"
proof (induction cs)
  case (Cons c cs)
  have "candidate_weight c \<le> 2 ^ 32 - 1"
    using unsigned_less [of "cc_weight c", where ?'a = nat] by (simp add: candidate_weight_def)
  with Cons show ?case by (simp add: eligible_total_Cons)
qed (simp add: eligible_total_def)

lemma ticket_zone_pos:
  assumes "length cs < 2 ^ 32" and "0 < eligible_total e cs"
  shows "0 < ticket_zone (eligible_total e cs)"
proof -
  have "length cs \<le> 2 ^ 32 - 1" using assms(1) by simp
  then have "length cs * (2 ^ 32 - 1) \<le> (2 ^ 32 - 1) * (2 ^ 32 - 1)" by (rule mult_le_mono1)
  with eligible_total_le [of e cs] have "eligible_total e cs \<le> (2 ^ 32 - 1) * (2 ^ 32 - 1)"
    by (rule le_trans)
  then have "eligible_total e cs \<le> u64_max" by simp
  with assms(2) show ?thesis by (simp add: ticket_zone_mult div_greater_zero_iff)
qed

lemma weighted_ticket_result:
  assumes "weighted_ticket view cs n s = Some (s', r)"
  shows "(case r of
       None \<Rightarrow> \<exists>m \<ge> n. eligible_total (view (2 * m)) cs = 0
     | Some c \<Rightarrow> c \<in> set cs \<and> (\<exists>m \<ge> n. view (2 * m + 1) c))"
proof -
  define P where "P view cs n s q = (case snd q of
       None \<Rightarrow> \<exists>m \<ge> n. eligible_total (view (2 * m)) cs = 0
     | Some c \<Rightarrow> c \<in> set cs \<and> (\<exists>m \<ge> n. view (2 * m + 1) c))"
    for view :: "nat \<Rightarrow> 'a compiled_candidate \<Rightarrow> bool" and cs n and s :: u64
      and q :: "u64 \<times> 'a compiled_candidate option"
  have "P view cs n s q" if "weighted_ticket view cs n s = Some q" for q
  proof (rule weighted_ticket.raw_induct [where P = P, OF _ that])
    fix wt :: "(nat \<Rightarrow> 'a compiled_candidate \<Rightarrow> bool) \<Rightarrow> 'a compiled_candidate list \<Rightarrow> nat \<Rightarrow> u64 \<Rightarrow>
        (u64 \<times> 'a compiled_candidate option) option"
      and view :: "nat \<Rightarrow> 'a compiled_candidate \<Rightarrow> bool" and cs n s q
    let ?t = "eligible_total (view (2 * n)) cs"
    assume IH: "\<And>view cs n s q. wt view cs n s = Some q \<Longrightarrow> P view cs n s q"
      and body: "(let tot = ?t
        in if tot = 0 then Some (s, None)
           else Option.bind (draw_below (ticket_zone tot) s) (\<lambda>(s', v).
             (let (_, observed, selected) = fold (ticket_step (view (2 * n + 1))) cs (v mod tot, 0, None)
              in if observed = tot then Some (s', selected) else wt view cs (n + 1) s'))) = Some q"
    show "P view cs n s q"
    proof (cases "?t = 0")
      case True
      with body show ?thesis by (auto simp: P_def Let_def)
    next
      case False
      with body obtain p where d: "draw_below (ticket_zone ?t) s = Some p"
        by (cases "draw_below (ticket_zone ?t) s") (simp_all add: Let_def)
      obtain s1 v where p: "p = (s1, v)" by fastforce
      from body False have rest: "(let (_, observed, selected) = fold (ticket_step (view (2 * n + 1))) cs (v mod ?t, 0, None)
           in if observed = ?t then Some (s1, selected) else wt view cs (n + 1) s1) = Some q"
        by (simp only: Let_def if_False Option.bind.simps prod.case d p)
      let ?f = "fold (ticket_step (view (2 * n + 1))) cs (v mod ?t, 0, None)"
      have f: "snd ?f = (eligible_total (view (2 * n + 1)) cs, pick (view (2 * n + 1)) cs (v mod ?t))"
        using fold_ticket [of "view (2 * n + 1)" cs "v mod ?t" 0] by simp
      show ?thesis
      proof (cases "eligible_total (view (2 * n + 1)) cs = ?t")
        case True
        with rest f have q: "q = (s1, pick (view (2 * n + 1)) cs (v mod ?t))"
          by (auto simp: Let_def split: prod.splits)
        from False True obtain c where "pick (view (2 * n + 1)) cs (v mod ?t) = Some c"
          using pick_returns [of "v mod ?t" "view (2 * n + 1)" cs] by auto
        with q pick_Some show ?thesis by (fastforce simp: P_def)
      next
        case False
        with rest f have "wt view cs (n + 1) s1 = Some q"
          by (auto simp: Let_def split: prod.splits)
        from IH [OF this] show ?thesis
          unfolding P_def by (cases "snd q") (auto, (metis Suc_leD)+)
      qed
    qed
  qed
  from this [OF assms] show ?thesis by (simp add: P_def)
qed

lemma weighted_ticket_stable:
  assumes "length cs < 2 ^ 32" and "\<forall>j \<ge> 2 * n. view j = e"
  shows "\<exists>s' r. weighted_ticket view cs n s = Some (s', r)"
proof (cases "eligible_total e cs = 0")
  case True
  with assms(2) show ?thesis by (simp add: weighted_ticket.simps)
next
  case False
  obtain s1 v where d: "draw_below (ticket_zone (eligible_total e cs)) s = Some (s1, v)"
    using draw_below_returns [OF ticket_zone_pos [OF assms(1)]] False by fastforce
  have v: "view (2 * n) = e" "view (Suc (2 * n)) = e" using assms(2) by simp_all
  show ?thesis
    using fold_ticket [of e cs "v mod eligible_total e cs" 0] False
    by (subst weighted_ticket.simps) (auto simp: v d Let_def split: prod.splits)
qed

lemma weighted_ticket_round:
  assumes "length cs < 2 ^ 32" and "0 < eligible_total (view (2 * n)) cs"
  obtains s1 v where "draw_below (ticket_zone (eligible_total (view (2 * n)) cs)) s = Some (s1, v)"
    and "weighted_ticket view cs n s =
      (if eligible_total (view (2 * n + 1)) cs = eligible_total (view (2 * n)) cs
       then Some (s1, pick (view (2 * n + 1)) cs (v mod eligible_total (view (2 * n)) cs))
       else weighted_ticket view cs (n + 1) s1)"
proof -
  let ?t = "eligible_total (view (2 * n)) cs"
  obtain s1 v where d: "draw_below (ticket_zone ?t) s = Some (s1, v)"
    using draw_below_returns [OF ticket_zone_pos [OF assms]] by fastforce
  show thesis
    by (rule that [OF d])
      (use assms(2) d fold_ticket [of "view (2 * n + 1)" cs "v mod ?t" 0] in
        \<open>subst weighted_ticket.simps, auto simp: Let_def split: prod.splits\<close>)
qed

lemma weighted_ticket_settles:
  assumes "length cs < 2 ^ 32" and "\<forall>j \<ge> 2 * (n + k). view j = e"
  shows "\<exists>q. weighted_ticket view cs n s = Some q"
  using assms(2)
proof (induction k arbitrary: n s)
  case 0
  with weighted_ticket_stable [OF assms(1), of n view e s] show ?case by auto
next
  case (Suc k)
  show ?case
  proof (cases "0 < eligible_total (view (2 * n)) cs")
    case True
    from Suc.prems have "\<forall>j \<ge> 2 * (n + 1 + k). view j = e" by simp
    note IH = Suc.IH [OF this]
    from weighted_ticket_round [where s = s and view = view and n = n, OF assms(1) True] obtain s1 v where
      "weighted_ticket view cs n s =
        (if eligible_total (view (2 * n + 1)) cs = eligible_total (view (2 * n)) cs
         then Some (s1, pick (view (2 * n + 1)) cs (v mod eligible_total (view (2 * n)) cs))
         else weighted_ticket view cs (n + 1) s1)" .
    with IH [of s1] show ?thesis by simp
  qed (simp add: weighted_ticket.simps)
qed

section \<open>Fairness of the ticket\<close>

lemma card_pick:
  assumes "distinct cs" and "c \<in> set cs" and "e c"
  shows "card {r. pick e cs r = Some c} = candidate_weight c \<and> finite {r. pick e cs r = Some c}"
  using assms(1,2)
proof (induction cs)
  case (Cons x cs)
  show ?case
  proof (cases "x = c")
    case True
    then have "c \<notin> set cs" using Cons.prems by simp
    then have "pick e cs r \<noteq> Some c" for r using pick_Some [of e cs r c] by blast
    then have "{r. pick e (x # cs) r = Some c} = {..<candidate_weight c}"
      using assms(3) True by auto
    then show ?thesis by simp
  next
    case False
    with Cons have IH: "card {r. pick e cs r = Some c} = candidate_weight c"
      and fin: "finite {r. pick e cs r = Some c}" by auto
    show ?thesis
    proof (cases "e x")
      case True
      have "{r. pick e (x # cs) r = Some c} = (\<lambda>r. r + candidate_weight x) ` {r. pick e cs r = Some c}"
      proof (rule set_eqI, rule iffI)
        fix r assume "r \<in> {r. pick e (x # cs) r = Some c}"
        with True False have "\<not> r < candidate_weight x" "pick e cs (r - candidate_weight x) = Some c"
          by (auto split: if_splits)
        then show "r \<in> (\<lambda>r. r + candidate_weight x) ` {r. pick e cs r = Some c}"
          by (intro image_eqI [of _ _ "r - candidate_weight x"]) auto
      qed (use True in auto)
      then show ?thesis using IH fin by (simp add: card_image inj_on_def)
    qed (use IH fin in simp)
  qed
qed simp

lemma card_mod:
  assumes "finite {r. P r}" and "\<And>r. P r \<Longrightarrow> r < t"
  shows "card {v. v < q * t \<and> P (v mod t)} = q * card {r. P r}"
proof (induction q)
  case (Suc q)
  have split: "{v. v < Suc q * t \<and> P (v mod t)} =
      {v. v < q * t \<and> P (v mod t)} \<union> (\<lambda>r. q * t + r) ` {r. P r}" (is "?L = ?A \<union> ?B")
  proof (rule set_eqI, rule iffI)
    fix v assume v: "v \<in> ?L"
    show "v \<in> ?A \<union> ?B"
    proof (cases "v < q * t")
      case False
      then obtain r where r: "v = q * t + r" by (metis le_Suc_ex not_less)
      with v have "r < t" by simp
      with v r have "P r" by simp
      with r show ?thesis by blast
    qed (use v in simp)
  next
    fix v assume "v \<in> ?A \<union> ?B"
    then show "v \<in> ?L"
    proof
      assume "v \<in> ?B"
      then obtain r where "v = q * t + r" "P r" by blast
      with assms(2) [of r] show "v \<in> ?L" by simp
    qed auto
  qed
  have "?A \<inter> ?B = {}" by auto
  moreover have "finite ?A" by (rule finite_subset [of _ "{..<q * t}"]) auto
  ultimately have "card ?L = card ?A + card ?B"
    unfolding split using assms(1) by (intro card_Un_disjoint) auto
  moreover have "card ?B = card {r. P r}" by (intro card_image inj_onI) simp
  ultimately show ?case using Suc by simp
qed simp

lemma draw_below_step:
  "draw_below zone s = (if unat (snd (process_entropy_next s)) < zone
     then Some (fst (process_entropy_next s), unat (snd (process_entropy_next s)))
     else draw_below zone (fst (process_entropy_next s)))"
  by (subst draw_below.simps) (simp add: Let_def split: prod.split)

lemma weighted_ticket_draws:
  assumes "0 < eligible_total e cs"
  shows "weighted_ticket (\<lambda>_. e) cs n s =
    map_option (\<lambda>(s1, v). (s1, pick e cs (v mod eligible_total e cs))) (draw_below (ticket_zone (eligible_total e cs)) s)"
proof (cases "draw_below (ticket_zone (eligible_total e cs)) s")
  case None
  with assms show ?thesis by (subst weighted_ticket.simps) simp
next
  case (Some q)
  obtain s1 v where "q = (s1, v)" by fastforce
  with Some assms fold_ticket [of e cs "v mod eligible_total e cs" 0] show ?thesis
    by (subst weighted_ticket.simps) (auto simp: Let_def split: prod.splits)
qed

lemma weighted_ticket_one_draw:
  assumes "0 < eligible_total e cs"
  shows "weighted_ticket (\<lambda>_. e) cs n s = Some (fst (process_entropy_next s), r) \<longleftrightarrow>
    unat (snd (process_entropy_next s)) < ticket_zone (eligible_total e cs) \<and>
    r = pick e cs (unat (snd (process_entropy_next s)) mod eligible_total e cs)"
proof (cases "unat (snd (process_entropy_next s)) < ticket_zone (eligible_total e cs)")
  case True
  then show ?thesis by (auto simp: weighted_ticket_draws [OF assms] draw_below_step [of _ s])
next
  case False
  let ?z = "ticket_zone (eligible_total e cs)" and ?s = "fst (process_entropy_next s)"
  have "draw_below ?z ?s \<noteq> Some (?s, v)" for v
  proof
    assume "draw_below ?z ?s = Some (?s, v)"
    from draw_below_value [OF this] False show False by (simp add: process_entropy_next_def Let_def)
  qed
  with False show ?thesis
    by (auto simp: weighted_ticket_draws [OF assms] draw_below_step [of _ s])
qed

lemma entropy_values: "bij (\<lambda>s. snd (process_entropy_next s))"
proof -
  have "inj (\<lambda>s. snd (process_entropy_next s))"
    by (rule injI) (simp add: process_entropy_next_def Let_def inj_eq [OF splitmix_mix_inj])
  then show ?thesis by (simp add: bij_def finite_UNIV_inj_surj)
qed

lemma card_entropy:
  assumes "\<And>v. P v \<Longrightarrow> v < 2 ^ 64"
  shows "card {s. P (unat (snd (process_entropy_next s)))} = card {v. P v}"
proof -
  have inj: "inj (\<lambda>s. unat (snd (process_entropy_next s)))"
    by (rule injI, rule injD [OF bij_is_inj [OF entropy_values]]) (simp add: word_unat_eq_iff)
  have "v \<in> (\<lambda>s. unat (snd (process_entropy_next s))) ` {s. P (unat (snd (process_entropy_next s)))}" if "P v" for v
  proof -
    obtain s where "snd (process_entropy_next s) = of_nat v" using bij_is_surj [OF entropy_values] by (metis surjD)
    then have "unat (snd (process_entropy_next s)) = v" using assms [OF that] by (simp add: unat_of_nat)
    with that show ?thesis by (intro image_eqI [of _ _ s]) simp_all
  qed
  then have "(\<lambda>s. unat (snd (process_entropy_next s))) ` {s. P (unat (snd (process_entropy_next s)))} = {v. P v}" by auto
  then show ?thesis using card_image [OF inj_on_subset [OF inj]] by (metis (no_types, lifting) subset_UNIV)
qed

text \<open>C19. Weighted selection returns, also when channel health changes while it runs: whatever the scans up
  to number \<open>m\<close> observe, if eligibility no longer changes after that the loops end, because each
  round either decides or starts over with a fresh total, and because the entropy source is a permutation of
  all 64-bit values and so cannot keep missing the accepted zone while no other request draws from
  it. What is returned was eligible in the scan that selected it, and nothing is returned only if
  a scan found no eligible weight.\<close>

theorem weighted_ticket_returns:
  assumes "length cs < 2 ^ 32" and "\<forall>j \<ge> m. view j = e"
  shows "\<exists>s' r. weighted_ticket view cs n s = Some (s', r) \<and>
    (case r of
       None \<Rightarrow> \<exists>k \<ge> n. eligible_total (view (2 * k)) cs = 0
     | Some c \<Rightarrow> c \<in> set cs \<and> (\<exists>k \<ge> n. view (2 * k + 1) c))"
proof -
  have "\<forall>j \<ge> 2 * (n + m). view j = e" using assms(2) by simp
  from weighted_ticket_settles [OF assms(1) this] obtain s' r where
    wt: "weighted_ticket view cs n s = Some (s', r)" by fastforce
  from weighted_ticket_result [OF wt] wt show ?thesis by blast
qed

text \<open>C20. Weighted selection is exactly proportional. Of the states of the entropy source from which one draw decides, a
  candidate of weight \<open>w\<close> among the eligible ones is selected from \<open>w\<close> out of every block of
  as many states as the total weight, with no rounding bias; from every other state the drawn value is discarded, and
  the selection is the one made from the next state.\<close>

theorem weighted_ticket_fair:
  assumes "distinct cs" and "c \<in> set cs" and "e c" and "0 < eligible_total e cs"
  shows "card {s. weighted_ticket (\<lambda>_. e) cs n s = Some (fst (process_entropy_next s), Some c)} =
      (u64_max div eligible_total e cs) * candidate_weight c \<and>
    card {s. \<exists>r. weighted_ticket (\<lambda>_. e) cs n s = Some (fst (process_entropy_next s), r)} =
      (u64_max div eligible_total e cs) * eligible_total e cs \<and>
    (\<forall>s. (\<nexists>r. weighted_ticket (\<lambda>_. e) cs n s = Some (fst (process_entropy_next s), r)) \<longrightarrow>
      weighted_ticket (\<lambda>_. e) cs n s = weighted_ticket (\<lambda>_. e) cs n (fst (process_entropy_next s)))"
proof -
  let ?t = "eligible_total e cs"
  have z: "ticket_zone ?t \<le> u64_max" by (simp add: ticket_zone_def)
  have "card {s. weighted_ticket (\<lambda>_. e) cs n s = Some (fst (process_entropy_next s), Some c)} =
      card {v. v < ticket_zone ?t \<and> pick e cs (v mod ?t) = Some c}"
    unfolding weighted_ticket_one_draw [OF assms(4)] by (subst card_entropy [symmetric]) (use z in \<open>auto simp: eq_commute\<close>)
  also have "\<dots> = (u64_max div ?t) * card {r. pick e cs r = Some c}"
    unfolding ticket_zone_mult
    by (rule card_mod) (use card_pick [where e = e, OF assms(1-3)] pick_Some in auto)
  finally have 1: "card {s. weighted_ticket (\<lambda>_. e) cs n s = Some (fst (process_entropy_next s), Some c)} =
    (u64_max div ?t) * candidate_weight c" using card_pick [where e = e, OF assms(1-3)] by simp
  have "card {s. \<exists>r. weighted_ticket (\<lambda>_. e) cs n s = Some (fst (process_entropy_next s), r)} =
      card {v. v < ticket_zone ?t}"
    unfolding weighted_ticket_one_draw [OF assms(4)] by (subst card_entropy [symmetric]) (use z in auto)
  then have 2: "card {s. \<exists>r. weighted_ticket (\<lambda>_. e) cs n s = Some (fst (process_entropy_next s), r)} =
    (u64_max div ?t) * ?t" by (simp add: ticket_zone_mult)
  have "weighted_ticket (\<lambda>_. e) cs n s = weighted_ticket (\<lambda>_. e) cs n (fst (process_entropy_next s))"
    if "\<nexists>r. weighted_ticket (\<lambda>_. e) cs n s = Some (fst (process_entropy_next s), r)" for s
    using that unfolding weighted_ticket_one_draw [OF assms(4)]
    by (simp add: weighted_ticket_draws [OF assms(4)] draw_below_step [of _ s])
  with 1 2 show ?thesis by blast
qed

section \<open>Exactness of the round robin\<close>

definition srr_value :: "srr_current \<Rightarrow> route_candidate_identity \<Rightarrow> int" where
  "srr_value m k = (case hm_get m k of None \<Rightarrow> 0 | Some x \<Rightarrow> x)"

lemma srr_value_insert: "srr_value (hm_insert k v m) k' = (if k' = k then v else srr_value m k')"
  by (simp add: srr_value_def hm_get_insert)

lemma srr_value_Nil [simp]: "srr_value [] k = 0"
  by (simp add: srr_value_def)

lemma srr_step_simps:
  "\<not> e c \<Longrightarrow> srr_step e c (m, t, win) = (m, t, win)"
  "e c \<Longrightarrow> srr_step e c (m, t, win) =
     (hm_insert (from_candidate c) (srr_value m (from_candidate c) + int (candidate_weight c)) m,
      t + int (candidate_weight c),
      if (case win of None \<Rightarrow> True | Some (_, wv) \<Rightarrow> wv < srr_value m (from_candidate c) + int (candidate_weight c))
      then Some (c, srr_value m (from_candidate c) + int (candidate_weight c)) else win)"
  by (cases win; cases "hm_get m (from_candidate c)"; force simp: srr_step_def srr_value_def Let_def)+

lemma fold_srr_value:
  assumes "distinct (map from_candidate (filter e cs))"
  shows "srr_value (fst (fold (srr_step e) cs (m, t, win))) k = srr_value m k +
    (case List.find (\<lambda>c. e c \<and> from_candidate c = k) cs of None \<Rightarrow> 0 | Some c \<Rightarrow> int (candidate_weight c))"
  using assms
proof (induction cs arbitrary: m t win)
  case (Cons x cs)
  show ?case
  proof (cases "e x")
    case False
    with Cons show ?thesis by (simp add: srr_step_simps)
  next
    case True
    with Cons.prems have d: "distinct (map from_candidate (filter e cs))"
      and new: "\<forall>c \<in> set cs. e c \<longrightarrow> from_candidate c \<noteq> from_candidate x" by (auto simp: image_iff)
    show ?thesis
    proof (cases "from_candidate x = k")
      case True
      with new have "List.find (\<lambda>c. e c \<and> from_candidate c = k) cs = None"
        by (auto simp: find_None_iff)
      with Cons.IH [OF d] \<open>e x\<close> True show ?thesis by (simp add: srr_step_simps srr_value_insert)
    next
      case False
      with Cons.IH [OF d] \<open>e x\<close> show ?thesis by (simp add: srr_step_simps srr_value_insert)
    qed
  qed
qed simp

lemma fold_srr_total: "fst (snd (fold (srr_step e) cs (m, t, win))) = t + int (eligible_total e cs)"
proof (induction cs arbitrary: m t win)
  case (Cons x cs)
  then show ?case by (cases "e x") (simp_all add: srr_step_simps eligible_total_Cons)
qed (simp add: eligible_total_def)

text \<open>The scan's winner has the largest counter; ties go to the earlier candidate.\<close>

lemma fold_srr_winner:
  assumes "distinct (map from_candidate (filter e cs))"
    and "fold (srr_step e) cs (m, t, win) = (m', t', win')"
  shows "(case win' of
      None \<Rightarrow> win = None \<and> filter e cs = []
    | Some (c, v) \<Rightarrow> (win = Some (c, v) \<or> c \<in> set cs \<and> e c \<and> v = srr_value m' (from_candidate c)) \<and>
        (\<forall>d \<in> set cs. e d \<longrightarrow> srr_value m' (from_candidate d) \<le> v) \<and>
        (\<forall>c0 v0. win = Some (c0, v0) \<longrightarrow> v0 \<le> v))"
  using assms
proof (induction cs arbitrary: m t win)
  case (Cons x cs)
  show ?case
  proof (cases "e x")
    case False
    with Cons.prems have "distinct (map from_candidate (filter e cs))"
      "fold (srr_step e) cs (m, t, win) = (m', t', win')" by (simp_all add: srr_step_simps)
    from Cons.IH [OF this] False show ?thesis by (auto split: option.splits)
  next
    case True
    let ?v = "srr_value m (from_candidate x) + int (candidate_weight x)"
    let ?m1 = "hm_insert (from_candidate x) ?v m" and ?t1 = "t + int (candidate_weight x)"
    let ?win1 = "if (case win of None \<Rightarrow> True | Some (_, wv) \<Rightarrow> wv < ?v) then Some (x, ?v) else win"
    from True Cons.prems have d: "distinct (map from_candidate (filter e cs))"
      and new: "\<forall>c \<in> set cs. e c \<longrightarrow> from_candidate c \<noteq> from_candidate x"
      and f: "fold (srr_step e) cs (?m1, ?t1, ?win1) = (m', t', win')"
      by (auto simp: image_iff srr_step_simps)
    have "List.find (\<lambda>c. e c \<and> from_candidate c = from_candidate x) cs = None"
      using new by (auto simp: find_None_iff)
    with fold_srr_value [OF d, of ?m1 ?t1 ?win1 "from_candidate x"] f
    have xv: "srr_value m' (from_candidate x) = ?v" by (simp add: srr_value_insert)
    have "?win1 \<noteq> None" by (auto split: option.splits)
    with Cons.IH [OF d f] obtain c v where w': "win' = Some (c, v)"
      and src: "?win1 = Some (c, v) \<or> c \<in> set cs \<and> e c \<and> v = srr_value m' (from_candidate c)"
      and mx: "\<forall>d \<in> set cs. e d \<longrightarrow> srr_value m' (from_candidate d) \<le> v"
      and old: "\<forall>c0 v0. ?win1 = Some (c0, v0) \<longrightarrow> v0 \<le> v"
      by (cases win') auto
    have "?v \<le> v \<and> (\<forall>c0 v0. win = Some (c0, v0) \<longrightarrow> v0 \<le> v)"
      using old by (cases win) (auto split: if_splits)
    moreover have "win = Some (c, v) \<or> c \<in> set (x # cs) \<and> e c \<and> v = srr_value m' (from_candidate c)"
      using src xv True by (auto split: if_splits)
    ultimately show ?thesis using w' mx xv by simp
  qed
qed (simp split: option.splits)

section \<open>The rounds\<close>

fun srr_rounds :: "('d compiled_candidate \<Rightarrow> bool) \<Rightarrow> 'd compiled_candidate list \<Rightarrow> srr_current \<Rightarrow> nat
    \<Rightarrow> srr_current \<times> 'd compiled_candidate option list" where
  "srr_rounds e cs m 0 = (m, [])"
| "srr_rounds e cs m (Suc n) =
    (let (m1, r) = smooth_round_robin e cs m; (m2, rs) = srr_rounds e cs m1 n in (m2, r # rs))"

definition srr_balanced :: "('d compiled_candidate \<Rightarrow> bool) \<Rightarrow> 'd compiled_candidate list \<Rightarrow> srr_current \<Rightarrow> bool" where
  "srr_balanced e cs m \<longleftrightarrow>
    (\<Sum>c\<in>set (filter e cs). srr_value m (from_candidate c)) = 0 \<and>
    (\<forall>c\<in>set (filter e cs). - int (eligible_total e cs) < srr_value m (from_candidate c))"

lemma eligible_total_sum:
  "distinct (filter e cs) \<Longrightarrow> eligible_total e cs = (\<Sum>c\<in>set (filter e cs). candidate_weight c)"
proof (induction cs)
  case (Cons x cs)
  then show ?case by (cases "e x") (auto simp: eligible_total_Cons)
qed (simp add: eligible_total_def)

lemma smooth_round:
  assumes d: "distinct (map from_candidate (filter e cs))" and pos: "0 < eligible_total e cs"
    and bal: "srr_balanced e cs m" and r: "smooth_round_robin e cs m = (m', r)"
  obtains c where "r = Some c" and "c \<in> set (filter e cs)" and "srr_balanced e cs m'"
    and "\<And>x. x \<in> set (filter e cs) \<Longrightarrow> srr_value m' (from_candidate x) =
      srr_value m (from_candidate x) + int (candidate_weight x) -
      (if x = c then int (eligible_total e cs) else 0)"
proof -
  let ?E = "set (filter e cs)" and ?T = "int (eligible_total e cs)"
  obtain m1 t1 w1 where f: "fold (srr_step e) cs (m, 0, None) = (m1, t1, w1)" by (metis prod_cases3)
  have t1: "t1 = ?T" using fold_srr_total [of e cs m 0 None] f by simp
  have inj: "inj_on from_candidate ?E" and dE: "distinct (filter e cs)"
    using d by (simp_all add: distinct_map)
  have v1: "srr_value m1 (from_candidate x) = srr_value m (from_candidate x) + int (candidate_weight x)"
    if x: "x \<in> ?E" for x
  proof -
    have "List.find (\<lambda>c. e c \<and> from_candidate c = from_candidate x) cs \<noteq> None"
      using x by (auto simp: find_None_iff)
    then obtain y where y: "List.find (\<lambda>c. e c \<and> from_candidate c = from_candidate x) cs = Some y" by blast
    then have "y \<in> ?E" "from_candidate y = from_candidate x" by (auto dest: find_SomeD)
    with inj x have "y = x" by (auto dest: inj_onD)
    with y fold_srr_value [OF d, of m 0 None "from_candidate x"] f show ?thesis by simp
  qed
  have sum1: "(\<Sum>x\<in>?E. srr_value m1 (from_candidate x)) = ?T"
    using bal v1 eligible_total_sum [OF dE] by (simp add: srr_balanced_def sum.distrib)
  have ne: "?E \<noteq> {}" using pos eligible_total_sum [OF dE] by force
  with fold_srr_winner [OF d f] obtain c v where w1: "w1 = Some (c, v)" and c: "c \<in> ?E"
    and v: "v = srr_value m1 (from_candidate c)" and mx: "\<forall>x\<in>?E. srr_value m1 (from_candidate x) \<le> v"
    by (cases w1) auto
  have vpos: "0 < v"
  proof (rule ccontr)
    assume "\<not> 0 < v"
    with mx have "(\<Sum>x\<in>?E. srr_value m1 (from_candidate x)) \<le> 0" by (intro sum_nonpos) force
    with sum1 pos show False by simp
  qed
  have m': "m' = hm_insert (from_candidate c) (v - ?T) m1" and rc: "r = Some c"
    using r f w1 t1 v vpos by (auto simp: smooth_round_robin_def srr_value_def split: option.splits)
  have val: "srr_value m' (from_candidate x) =
      srr_value m1 (from_candidate x) - (if x = c then ?T else 0)" if "x \<in> ?E" for x
    using inj_onD [OF inj _ that c] v by (auto simp: m' srr_value_insert)
  have "srr_balanced e cs m'"
    unfolding srr_balanced_def
  proof
    show "(\<Sum>x\<in>?E. srr_value m' (from_candidate x)) = 0"
      using sum1 c by (simp add: val sum_subtractf)
    show "\<forall>x\<in>?E. - ?T < srr_value m' (from_candidate x)"
    proof
      fix x assume x: "x \<in> ?E"
      show "- ?T < srr_value m' (from_candidate x)"
        using bal x vpos v val [OF x] v1 [OF x]
        by (cases "x = c") (auto simp: srr_balanced_def dest: bspec [of _ _ x])
    qed
  qed
  then show ?thesis using that [of c] rc c val v1 by simp
qed

lemma srr_rounds_spec:
  assumes d: "distinct (map from_candidate (filter e cs))" and pos: "0 < eligible_total e cs"
  shows "srr_balanced e cs m \<Longrightarrow> srr_rounds e cs m n = (m', rs) \<Longrightarrow>
    srr_balanced e cs m' \<and> length rs = n \<and> set rs \<subseteq> Some ` set (filter e cs) \<and>
    (\<forall>x\<in>set (filter e cs). srr_value m' (from_candidate x) =
      srr_value m (from_candidate x) + int n * int (candidate_weight x)
      - int (eligible_total e cs) * int (count_list rs (Some x)))"
proof (induction n arbitrary: m rs)
  case (Suc n)
  obtain m1 r where r: "smooth_round_robin e cs m = (m1, r)" by fastforce
  obtain m2 rs' where rs': "srr_rounds e cs m1 n = (m2, rs')" by fastforce
  from Suc.prems r rs' have rs'': "srr_rounds e cs m1 n = (m', rs')" and [simp]: "rs = r # rs'" by auto
  from smooth_round [OF d pos Suc.prems(1) r] obtain c where c: "r = Some c" "c \<in> set (filter e cs)"
    and b: "srr_balanced e cs m1"
    and v: "\<And>x. x \<in> set (filter e cs) \<Longrightarrow> srr_value m1 (from_candidate x) =
      srr_value m (from_candidate x) + int (candidate_weight x) -
      (if x = c then int (eligible_total e cs) else 0)" by blast
  from Suc.IH [OF b rs''] have IH: "srr_balanced e cs m'" "length rs' = n"
    "set rs' \<subseteq> Some ` set (filter e cs)"
    "\<And>x. x \<in> set (filter e cs) \<Longrightarrow> srr_value m' (from_candidate x) =
      srr_value m1 (from_candidate x) + int n * int (candidate_weight x)
      - int (eligible_total e cs) * int (count_list rs' (Some x))" by auto
  have "srr_value m' (from_candidate x) =
      srr_value m (from_candidate x) + int (Suc n) * int (candidate_weight x)
      - int (eligible_total e cs) * int (count_list rs (Some x))" if "x \<in> set (filter e cs)" for x
    using c(1) by (simp add: IH(4) [OF that] v [OF that] algebra_simps)
  with IH c show ?case by simp
qed auto

lemma count_list_sum:
  assumes "finite A" "set rs \<subseteq> A"
  shows "(\<Sum>x\<in>A. count_list rs x) = length rs"
  using assms(2)
proof (induction rs)
  case (Cons y rs)
  have "(\<Sum>x\<in>A. count_list (y # rs) x) = (\<Sum>x\<in>A. count_list rs x + (if x = y then 1 else 0))"
    by (intro sum.cong) auto
  with Cons assms(1) show ?case by (simp add: sum.distrib)
qed simp

text \<open>C21. Smooth weighted round robin is exact: over as many rounds as the total weight of the
  eligible candidates, with stable eligibility and fresh counters, every eligible candidate is
  selected exactly as often as its weight says, and nothing else is selected.\<close>

theorem smooth_round_robin_exact:
  assumes d: "distinct (map from_candidate (filter e cs))" and c: "c \<in> set cs" "e c"
    and r: "srr_rounds e cs [] (eligible_total e cs) = (m', rs)" and pos: "0 < eligible_total e cs"
  shows "count_list rs (Some c) = candidate_weight c \<and> set rs \<subseteq> Some ` set (filter e cs)"
proof -
  let ?E = "set (filter e cs)" and ?T = "eligible_total e cs"
  have b: "srr_balanced e cs []" using pos by (simp add: srr_balanced_def)
  note spec = srr_rounds_spec [OF d pos b r]
  have le: "count_list rs (Some x) \<le> candidate_weight x" if x: "x \<in> ?E" for x
  proof -
    have "- int ?T < int ?T * int (candidate_weight x) - int ?T * int (count_list rs (Some x))"
      using spec x by (auto simp: srr_balanced_def)
    then have "int ?T * int (count_list rs (Some x)) < int ?T * (int (candidate_weight x) + 1)"
      by (simp add: algebra_simps)
    with pos show ?thesis by (simp add: mult_less_cancel_left)
  qed
  have "(\<Sum>x\<in>?E. count_list rs (Some x)) = (\<Sum>y\<in>Some ` ?E. count_list rs y)"
    by (simp add: sum.reindex)
  also have "\<dots> = length rs" using spec by (intro count_list_sum) auto
  also have "\<dots> = (\<Sum>x\<in>?E. candidate_weight x)"
    using spec d by (simp add: distinct_map eligible_total_sum)
  finally have "(\<Sum>x\<in>?E. count_list rs (Some x)) = (\<Sum>x\<in>?E. candidate_weight x)" .
  with le c have "count_list rs (Some c) = candidate_weight c"
    by (intro sum_mono_inv [of "\<lambda>x. count_list rs (Some x)" ?E candidate_weight c]) auto
  with spec show ?thesis by simp
qed

section \<open>The contract of a tier's strategy\<close>

text \<open>What selection relies on, whichever strategy a tier has: on the tiers it can serve, a strategy
  returns, and it returns an eligible candidate exactly when there is one.\<close>

locale tier_picker =
  fixes pick_in :: "('c \<Rightarrow> bool) \<Rightarrow> 'c list \<Rightarrow> 's \<Rightarrow> ('s \<times> 'c option) option"
    and served :: "'c list \<Rightarrow> bool"
  assumes pick_returns: "served cs \<Longrightarrow> \<exists>s' r. pick_in e cs s = Some (s', r)"
    and pick_sound: "pick_in e cs s = Some (s', Some c) \<Longrightarrow> c \<in> set cs \<and> e c"
    and pick_complete: "served cs \<Longrightarrow> pick_in e cs s = Some (s', None) \<Longrightarrow> c \<in> set cs \<Longrightarrow> \<not> e c"
begin

lemma pick_none_iff:
  assumes "served cs" and "pick_in e cs s = Some (s', r)"
  shows "r = None \<longleftrightarrow> (\<forall>c \<in> set cs. \<not> e c)"
  using pick_sound [of e cs s s'] pick_complete [OF assms(1), of e s s'] assms(2) by (cases r) auto

lemma pick_decides:
  assumes "served cs"
  obtains (none) s' where "pick_in e cs s = Some (s', None)" and "\<forall>c \<in> set cs. \<not> e c"
    | (some) s' c where "pick_in e cs s = Some (s', Some c)" and "c \<in> set cs" and "e c"
proof -
  from pick_returns [OF assms, of e s] obtain s' r where p: "pick_in e cs s = Some (s', r)" by blast
  show ?thesis
  proof (cases r)
    case None
    with p pick_none_iff [OF assms p] show ?thesis using none by blast
  next
    case (Some c)
    with p pick_sound [of e cs s s' c] show ?thesis using some by blast
  qed
qed

end

definition positive_tier :: "'d compiled_candidate list \<Rightarrow> bool" where
  "positive_tier cs \<longleftrightarrow> length cs < 2 ^ 32 \<and> (\<forall>c \<in> set cs. 0 < cc_weight c)"

lemma eligible_total_zero:
  "positive_tier cs \<Longrightarrow> eligible_total e cs = 0 \<Longrightarrow> c \<in> set cs \<Longrightarrow> \<not> e c"
  by (auto simp: positive_tier_def eligible_total_def candidate_weight_def unat_eq_zero)

interpretation ticket: tier_picker "\<lambda>e cs s. weighted_ticket (\<lambda>_. e) cs 0 s" positive_tier
proof
  fix cs :: "'a compiled_candidate list" and e s assume cs: "positive_tier cs"
  then show "\<exists>s' r. weighted_ticket (\<lambda>_. e) cs 0 s = Some (s', r)"
    using weighted_ticket_stable [of cs 0 "\<lambda>_. e" e s] by (simp add: positive_tier_def)
next
  fix cs :: "'a compiled_candidate list" and e s s' c
  assume "weighted_ticket (\<lambda>_. e) cs 0 s = Some (s', Some c)"
  from weighted_ticket_result [OF this] show "c \<in> set cs \<and> e c" by auto
next
  fix cs :: "'a compiled_candidate list" and e s s' c
  assume "positive_tier cs" "weighted_ticket (\<lambda>_. e) cs 0 s = Some (s', None)" "c \<in> set cs"
  then show "\<not> e c" using weighted_ticket_result [of "\<lambda>_. e" cs 0 s s' None] eligible_total_zero by auto
qed

lemma fold_srr_get:
  "e c \<Longrightarrow> c \<in> set cs \<Longrightarrow> hm_get (fst (fold (srr_step e) cs (m, t, win))) (from_candidate c) \<noteq> None"
  "hm_get m k \<noteq> None \<Longrightarrow> hm_get (fst (fold (srr_step e) cs (m, t, win))) k \<noteq> None"
proof -
  have keep: "hm_get m k \<noteq> None \<Longrightarrow> hm_get (fst (fold (srr_step e) cs (m, t, win))) k \<noteq> None" for cs m t win k
  proof (induction cs arbitrary: m t win)
    case (Cons x cs)
    then show ?case by (cases "e x") (simp_all add: srr_step_simps hm_get_insert)
  qed simp
  show "hm_get m k \<noteq> None \<Longrightarrow> hm_get (fst (fold (srr_step e) cs (m, t, win))) k \<noteq> None" by (rule keep)
  show "e c \<Longrightarrow> c \<in> set cs \<Longrightarrow> hm_get (fst (fold (srr_step e) cs (m, t, win))) (from_candidate c) \<noteq> None"
  proof (induction cs arbitrary: m t win)
    case (Cons x cs)
    show ?case
    proof (cases "x = c")
      case True
      with Cons.prems(1) show ?thesis using keep by (simp add: srr_step_simps hm_get_insert)
    next
      case False
      with Cons show ?thesis by (cases "srr_step e x (m, t, win)") simp
    qed
  qed simp
qed

lemma fold_srr_winner_some:
  "snd (snd (fold (srr_step e) cs (m, t, win))) = None \<longleftrightarrow> win = None \<and> filter e cs = []"
proof (induction cs arbitrary: m t win)
  case (Cons x cs)
  then show ?case by (cases "e x"; cases win) (simp_all add: srr_step_simps)
qed simp

lemma fold_srr_winner_eligible:
  "snd (snd (fold (srr_step e) cs (m, t, win))) = Some (c, v) \<Longrightarrow> win = Some (c, v) \<or> c \<in> set cs \<and> e c"
proof (induction cs arbitrary: m t win)
  case (Cons x cs)
  show ?case
  proof (cases "e x")
    case True
    with Cons.prems Cons.IH [OF Cons.prems [simplified srr_step_simps(2) [of e x m t win, OF True] fold_Cons comp_def]]
    show ?thesis by (auto split: if_splits)
  next
    case False
    with Cons show ?thesis by (auto simp: srr_step_simps)
  qed
qed simp

lemma smooth_round_robin_picks:
  "snd (smooth_round_robin e cs m) = None \<longleftrightarrow> (\<forall>c \<in> set cs. \<not> e c)"
  "snd (smooth_round_robin e cs m) = Some c \<Longrightarrow> c \<in> set cs \<and> e c"
proof -
  obtain m1 t1 w1 where f: "fold (srr_step e) cs (m, 0, None) = (m1, t1, w1)" by (metis prod_cases3)
  have none: "w1 = None \<longleftrightarrow> (\<forall>c \<in> set cs. \<not> e c)"
    using fold_srr_winner_some [of e cs m 0 None] f by (simp add: filter_empty_conv)
  have some: "d \<in> set cs \<and> e d \<and> hm_get m1 (from_candidate d) \<noteq> None" if "w1 = Some (d, v)" for d v
    using that f fold_srr_winner_eligible [of e cs m 0 None d v] fold_srr_get(1) [of e d cs m 0 None] by auto
  show "snd (smooth_round_robin e cs m) = None \<longleftrightarrow> (\<forall>c \<in> set cs. \<not> e c)"
    using none some f by (cases w1) (auto simp: smooth_round_robin_def split: option.splits)
  show "c \<in> set cs \<and> e c" if "snd (smooth_round_robin e cs m) = Some c"
    using some f that by (cases w1) (auto simp: smooth_round_robin_def split: option.splits)
qed

interpretation robin: tier_picker "\<lambda>e cs m. Some (smooth_round_robin e cs m)" "\<lambda>_. True"
proof
  fix e and cs :: "'a compiled_candidate list" and s s' c
  assume "Some (smooth_round_robin e cs s) = Some (s', Some c)"
  then show "c \<in> set cs \<and> e c" using smooth_round_robin_picks(2) [of e cs s c] by simp
next
  fix e and cs :: "'a compiled_candidate list" and s s' c
  assume "Some (smooth_round_robin e cs s) = Some (s', None)" "c \<in> set cs"
  then show "\<not> e c" using smooth_round_robin_picks(1) [of e cs s] by simp
qed (metis surj_pair)

section \<open>Witnesses\<close>

definition sample_tier :: "int compiled_candidate list" where
  "sample_tier = [sample_candidate 1 5, sample_candidate 2 1, sample_candidate 3 2]"

lemmas sample_tier_simps =
  sample_tier_def sample_candidate_def sample_channel_def channel_new_def candidate_weight_def from_candidate_def

theorem weighted_ticket_returns_witness:
  "\<exists>s' r. weighted_ticket (\<lambda>j c. j = 0 \<or> c = sample_candidate 1 5) sample_tier 0 7 = Some (s', r)"
  using weighted_ticket_returns [of sample_tier 1 "\<lambda>j c. j = 0 \<or> c = sample_candidate 1 5" "\<lambda>c. c = sample_candidate 1 5" 0 7]
  by (auto simp: sample_tier_def)

lemma sample_tier_facts:
  "distinct sample_tier" "distinct (map from_candidate (filter (\<lambda>_. True) sample_tier))"
  "eligible_total (\<lambda>_. True) sample_tier = 8"
  by (simp_all add: sample_tier_simps eligible_total_Cons, simp_all add: eligible_total_def)

theorem weighted_ticket_fair_witness:
  "card {s. weighted_ticket (\<lambda>_ _. True) sample_tier 0 s = Some (fst (process_entropy_next s), Some (sample_candidate 1 5))} =
    (u64_max div 8) * 5"
proof -
  have "sample_candidate 1 5 \<in> set sample_tier" by (simp add: sample_tier_def)
  moreover have "candidate_weight (sample_candidate 1 5) = 5"
    by (simp add: candidate_weight_def sample_candidate_def)
  ultimately show ?thesis
    using weighted_ticket_fair [of sample_tier "sample_candidate 1 5" "\<lambda>_. True" 0]
    unfolding sample_tier_facts(3) using sample_tier_facts(1) by (metis TrueI zero_less_numeral)
qed

theorem smooth_round_robin_exact_witness:
  "count_list (snd (srr_rounds (\<lambda>_. True) sample_tier [] 8)) (Some (sample_candidate 1 5)) = 5"
proof -
  obtain m rs where r: "srr_rounds (\<lambda>_. True) sample_tier [] 8 = (m, rs)" by fastforce
  have "count_list rs (Some (sample_candidate 1 5)) = candidate_weight (sample_candidate 1 5)"
    using smooth_round_robin_exact [of "\<lambda>_. True" sample_tier "sample_candidate 1 5" m rs] r
    unfolding sample_tier_facts(3) using sample_tier_facts(2)
    by (simp add: sample_tier_def del: filter_True)
  then show ?thesis using r by (simp add: candidate_weight_def sample_candidate_def)
qed

end
