(* ===== verification/Channel_Health.thy ===== *)
theory Channel_Health
  imports Lease_Pool
begin

text \<open>
  Passive channel health, the \<^verbatim>\<open>ChannelState\<close> of
  \<^verbatim>\<open>src/routing/mod.rs\<close>: the in-flight counter, the consecutive connection failures, and the
  cool-down word whose top bit marks the half-open probe. Every access of the code is sequentially consistent. A
  method is one function on \<open>channel_state\<close>, composed of functions for its single atomic accesses, which
  are the steps of the interleavings in the last section and in \<open>Channel_Leases\<close>. The compare-exchange
  loop of \<open>try_acquire\<close> reads the word again only when another thread changed it, so
  \<open>claim_word\<close> is the last iteration of that loop. \<open>lease_connection_failed\<close>,
  \<open>lease_probe_failed\<close> and \<open>lease_drop_state\<close> are the methods of
  \<^verbatim>\<open>ChannelLease\<close> on the state their lease points to.
\<close>

section \<open>State and operations\<close>

record passive_health_policy =
  ph_connection_failure_threshold :: u32
  ph_cooldown :: duration

definition passive_health_default :: passive_health_policy where
  "passive_health_default = \<lparr>ph_connection_failure_threshold = 3, ph_cooldown = from_secs 30\<rparr>"

text \<open>The two assertions of \<^verbatim>\<open>with_seams\<close> and \<^verbatim>\<open>update_policy\<close>.\<close>

definition policy_accepted :: "passive_health_policy \<Rightarrow> bool" where
  "policy_accepted p \<longleftrightarrow> 0 < ph_connection_failure_threshold p \<and> ph_cooldown p \<noteq> 0"

record channel_state =
  cs_in_flight :: u64
  cs_consecutive_connection_failures :: u32
  cs_cooldown_state :: u64
  cs_active :: bool

definition channel_state_new :: "bool \<Rightarrow> channel_state" where
  "channel_state_new active =
     \<lparr>cs_in_flight = 0, cs_consecutive_connection_failures = 0, cs_cooldown_state = 0,
      cs_active = active\<rparr>"

definition HALF_OPEN_CLAIM :: u64 where
  "HALF_OPEN_CLAIM = push_bit 63 1"

definition COOLDOWN_MILLIS_MASK :: u64 where
  "COOLDOWN_MILLIS_MASK = HALF_OPEN_CLAIM - 1"

definition duration_millis :: "duration \<Rightarrow> u64" where
  "duration_millis v =
     min (if as_millis v < 2 ^ 64 then of_nat (as_millis v) else COOLDOWN_MILLIS_MASK - 1)
       (COOLDOWN_MILLIS_MASK - 1)"

definition encode_millis :: "duration \<Rightarrow> u64" where
  "encode_millis v = sat_add (duration_millis v) 1"

definition decode_millis :: "u64 \<Rightarrow> u64" where
  "decode_millis w = sat_sub (w AND COOLDOWN_MILLIS_MASK) 1"

definition half_open_claimed :: "u64 \<Rightarrow> bool" where
  "half_open_claimed w \<longleftrightarrow> w AND HALF_OPEN_CLAIM \<noteq> 0"

definition is_usable :: "channel_state \<Rightarrow> duration \<Rightarrow> bool" where
  "is_usable cs now \<longleftrightarrow>
     (let w = cs_cooldown_state cs
      in w = 0 \<or> (\<not> half_open_claimed w \<and> decode_millis w \<le> duration_millis now))"

text \<open>The word decides first; the counter follows in a second access.\<close>

definition claim_word :: "channel_state \<Rightarrow> duration \<Rightarrow> channel_state \<times> u64 option" where
  "claim_word cs now =
     (let w = cs_cooldown_state cs
      in if w = 0 then (cs, Some 0)
         else if half_open_claimed w \<or> duration_millis now < decode_millis w then (cs, None)
         else (let claimed = w OR HALF_OPEN_CLAIM in (cs\<lparr>cs_cooldown_state := claimed\<rparr>, Some claimed)))"

definition enter_flight :: "channel_state \<Rightarrow> channel_state" where
  "enter_flight cs = cs\<lparr>cs_in_flight := cs_in_flight cs + 1\<rparr>"

definition try_acquire :: "channel_state \<Rightarrow> duration \<Rightarrow> channel_state \<times> u64 option" where
  "try_acquire cs now =
     (case claim_word cs now of
        (cs1, None) \<Rightarrow> (cs1, None)
      | (cs1, Some claim) \<Rightarrow> (enter_flight cs1, Some claim))"

definition release :: "channel_state \<Rightarrow> channel_state \<times> u64" where
  "release cs = (cs\<lparr>cs_in_flight := cs_in_flight cs - 1\<rparr>, sat_sub (cs_in_flight cs) 1)"

definition count_failure :: "channel_state \<Rightarrow> channel_state" where
  "count_failure cs =
     cs\<lparr>cs_consecutive_connection_failures := sat_add (cs_consecutive_connection_failures cs) 1\<rparr>"

definition open_cooldown :: "duration \<Rightarrow> channel_state \<Rightarrow> channel_state" where
  "open_cooldown cooldown_until cs = cs\<lparr>cs_cooldown_state := encode_millis cooldown_until\<rparr>"

definition connection_failed :: "channel_state \<Rightarrow> u32 \<Rightarrow> duration \<Rightarrow> channel_state" where
  "connection_failed cs threshold cooldown_until =
     (let cs1 = count_failure cs
      in if threshold \<le> cs_consecutive_connection_failures cs1 then open_cooldown cooldown_until cs1 else cs1)"

definition clear_failures :: "channel_state \<Rightarrow> channel_state" where
  "clear_failures cs = cs\<lparr>cs_consecutive_connection_failures := 0\<rparr>"

definition clear_cooldown :: "channel_state \<Rightarrow> channel_state" where
  "clear_cooldown cs = cs\<lparr>cs_cooldown_state := 0\<rparr>"

definition response_headers_received :: "channel_state \<Rightarrow> channel_state" where
  "response_headers_received cs = clear_cooldown (clear_failures cs)"

definition probe_failed :: "channel_state \<Rightarrow> u64 \<Rightarrow> duration \<Rightarrow> channel_state" where
  "probe_failed cs claim cooldown_until =
     (if claim \<noteq> 0 \<and> cs_cooldown_state cs = claim
      then cs\<lparr>cs_cooldown_state := encode_millis cooldown_until\<rparr> else cs)"

record channel_health_snapshot =
  hs_in_flight :: u64
  hs_consecutive_connection_failures :: u32
  hs_cooling_down :: bool
  hs_half_open_probe :: bool

definition state_snapshot :: "channel_state \<Rightarrow> duration \<Rightarrow> channel_health_snapshot" where
  "state_snapshot cs now =
     (let w = cs_cooldown_state cs
      in \<lparr>hs_in_flight = cs_in_flight cs,
          hs_consecutive_connection_failures = cs_consecutive_connection_failures cs,
          hs_cooling_down = (w \<noteq> 0 \<and> duration_millis now < decode_millis w),
          hs_half_open_probe = half_open_claimed w\<rparr>)"

text \<open>The lease methods. The addition of the cool-down to the clock panics on overflow.\<close>

definition lease_connection_failed ::
  "passive_health_policy \<Rightarrow> duration \<Rightarrow> channel_state \<Rightarrow> channel_state option" where
  "lease_connection_failed p now cs =
     map_option (connection_failed cs (ph_connection_failure_threshold p)) (duration_add now (ph_cooldown p))"

definition lease_probe_failed ::
  "passive_health_policy \<Rightarrow> duration \<Rightarrow> u64 \<Rightarrow> channel_state \<Rightarrow> channel_state option" where
  "lease_probe_failed p now claim cs =
     (if claim = 0 then Some cs
      else map_option (probe_failed cs claim) (duration_add now (ph_cooldown p)))"

definition return_claim :: "u64 \<Rightarrow> channel_state \<Rightarrow> channel_state" where
  "return_claim claim cs =
     (if claim \<noteq> 0 \<and> cs_cooldown_state cs = claim
      then cs\<lparr>cs_cooldown_state := claim AND COOLDOWN_MILLIS_MASK\<rparr> else cs)"

definition lease_drop_state :: "u64 \<Rightarrow> channel_state \<Rightarrow> channel_state \<times> u64" where
  "lease_drop_state claim cs = (let (cs1, remaining) = release cs in (return_claim claim cs1, remaining))"

lemma try_acquire_eq:
  "try_acquire cs now =
     (let w = cs_cooldown_state cs
      in if w = 0 then (cs\<lparr>cs_in_flight := cs_in_flight cs + 1\<rparr>, Some 0)
         else if half_open_claimed w \<or> duration_millis now < decode_millis w then (cs, None)
         else (cs\<lparr>cs_cooldown_state := w OR HALF_OPEN_CLAIM, cs_in_flight := cs_in_flight cs + 1\<rparr>,
               Some (w OR HALF_OPEN_CLAIM)))"
  by (simp add: try_acquire_def claim_word_def enter_flight_def Let_def)

lemmas health_ops = enter_flight_def release_def count_failure_def open_cooldown_def clear_failures_def
  clear_cooldown_def probe_failed_def return_claim_def

section \<open>The cool-down word\<close>

lemma half_open_claimed_bit: "half_open_claimed w \<longleftrightarrow> bit w 63"
  by (simp add: half_open_claimed_def HALF_OPEN_CLAIM_def bit_iff_and_push_bit_not_eq_0)

lemma bit_claim: "bit HALF_OPEN_CLAIM n \<longleftrightarrow> n = 63"
  unfolding HALF_OPEN_CLAIM_def bit_push_bit_iff by (auto simp: bit_1_iff)

lemma cooldown_mask: "COOLDOWN_MILLIS_MASK = mask 63"
  by (simp add: COOLDOWN_MILLIS_MASK_def HALF_OPEN_CLAIM_def mask_eq_exp_minus_1 push_bit_eq_mult)

lemma and_cooldown_mask: "w AND COOLDOWN_MILLIS_MASK = take_bit 63 w"
  by (simp add: cooldown_mask take_bit_eq_mask)

lemma take_bit_or_claim: "take_bit 63 (w OR HALF_OPEN_CLAIM) = take_bit 63 w"
  by (rule bit_eqI) (auto simp: bit_take_bit_iff bit_or_iff bit_claim)

lemma claimed_or: "half_open_claimed (w OR HALF_OPEN_CLAIM)"
  by (simp add: half_open_claimed_bit bit_or_iff bit_claim)

lemma not_claimed_take_bit: "\<not> half_open_claimed (take_bit 63 w)"
  by (simp add: half_open_claimed_bit bit_take_bit_iff)

lemma unat_take_bit_63: "unat (take_bit 63 w :: u64) = unat w mod 2 ^ 63"
  by (simp add: take_bit_eq_mod unat_mod)

lemma unclaimed_take_bit: "\<not> half_open_claimed w \<Longrightarrow> take_bit 63 w = w"
proof (rule bit_word_eqI)
  fix n assume "\<not> half_open_claimed w" "n < LENGTH(64)"
  then show "bit (take_bit 63 w) n = bit w n"
    by (cases "n = 63") (auto simp: half_open_claimed_bit bit_take_bit_iff)
qed

lemma claimed_split: "half_open_claimed w \<Longrightarrow> take_bit 63 w OR HALF_OPEN_CLAIM = w"
proof (rule bit_word_eqI)
  fix n assume "half_open_claimed w" "n < LENGTH(64)"
  then show "bit (take_bit 63 w OR HALF_OPEN_CLAIM) n = bit w n"
    by (cases "n = 63") (auto simp: half_open_claimed_bit bit_take_bit_iff bit_or_iff bit_claim)
qed

lemma unat_cooldown_mask: "unat COOLDOWN_MILLIS_MASK = 2 ^ 63 - 1"
  by (simp add: COOLDOWN_MILLIS_MASK_def HALF_OPEN_CLAIM_def push_bit_eq_mult)

lemma unat_duration_millis: "unat (duration_millis v) = min (as_millis v) (2 ^ 63 - 2)"
proof -
  have m: "unat (COOLDOWN_MILLIS_MASK - 1) = 2 ^ 63 - 2"
    by (simp add: COOLDOWN_MILLIS_MASK_def HALF_OPEN_CLAIM_def push_bit_eq_mult)
  have "unat (of_nat (as_millis v) :: u64) = as_millis v" if "as_millis v < 2 ^ 64"
    using that by (simp add: unat_of_nat)
  then show ?thesis
    by (auto simp: duration_millis_def min_def word_le_nat_alt m)
qed

lemma unat_encode_millis: "unat (encode_millis v) = min (as_millis v) (2 ^ 63 - 2) + 1"
  by (simp add: encode_millis_def unat_sat_add unat_duration_millis)

lemma encode_unclaimed: "\<not> half_open_claimed (encode_millis v)"
proof -
  have "unat (encode_millis v) < 2 ^ 63" by (simp add: unat_encode_millis min_def)
  then have "take_bit 63 (encode_millis v) = encode_millis v"
    unfolding word_unat_eq_iff unat_take_bit_63 by (rule mod_less)
  then show ?thesis using not_claimed_take_bit [of "encode_millis v"] by simp
qed

lemma encode_nonzero: "encode_millis v \<noteq> 0"
  using unat_encode_millis [of v] by auto

lemma decode_take_bit: "decode_millis w = sat_sub (take_bit 63 w) 1"
  by (simp add: decode_millis_def and_cooldown_mask)

lemma decode_encode: "decode_millis (encode_millis v) = duration_millis v"
  by (simp add: decode_take_bit unclaimed_take_bit encode_unclaimed word_unat_eq_iff unat_sat_sub
      unat_encode_millis unat_duration_millis)

lemma decode_or_claim: "decode_millis (w OR HALF_OPEN_CLAIM) = decode_millis w"
  unfolding decode_take_bit take_bit_or_claim ..

section \<open>The circuit breaker the word implements\<close>

datatype breaker = Closed | Open nat | HalfOpen nat

definition breaker_of :: "u64 \<Rightarrow> breaker" where
  "breaker_of w =
     (if w = 0 then Closed
      else if half_open_claimed w then HalfOpen (unat (decode_millis w)) else Open (unat (decode_millis w)))"

text \<open>Specification: instants are milliseconds of the clock.\<close>

fun br_acquire :: "nat \<Rightarrow> breaker \<Rightarrow> breaker \<times> bool" where
  "br_acquire now Closed = (Closed, True)"
| "br_acquire now (Open until) = (if until \<le> now then (HalfOpen until, True) else (Open until, False))"
| "br_acquire now (HalfOpen until) = (HalfOpen until, False)"

definition br_connection_failed :: "nat \<Rightarrow> nat \<Rightarrow> nat \<Rightarrow> breaker \<Rightarrow> breaker" where
  "br_connection_failed threshold failures until b = (if threshold \<le> failures then Open until else b)"

fun br_abandon :: "breaker \<Rightarrow> breaker" where
  "br_abandon (HalfOpen until) = Open until"
| "br_abandon b = b"

definition cooldown_wf :: "u64 \<Rightarrow> bool" where
  "cooldown_wf w \<longleftrightarrow> w = 0 \<or> take_bit 63 w \<noteq> 0"

lemma cooldown_wf_encode: "cooldown_wf (encode_millis v)"
  by (simp add: cooldown_wf_def unclaimed_take_bit encode_unclaimed encode_nonzero)

lemma cooldown_wf_claim: "cooldown_wf w \<Longrightarrow> w \<noteq> 0 \<Longrightarrow> cooldown_wf (w OR HALF_OPEN_CLAIM)"
  unfolding cooldown_wf_def take_bit_or_claim by simp

lemma cooldown_wf_release: "cooldown_wf (take_bit 63 w)"
  by (simp add: cooldown_wf_def)

lemma or_claim_nonzero: "w OR HALF_OPEN_CLAIM \<noteq> 0"
proof
  assume "w OR HALF_OPEN_CLAIM = 0"
  with claimed_or [of w] have "half_open_claimed 0" by (simp only:)
  then show False by (simp add: half_open_claimed_def)
qed

lemma breaker_of_encode: "breaker_of (encode_millis v) = Open (min (as_millis v) (2 ^ 63 - 2))"
  by (simp add: breaker_of_def encode_nonzero encode_unclaimed decode_encode unat_duration_millis)

lemma breaker_of_claim: "w \<noteq> 0 \<Longrightarrow> \<not> half_open_claimed w \<Longrightarrow>
    breaker_of (w OR HALF_OPEN_CLAIM) = fst (br_acquire (unat (decode_millis w)) (breaker_of w))"
  by (simp add: breaker_of_def or_claim_nonzero claimed_or decode_or_claim)

lemma breaker_of_release:
  "half_open_claimed w \<Longrightarrow> cooldown_wf w \<Longrightarrow> breaker_of (take_bit 63 w) = br_abandon (breaker_of w)"
proof -
  assume "half_open_claimed w" "cooldown_wf w"
  moreover from this have "w \<noteq> 0" by (auto simp: half_open_claimed_def)
  ultimately show ?thesis
    by (simp add: breaker_of_def cooldown_wf_def not_claimed_take_bit decode_take_bit)
qed

text \<open>C22. Channel health implements a circuit breaker: acquisition, failure counting, probe failure
  and an abandoned probe act on the cool-down word as the specification acts on the states
  closed, open until an instant, and half-open. A channel looks usable exactly when acquiring it
  would succeed, and a failed acquisition changes nothing.\<close>

theorem breaker_refinement:
  assumes "cooldown_wf (cs_cooldown_state cs)"
  shows "br_acquire (unat (duration_millis now)) (breaker_of (cs_cooldown_state cs)) =
      (breaker_of (cs_cooldown_state (fst (try_acquire cs now))), snd (try_acquire cs now) \<noteq> None) \<and>
    (is_usable cs now \<longleftrightarrow> snd (try_acquire cs now) \<noteq> None) \<and>
    (snd (try_acquire cs now) = None \<longrightarrow> fst (try_acquire cs now) = cs) \<and>
    breaker_of (cs_cooldown_state (connection_failed cs threshold until)) =
      br_connection_failed (unat threshold)
        (min (Suc (unat (cs_consecutive_connection_failures cs))) (2 ^ 32 - 1))
        (min (as_millis until) (2 ^ 63 - 2)) (breaker_of (cs_cooldown_state cs)) \<and>
    breaker_of (cs_cooldown_state (response_headers_received cs)) = Closed \<and>
    (half_open_claimed (cs_cooldown_state cs) \<longrightarrow>
      breaker_of (cs_cooldown_state (probe_failed cs (cs_cooldown_state cs) until)) =
        Open (min (as_millis until) (2 ^ 63 - 2)) \<and>
      breaker_of (cs_cooldown_state (fst (lease_drop_state (cs_cooldown_state cs) cs))) =
        br_abandon (breaker_of (cs_cooldown_state cs)))"
proof -
  let ?w = "cs_cooldown_state cs"
  have acq: "br_acquire (unat (duration_millis now)) (breaker_of ?w) =
      (breaker_of (cs_cooldown_state (fst (try_acquire cs now))), snd (try_acquire cs now) \<noteq> None)"
  proof (cases "?w = 0 \<or> half_open_claimed ?w")
    case True
    then show ?thesis by (auto simp: breaker_of_def try_acquire_eq Let_def)
  next
    case False
    then show ?thesis
      by (auto simp: breaker_of_claim try_acquire_eq Let_def word_le_nat_alt word_less_nat_alt)
        (auto simp: breaker_of_def or_claim_nonzero claimed_or decode_or_claim)
  qed
  have "is_usable cs now \<longleftrightarrow> snd (try_acquire cs now) \<noteq> None"
    by (auto simp: is_usable_def try_acquire_eq Let_def not_less)
  moreover have "snd (try_acquire cs now) = None \<longrightarrow> fst (try_acquire cs now) = cs"
    by (simp add: try_acquire_eq Let_def)
  moreover have "breaker_of (cs_cooldown_state (connection_failed cs threshold until)) =
      br_connection_failed (unat threshold)
        (min (Suc (unat (cs_consecutive_connection_failures cs))) (2 ^ 32 - 1))
        (min (as_millis until) (2 ^ 63 - 2)) (breaker_of ?w)"
    by (simp add: connection_failed_def health_ops br_connection_failed_def Let_def breaker_of_encode
        word_le_nat_alt unat_sat_add)
  moreover have "breaker_of (cs_cooldown_state (response_headers_received cs)) = Closed"
    by (simp add: response_headers_received_def health_ops breaker_of_def)
  moreover have "breaker_of (cs_cooldown_state (probe_failed cs ?w until)) =
        Open (min (as_millis until) (2 ^ 63 - 2)) \<and>
      breaker_of (cs_cooldown_state (fst (lease_drop_state ?w cs))) = br_abandon (breaker_of ?w)"
    if "half_open_claimed ?w"
  proof -
    have "?w \<noteq> 0" using that by (auto simp: half_open_claimed_def)
    then show ?thesis
      using breaker_of_release [OF that assms]
      by (simp add: lease_drop_state_def health_ops breaker_of_encode and_cooldown_mask)
  qed
  ultimately show ?thesis using acq by blast
qed

theorem breaker_refinement_witness:
  "br_acquire (unat (duration_millis 2000000))
     (breaker_of (cs_cooldown_state ((channel_state_new True)\<lparr>cs_cooldown_state := encode_millis 1000000\<rparr>))) =
   (breaker_of (cs_cooldown_state (fst (try_acquire
      ((channel_state_new True)\<lparr>cs_cooldown_state := encode_millis 1000000\<rparr>) 2000000))), True)"
proof -
  let ?cs = "(channel_state_new True)\<lparr>cs_cooldown_state := encode_millis 1000000\<rparr>"
  have "cooldown_wf (cs_cooldown_state ?cs)" by (simp add: cooldown_wf_encode)
  from breaker_refinement [OF this, of 2000000]
  have eq: "br_acquire (unat (duration_millis 2000000)) (breaker_of (cs_cooldown_state ?cs)) =
      (breaker_of (cs_cooldown_state (fst (try_acquire ?cs 2000000))), snd (try_acquire ?cs 2000000) \<noteq> None)"
    by simp
  moreover have "snd (br_acquire (unat (duration_millis 2000000)) (breaker_of (cs_cooldown_state ?cs)))"
    by (simp add: breaker_of_encode unat_duration_millis as_millis_def)
  ultimately show ?thesis by simp
qed

section \<open>Ownership of the half-open probe\<close>

text \<open>
  One channel under the requests that use it, at the granularity of single atomic accesses. A request that the word
  has let in holds its claim (zero when the channel was closed) first in \<open>hw_claims\<close>, then with its lease
  in \<open>hw_leases\<close>, and after the drop has decremented the counter in \<open>hw_returns\<close> until the
  claim is given back. The clock is monotone, but a method may act on an earlier reading of it and of the policy; a
  cool-down is written before its deadline has passed.
\<close>

record health_world =
  hw_state :: channel_state
  hw_claims :: "u64 multiset"
  hw_leases :: "u64 multiset"
  hw_returns :: "u64 multiset"
  hw_now :: duration

definition hw_owners :: "health_world \<Rightarrow> u64 multiset" where
  "hw_owners w = hw_claims w + hw_leases w + hw_returns w"

definition deadline_ahead :: "passive_health_policy \<Rightarrow> duration \<Rightarrow> health_world \<Rightarrow> duration \<Rightarrow> bool" where
  "deadline_ahead p seen w until \<longleftrightarrow> seen \<le> hw_now w \<and> duration_add seen (ph_cooldown p) = Some until \<and>
     duration_millis (hw_now w) < duration_millis until"

inductive health_step :: "health_world \<Rightarrow> health_world \<Rightarrow> bool" where
  h_tick: "hw_now w \<le> now \<Longrightarrow> health_step w (w\<lparr>hw_now := now\<rparr>)"
| h_claim: "seen \<le> hw_now w \<Longrightarrow> claim_word (hw_state w) seen = (cs', Some c) \<Longrightarrow>
    health_step w (w\<lparr>hw_state := cs', hw_claims := add_mset c (hw_claims w)\<rparr>)"
| h_enter: "c \<in># hw_claims w \<Longrightarrow> size (hw_leases w) < 2 ^ 64 - 1 \<Longrightarrow>
    health_step w (w\<lparr>hw_state := enter_flight (hw_state w), hw_claims := hw_claims w - {#c#},
      hw_leases := add_mset c (hw_leases w)\<rparr>)"
| h_report: "c \<in># hw_leases w \<Longrightarrow> f \<in> {count_failure, clear_failures, clear_cooldown} \<Longrightarrow>
    health_step w (w\<lparr>hw_state := f (hw_state w)\<rparr>)"
| h_open: "c \<in># hw_leases w \<Longrightarrow> deadline_ahead p seen w until \<Longrightarrow>
    health_step w (w\<lparr>hw_state := open_cooldown until (hw_state w)\<rparr>)"
| h_probe_failed: "c \<in># hw_leases w \<Longrightarrow> deadline_ahead p seen w until \<Longrightarrow>
    health_step w (w\<lparr>hw_state := probe_failed (hw_state w) c until\<rparr>)"
| h_release: "c \<in># hw_leases w \<Longrightarrow>
    health_step w (w\<lparr>hw_state := fst (release (hw_state w)), hw_leases := hw_leases w - {#c#},
      hw_returns := add_mset c (hw_returns w)\<rparr>)"
| h_return: "c \<in># hw_returns w \<Longrightarrow>
    health_step w (w\<lparr>hw_state := return_claim c (hw_state w), hw_returns := hw_returns w - {#c#}\<rparr>)"
| h_reconcile: "health_step w (w\<lparr>hw_state := (hw_state w)\<lparr>cs_active := a\<rparr>\<rparr>)"

inductive health_reachable :: "health_world \<Rightarrow> bool" where
  h_start: "health_reachable \<lparr>hw_state = channel_state_new a, hw_claims = {#}, hw_leases = {#}, hw_returns = {#}, hw_now = 0\<rparr>"
| h_next: "health_reachable w \<Longrightarrow> health_step w w' \<Longrightarrow> health_reachable w'"

definition claims_ok :: "u64 \<Rightarrow> u64 multiset \<Rightarrow> duration \<Rightarrow> bool" where
  "claims_ok w owners now \<longleftrightarrow> cooldown_wf w \<and>
     (\<forall>c \<in># owners. c = 0 \<or> half_open_claimed c \<and> cooldown_wf c \<and> decode_millis c \<le> duration_millis now) \<and>
     (if half_open_claimed w then count owners w = 1
      else w \<noteq> 0 \<longrightarrow> count owners (w OR HALF_OPEN_CLAIM) = 0)"

definition health_inv :: "health_world \<Rightarrow> bool" where
  "health_inv w \<longleftrightarrow> unat (cs_in_flight (hw_state w)) = size (hw_leases w) \<and>
     claims_ok (cs_cooldown_state (hw_state w)) (hw_owners w) (hw_now w)"

lemma duration_millis_mono: "a \<le> b \<Longrightarrow> duration_millis a \<le> duration_millis b"
  using as_millis_mono [of a b] by (auto simp: word_le_nat_alt unat_duration_millis)

lemma claims_ok_later: "claims_ok w L now \<Longrightarrow> now \<le> later \<Longrightarrow> claims_ok w L later"
  using duration_millis_mono [of now later] unfolding claims_ok_def by auto

lemma claims_ok_zero: "claims_ok w L now \<Longrightarrow> claims_ok 0 L now"
  by (simp add: claims_ok_def cooldown_wf_def half_open_claimed_def)

lemma claims_ok_reopen:
  assumes "claims_ok w L now" and "duration_millis now < duration_millis until"
  shows "claims_ok (encode_millis until) L now"
proof -
  let ?e = "encode_millis until"
  from assms(2) have "decode_millis (?e OR HALF_OPEN_CLAIM) > duration_millis now"
    by (simp only: decode_or_claim decode_encode)
  with assms(1) have "?e OR HALF_OPEN_CLAIM \<notin># L"
    using or_claim_nonzero [of ?e] by (auto simp: claims_ok_def)
  with assms(1) show ?thesis
    by (simp add: claims_ok_def cooldown_wf_encode encode_unclaimed count_eq_zero_iff)
qed

lemma claims_ok_claim:
  assumes "claims_ok (cs_cooldown_state cs) L now" and "claim_word cs seen = (cs', Some c)" and "seen \<le> now"
  shows "claims_ok (cs_cooldown_state cs') (add_mset c L) now"
proof (cases "cs_cooldown_state cs = 0")
  case True
  with assms show ?thesis by (auto simp: claim_word_def claims_ok_def half_open_claimed_def)
next
  case False
  let ?w = "cs_cooldown_state cs"
  from assms(2) False have c: "c = ?w OR HALF_OPEN_CLAIM" "cs_cooldown_state cs' = c"
    and free: "\<not> half_open_claimed ?w" and due: "decode_millis ?w \<le> duration_millis seen"
    by (auto simp: claim_word_def Let_def split: if_splits)
  have "cooldown_wf c" using assms(1) False c(1) by (simp add: claims_ok_def cooldown_wf_claim)
  moreover have "decode_millis c \<le> duration_millis now"
    using due c(1) decode_or_claim [of ?w] duration_millis_mono [OF assms(3)] by simp
  moreover have "half_open_claimed c" using c(1) claimed_or by simp
  moreover have "count L c = 0" using assms(1) free False c(1) by (simp add: claims_ok_def)
  ultimately show ?thesis using assms(1) c(2) by (simp add: claims_ok_def)
qed

lemma claims_ok_return:
  assumes "claims_ok (cs_cooldown_state cs) L now" and "c \<in># L"
  shows "claims_ok (cs_cooldown_state (return_claim c cs)) (L - {#c#}) now"
proof (cases "c \<noteq> 0 \<and> cs_cooldown_state cs = c")
  case True
  with assms have cl: "half_open_claimed c" "count L c = 1" by (auto simp: claims_ok_def)
  then have "count (L - {#c#}) (take_bit 63 c OR HALF_OPEN_CLAIM) = 0"
    by (simp add: claimed_split)
  with assms True show ?thesis
    by (auto simp: claims_ok_def return_claim_def and_cooldown_mask cooldown_wf_release not_claimed_take_bit
        dest: in_diffD)
next
  case False
  have "count (L - {#c#}) x \<le> count L x" for x by simp
  moreover have "half_open_claimed (cs_cooldown_state cs) \<Longrightarrow> cs_cooldown_state cs \<noteq> c"
    using False by (auto simp: half_open_claimed_def)
  ultimately show ?thesis
    using assms(1) False by (auto simp: claims_ok_def return_claim_def dest: in_diffD)
qed

lemma claim_word_in_flight: "claim_word cs now = (cs', r) \<Longrightarrow> cs_in_flight cs' = cs_in_flight cs \<and> cs_active cs' = cs_active cs"
  by (auto simp: claim_word_def Let_def split: if_splits)

lemma health_step_inv: "health_step w w' \<Longrightarrow> health_inv w \<Longrightarrow> health_inv w'"
proof (induction rule: health_step.induct)
  case (h_tick w now)
  then show ?case by (auto simp: health_inv_def hw_owners_def intro: claims_ok_later)
next
  case (h_claim seen w cs' c)
  then have "claims_ok (cs_cooldown_state (hw_state w)) (hw_owners w) (hw_now w)" by (simp add: health_inv_def)
  from claims_ok_claim [OF this h_claim(2,1)] claim_word_in_flight [OF h_claim(2)] h_claim.prems show ?case
    by (simp add: health_inv_def hw_owners_def)
next
  case (h_enter c w)
  have "hw_owners (w\<lparr>hw_state := enter_flight (hw_state w), hw_claims := hw_claims w - {#c#},
      hw_leases := add_mset c (hw_leases w)\<rparr>) = hw_owners w"
    using h_enter(1) by (simp add: hw_owners_def)
  with h_enter show ?case by (simp add: health_inv_def enter_flight_def unat_word_ariths)
next
  case (h_report c w f)
  then show ?case
    by (auto simp: health_inv_def hw_owners_def health_ops intro: claims_ok_zero)
next
  case (h_open c w p seen until)
  then show ?case
    by (auto simp: health_inv_def hw_owners_def deadline_ahead_def open_cooldown_def intro: claims_ok_reopen)
next
  case (h_probe_failed c w p seen until)
  then show ?case
    by (auto simp: health_inv_def hw_owners_def deadline_ahead_def probe_failed_def intro: claims_ok_reopen)
next
  case (h_release c w)
  from h_release(1) have pos: "0 < size (hw_leases w)" by (metis nonempty_has_size empty_not_add_mset insert_DiffM)
  with h_release.prems have "1 \<le> cs_in_flight (hw_state w)"
    by (simp add: health_inv_def word_le_nat_alt)
  then have "unat (cs_in_flight (hw_state w) - 1) = size (hw_leases w) - 1"
    using h_release.prems by (simp add: unat_sub health_inv_def)
  moreover have "hw_owners (w\<lparr>hw_state := fst (release (hw_state w)), hw_leases := hw_leases w - {#c#},
      hw_returns := add_mset c (hw_returns w)\<rparr>) = hw_owners w"
    using h_release(1) by (simp add: hw_owners_def)
  ultimately show ?case
    using h_release by (simp add: health_inv_def release_def size_Diff_singleton)
next
  case (h_return c w)
  then have ok: "claims_ok (cs_cooldown_state (hw_state w)) (hw_owners w) (hw_now w)" and "c \<in># hw_owners w"
    by (simp_all add: health_inv_def hw_owners_def)
  from claims_ok_return [OF this] h_return show ?case
    by (auto simp: health_inv_def hw_owners_def return_claim_def split: if_splits)
next
  case (h_reconcile w a)
  then show ?case by (simp add: health_inv_def hw_owners_def)
qed

lemma health_reachable_inv: "health_reachable w \<Longrightarrow> health_inv w"
proof (induction rule: health_reachable.induct)
  case (h_start a)
  then show ?case
    by (simp add: health_inv_def hw_owners_def channel_state_new_def claims_ok_def cooldown_wf_def half_open_claimed_def)
qed (rule health_step_inv)

text \<open>C23. A half-open probe has exactly one owner, and it is never lost: in every interleaving of the atomic accesses of
  acquisitions, reports and drops, the in-flight counter equals the number of outstanding leases; while the word is
  claimed exactly one request holds that claim (from the moment it was claimed until it is given back); and once no
  request holds one the channel is not claimed, so it is usable again as soon as its cool-down has passed. A cool-down
  is assumed to be written before its own deadline has passed.\<close>

theorem half_open_probe_has_one_owner:
  assumes "health_reachable w"
  shows "unat (cs_in_flight (hw_state w)) = size (hw_leases w) \<and>
    (half_open_claimed (cs_cooldown_state (hw_state w)) \<longrightarrow>
       count (hw_owners w) (cs_cooldown_state (hw_state w)) = 1) \<and>
    (hw_owners w = {#} \<longrightarrow>
       (\<forall>now. decode_millis (cs_cooldown_state (hw_state w)) \<le> duration_millis now \<longrightarrow>
          is_usable (hw_state w) now))"
  using health_reachable_inv [OF assms]
  by (auto simp: health_inv_def claims_ok_def is_usable_def Let_def split: if_splits)

text \<open>A channel that failed once, cooled down for a second and is probed again.\<close>

lemma probed_world:
  defines "e \<equiv> encode_millis 1000000000"
  shows "health_reachable \<lparr>hw_state = \<lparr>cs_in_flight = 1, cs_consecutive_connection_failures = 0,
      cs_cooldown_state = e OR HALF_OPEN_CLAIM, cs_active = True\<rparr>,
    hw_claims = {#e OR HALF_OPEN_CLAIM#}, hw_leases = {#0#}, hw_returns = {#}, hw_now = 2000000000\<rparr>"
proof -
  let ?w = "\<lambda>n c claims leases now. \<lparr>hw_state = \<lparr>cs_in_flight = n, cs_consecutive_connection_failures = 0,
    cs_cooldown_state = c, cs_active = True\<rparr>, hw_claims = claims, hw_leases = leases, hw_returns = {#}, hw_now = now\<rparr>"
  have "health_reachable (?w 0 0 {#} {#} 0)" using health_reachable.h_start [of True] by (simp add: channel_state_new_def)
  then have "health_reachable (?w 0 0 {#0#} {#} 0)"
    by (rule health_reachable.h_next)
      (use health_step.h_claim [of 0 "?w 0 0 {#} {#} 0" _ 0] in \<open>simp add: claim_word_def\<close>)
  then have "health_reachable (?w 1 0 {#} {#0#} 0)"
    by (rule health_reachable.h_next)
      (use health_step.h_enter [of 0 "?w 0 0 {#0#} {#} 0"] in \<open>simp add: enter_flight_def\<close>)
  then have "health_reachable (?w 1 e {#} {#0#} 0)"
    by (rule health_reachable.h_next)
      (use health_step.h_open [of 0 "?w 1 0 {#} {#0#} 0" "\<lparr>ph_connection_failure_threshold = 1, ph_cooldown = 1000000000\<rparr>" 0
        1000000000] in \<open>simp add: e_def open_cooldown_def deadline_ahead_def duration_add_def duration_max_def nanos_per_sec_def word_less_nat_alt unat_duration_millis as_millis_def\<close>)
  then have "health_reachable (?w 1 e {#} {#0#} 2000000000)"
    by (rule health_reachable.h_next) (use health_step.h_tick [of "?w 1 e {#} {#0#} 0" 2000000000] in simp)
  then show ?thesis
    by (rule health_reachable.h_next)
      (use health_step.h_claim [of 2000000000 "?w 1 e {#} {#0#} 2000000000" _ "e OR HALF_OPEN_CLAIM"] in
        \<open>simp add: claim_word_def Let_def e_def encode_nonzero encode_unclaimed decode_encode word_less_nat_alt unat_duration_millis as_millis_def\<close>)
qed

theorem half_open_probe_has_one_owner_witness:
  "\<exists>w. health_reachable w \<and> half_open_claimed (cs_cooldown_state (hw_state w)) \<and>
    unat (cs_in_flight (hw_state w)) = size (hw_leases w) \<and> count (hw_owners w) (cs_cooldown_state (hw_state w)) = 1"
proof -
  note r = probed_world
  show ?thesis
    by (intro exI conjI, rule r) (use half_open_probe_has_one_owner [OF r] claimed_or in \<open>simp_all del: size_multiset_overloaded_eq\<close>)
qed

end
