(* ===== verification/Selection.thy ===== *)
theory Selection
  imports Load_Balancing Channel_Health
begin

text \<open>
  Channel selection, \<^verbatim>\<open>src/routing/mod.rs\<close>: the runtime shared by all requests, the choice of
  a tier and a candidate, channel leases and reconciliation with a new configuration.

  A channel's health is shared through an \<^verbatim>\<open>Arc\<close>: the sharded maps and the leases hold an
  address into \<open>rn_heap\<close>, so a lease keeps the state it acquired even when the map later holds another
  one, and \<^verbatim>\<open>Arc::ptr_eq\<close> is equality of addresses. The hash functions that choose a shard are
  fields of the runtime; nothing is assumed of them.

  A method that holds locks only for single accesses is one function here, with one exception: selection inspects a
  candidate, looks up the state of its channel, claims the channel in its cool-down word and only then counts itself
  in, without a lock across these accesses, and the code retries when another request has won a half-open probe in
  between. \<open>other n\<close>, \<open>other (n + 1)\<close> and \<open>other (n + 2)\<close> are what other
  requests and reconfigurations do to the runtime before the lookup, the claim and the increment of the acquisition
  that starts at \<open>n\<close>. The retry loop may run for ever under interference, so it is a partial function and
  \<open>None\<close> is divergence. Reads of the clock are arguments.
\<close>

section \<open>Capabilities\<close>

datatype channel_capability =
    AnyCapability | UnsupportedProtocol | ResponsesWebSocketCapability | StandaloneWebSearchCapability
  | TransportCapability capability_transport | ResponsesNonStream

fun capability_permits :: "channel_capability \<Rightarrow> 'd compiled_channel \<Rightarrow> bool" where
  "capability_permits AnyCapability c = True"
| "capability_permits UnsupportedProtocol c = False"
| "capability_permits ResponsesWebSocketCapability c =
     (ch_supports_websocket c \<and> permits_transport c Websocket)"
| "capability_permits StandaloneWebSearchCapability c =
     (ch_supports_standalone_web_search c \<and> permits_transport c HttpJson)"
| "capability_permits (TransportCapability t) c = permits_transport c t"
| "capability_permits ResponsesNonStream c =
     (permits_transport c HttpJson \<or>
      ch_connector_kind c = CodexOauth \<and> \<not> ch_strict_transport_contract c \<and> permits_transport c HttpSse)"

definition for_operation :: "api_operation \<Rightarrow> request_protocol \<Rightarrow> channel_capability" where
  "for_operation op protocol =
     (if (protocol = WebSocket) \<noteq> (op = ResponsesWebSocket) then UnsupportedProtocol
      else (case op of
          ResponsesWebSocket \<Rightarrow> ResponsesWebSocketCapability
        | StandaloneWebSearch \<Rightarrow> StandaloneWebSearchCapability
        | ImagesGeneration \<Rightarrow> TransportCapability HttpJson
        | ImagesEdit \<Rightarrow> TransportCapability Multipart
        | ChatCompletions \<Rightarrow>
            (if protocol = Sse then TransportCapability HttpSse else TransportCapability HttpJson)
        | Responses \<Rightarrow>
            (if protocol = Sse then TransportCapability HttpSse else ResponsesNonStream)))"

section \<open>The shared runtime\<close>

record routing_identity =
  ri_id :: uuid
  ri_connectivity_fingerprint :: string
  ri_outbound_network_policy_fingerprint :: "u8 list"

definition from_channel :: "'d compiled_channel \<Rightarrow> routing_identity" where
  "from_channel c =
     \<lparr>ri_id = ch_id c, ri_connectivity_fingerprint = ch_connectivity_fingerprint c,
      ri_outbound_network_policy_fingerprint = ch_outbound_network_policy_fingerprint c\<rparr>"

record round_robin_key =
  rk_rule_id :: uuid
  rk_priority :: "32 word"
  rk_tier_fingerprint :: "u8 list"
  rk_routing_scope_fingerprint :: "u8 list"
  rk_capability :: channel_capability

record routing_runtime =
  rn_policy :: passive_health_policy
  rn_entropy :: u64
  rn_channel_hash :: "routing_identity \<Rightarrow> u64"
  rn_round_robin_hash :: "round_robin_key \<Rightarrow> u64"
  rn_heap :: "nat \<Rightarrow> channel_state"
  rn_next :: nat
  rn_channel_states :: "nat \<Rightarrow> (routing_identity, nat) hmap"
  rn_active_channels :: "routing_identity list option"
  rn_round_robin :: "nat \<Rightarrow> (round_robin_key, srr_current) hmap"
  rn_affinity :: affinity_state

definition with_seams ::
  "passive_health_policy \<Rightarrow> u64 \<Rightarrow> (routing_identity \<Rightarrow> u64) \<Rightarrow> (round_robin_key \<Rightarrow> u64) \<Rightarrow> routing_runtime option" where
  "with_seams policy entropy channel_hash round_robin_hash =
     (if policy_accepted policy then
        Some \<lparr>rn_policy = policy, rn_entropy = entropy, rn_channel_hash = channel_hash,
              rn_round_robin_hash = round_robin_hash, rn_heap = (\<lambda>_. channel_state_new False), rn_next = 0,
              rn_channel_states = (\<lambda>_. []), rn_active_channels = None, rn_round_robin = (\<lambda>_. []),
              rn_affinity = affinity_state_default\<rparr>
      else None)"

definition update_policy :: "passive_health_policy \<Rightarrow> routing_runtime \<Rightarrow> routing_runtime option" where
  "update_policy policy rt = (if policy_accepted policy then Some (rt\<lparr>rn_policy := policy\<rparr>) else None)"

definition channel_state_shard :: "routing_runtime \<Rightarrow> routing_identity \<Rightarrow> nat" where
  "channel_state_shard rt i = unat (rn_channel_hash rt i mod 64)"

definition round_robin_shard :: "routing_runtime \<Rightarrow> round_robin_key \<Rightarrow> nat" where
  "round_robin_shard rt k = unat (rn_round_robin_hash rt k mod 64)"

definition channel_state_of :: "routing_runtime \<Rightarrow> routing_identity \<Rightarrow> nat option" where
  "channel_state_of rt i = hm_get (rn_channel_states rt (channel_state_shard rt i)) i"

definition configured_active :: "routing_runtime \<Rightarrow> routing_identity \<Rightarrow> bool" where
  "configured_active rt i = (case rn_active_channels rt of None \<Rightarrow> True | Some ids \<Rightarrow> i \<in> set ids)"

definition set_state :: "nat \<Rightarrow> channel_state \<Rightarrow> routing_runtime \<Rightarrow> routing_runtime" where
  "set_state a cs rt = rt\<lparr>rn_heap := (rn_heap rt)(a := cs)\<rparr>"

definition allocate_state :: "routing_identity \<Rightarrow> bool \<Rightarrow> routing_runtime \<Rightarrow> routing_runtime \<times> nat" where
  "allocate_state i active rt =
     (let a = rn_next rt; s = channel_state_shard rt i
      in (rt\<lparr>rn_heap := (rn_heap rt)(a := channel_state_new active), rn_next := Suc a,
             rn_channel_states := (rn_channel_states rt)(s := hm_insert i a (rn_channel_states rt s))\<rparr>, a))"

definition channel_state_or_insert :: "routing_identity \<Rightarrow> routing_runtime \<Rightarrow> routing_runtime \<times> nat" where
  "channel_state_or_insert i rt =
     (case channel_state_of rt i of
        Some a \<Rightarrow> (rt, a)
      | None \<Rightarrow> allocate_state i (configured_active rt i) rt)"

text \<open>The state an acquisition works on: a first lookup under the shard's read lock, and if it finds nothing the lookup or
  insertion above. Both lookups of an absent state read the same as the second one alone.\<close>

definition channel_handle :: "routing_identity \<Rightarrow> routing_runtime \<Rightarrow> routing_runtime \<times> nat" where
  "channel_handle i rt = (case channel_state_of rt i of Some a \<Rightarrow> (rt, a) | None \<Rightarrow> channel_state_or_insert i rt)"

definition try_acquire_channel ::
  "(nat \<Rightarrow> routing_runtime \<Rightarrow> routing_runtime) \<Rightarrow> nat \<Rightarrow> duration \<Rightarrow> routing_identity \<Rightarrow> routing_runtime \<Rightarrow>
   routing_runtime \<times> (nat \<times> u64) option" where
  "try_acquire_channel other n now i rt =
     (let (rt1, a) = channel_handle i (other n rt);
          rt2 = other (n + 1) rt1;
          (cs, claim) = claim_word (rn_heap rt2 a) now;
          rt3 = set_state a cs rt2
      in (case claim of
            None \<Rightarrow> (rt3, None)
          | Some c \<Rightarrow>
              (let rt4 = other (n + 2) rt3 in (set_state a (enter_flight (rn_heap rt4 a)) rt4, Some (a, c)))))"

definition channel_is_active :: "routing_runtime \<Rightarrow> routing_identity \<Rightarrow> bool" where
  "channel_is_active rt i =
     (case channel_state_of rt i of
        Some a \<Rightarrow> cs_active (rn_heap rt a)
      | None \<Rightarrow> configured_active rt i)"

definition usable :: "routing_runtime \<Rightarrow> duration \<Rightarrow> routing_identity \<Rightarrow> bool" where
  "usable rt now i = (case channel_state_of rt i of None \<Rightarrow> True | Some a \<Rightarrow> is_usable (rn_heap rt a) now)"

definition health :: "routing_runtime \<Rightarrow> duration \<Rightarrow> 'd compiled_channel \<Rightarrow> channel_health_snapshot" where
  "health rt now c =
     (case channel_state_of rt (from_channel c) of
        None \<Rightarrow> \<lparr>hs_in_flight = 0, hs_consecutive_connection_failures = 0,
                 hs_cooling_down = False, hs_half_open_probe = False\<rparr>
      | Some a \<Rightarrow> state_snapshot (rn_heap rt a) now)"

section \<open>Eligibility and the choice within a tier\<close>

definition candidate_permitted ::
  "channel_capability \<Rightarrow> 'd compiled_api_key \<Rightarrow> nat list \<Rightarrow> 'd compiled_candidate \<Rightarrow> bool" where
  "candidate_permitted cap key excluded c \<longleftrightarrow>
     capability_permits cap (cc_channel c) \<and> permits_route_candidate key (cc_channel_slot c) \<and>
     cc_candidate_slot c \<notin> set excluded"

definition eligible ::
  "channel_capability \<Rightarrow> 'd compiled_api_key \<Rightarrow> nat list \<Rightarrow> duration \<Rightarrow> routing_runtime \<Rightarrow>
   'd compiled_candidate \<Rightarrow> bool" where
  "eligible cap key excluded now rt c \<longleftrightarrow>
     candidate_permitted cap key excluded c \<and> usable rt now (from_channel (cc_channel c))"

definition identity_matches :: "route_candidate_identity \<Rightarrow> 'd compiled_candidate \<Rightarrow> bool" where
  "identity_matches i c \<longleftrightarrow>
     rci_channel_id i = ch_id (cc_channel c) \<and> rci_upstream_model i = cc_upstream_model c"

definition pick_by_strategy ::
  "channel_capability \<Rightarrow> 'd compiled_api_key \<Rightarrow> nat list \<Rightarrow> duration \<Rightarrow> ('d, 'j) compiled_model_rule \<Rightarrow>
   'd compiled_route_tier \<Rightarrow> routing_runtime \<Rightarrow> (routing_runtime \<times> 'd compiled_candidate option) option" where
  "pick_by_strategy cap key excluded now rule tier rt =
     (case rt_strategy tier of
        WeightedRandom \<Rightarrow>
          map_option (\<lambda>(s, r). (rt\<lparr>rn_entropy := s\<rparr>, r))
            (weighted_ticket (\<lambda>_. eligible cap key excluded now rt) (rt_candidates tier) 0 (rn_entropy rt))
      | WeightedRoundRobin \<Rightarrow>
          (let k = \<lparr>rk_rule_id = mr_id rule, rk_priority = rt_priority tier,
                    rk_tier_fingerprint = rt_fingerprint tier,
                    rk_routing_scope_fingerprint = ap_fingerprint (ak_authorization key),
                    rk_capability = cap\<rparr>;
               active = list_all (\<lambda>c. channel_is_active rt (from_channel (cc_channel c)))
                          (filter (candidate_permitted cap key excluded) (rt_candidates tier))
           in if active then
                (let s = round_robin_shard rt k;
                     shard = rn_round_robin rt s;
                     current = (case hm_get shard k of None \<Rightarrow> [] | Some m \<Rightarrow> m);
                     (current', r) = smooth_round_robin (eligible cap key excluded now rt) (rt_candidates tier) current
                 in Some (rt\<lparr>rn_round_robin := (rn_round_robin rt)(s := hm_insert k current' shard)\<rparr>, r))
              else
                Some (rt, snd (smooth_round_robin (eligible cap key excluded now rt) (rt_candidates tier) []))))"

section \<open>Selection\<close>

record session_affinity_match =
  sm_rule_name :: string
  sm_rule_fingerprint :: digest32
  sm_session_hash :: digest32
  sm_ttl :: duration

record prepared_affinity =
  pa_key :: affinity_cache_key
  pa_rule_name :: string
  pa_ttl :: duration
  pa_preferred_candidate :: "route_candidate_identity option"

record channel_lease =
  ln_identity :: routing_identity
  ln_state :: nat
  ln_half_open_claim :: u64
  ln_affinity :: "affinity_binding option"
  ln_released :: bool

record ('d, 'j) selected_route =
  sr_rule :: "('d, 'j) compiled_model_rule"
  sr_channel :: "'d compiled_channel"
  sr_candidate_slot :: nat
  sr_channel_slot :: nat
  sr_upstream_model :: string
  sr_session_affinity :: "(string \<times> bool) option"
  sr_lease :: channel_lease

datatype ('d, 'j) selection_result =
    UnknownOrInaccessibleModel
  | NoHealthyChannel "('d, 'j) compiled_model_rule"
  | Selected "('d, 'j) selected_route"

fun selection_is_none :: "('d, 'j) selection_result \<Rightarrow> bool" where
  "selection_is_none (Selected r) = False"
| "selection_is_none _ = True"

definition prepare_affinity ::
  "duration \<Rightarrow> 'd compiled_api_key \<Rightarrow> ('d, 'j) compiled_model_rule \<Rightarrow> session_affinity_match option \<Rightarrow>
   routing_runtime \<Rightarrow> routing_runtime \<times> prepared_affinity option" where
  "prepare_affinity now key rule m rt =
     (case m of
        None \<Rightarrow> (rt, None)
      | Some a \<Rightarrow>
          (let k = \<lparr>ac_rule_fingerprint = sm_rule_fingerprint a, ac_api_key_id = ak_id key,
                    ac_model_rule_id = mr_id rule, ac_session_hash = sm_session_hash a\<rparr>;
               (st, preferred) = affinity_lookup now k (rn_affinity rt)
           in (rt\<lparr>rn_affinity := st\<rparr>,
               Some \<lparr>pa_key = k, pa_rule_name = sm_rule_name a, pa_ttl = sm_ttl a,
                     pa_preferred_candidate = preferred\<rparr>)))"

definition preferred_of :: "prepared_affinity option \<Rightarrow> route_candidate_identity option" where
  "preferred_of aff = Option.bind aff pa_preferred_candidate"

definition affinity_candidate ::
  "channel_capability \<Rightarrow> 'd compiled_api_key \<Rightarrow> nat list \<Rightarrow> duration \<Rightarrow> prepared_affinity option \<Rightarrow>
   'd compiled_route_tier \<Rightarrow> routing_runtime \<Rightarrow> 'd compiled_candidate option" where
  "affinity_candidate cap key excluded now aff tier rt =
     Option.bind (preferred_of aff) (\<lambda>p.
       List.find (\<lambda>c. identity_matches p c \<and> eligible cap key excluded now rt c) (rt_candidates tier))"

definition tier_choice ::
  "channel_capability \<Rightarrow> 'd compiled_api_key \<Rightarrow> nat list \<Rightarrow> duration \<Rightarrow> ('d, 'j) compiled_model_rule \<Rightarrow>
   prepared_affinity option \<Rightarrow> 'd compiled_route_tier \<Rightarrow> bool \<Rightarrow> routing_runtime \<Rightarrow>
   (routing_runtime \<times> 'd compiled_candidate option \<times> bool) option" where
  "tier_choice cap key excluded now rule aff tier allow_affinity rt =
     (case (if allow_affinity then affinity_candidate cap key excluded now aff tier rt else None) of
        Some c \<Rightarrow> Some (rt, Some c, True)
      | None \<Rightarrow> map_option (\<lambda>(rt1, r). (rt1, r, False)) (pick_by_strategy cap key excluded now rule tier rt))"

partial_function (option) select_in_tier ::
  "(nat \<Rightarrow> routing_runtime \<Rightarrow> routing_runtime) \<Rightarrow> channel_capability \<Rightarrow> 'd compiled_api_key \<Rightarrow> nat list \<Rightarrow>
   duration \<Rightarrow> ('d, 'j) compiled_model_rule \<Rightarrow> prepared_affinity option \<Rightarrow> 'd compiled_route_tier \<Rightarrow>
   bool \<Rightarrow> nat \<Rightarrow> routing_runtime \<Rightarrow>
   (nat \<times> routing_runtime \<times> ('d compiled_candidate \<times> bool \<times> nat \<times> u64) option) option" where
  "select_in_tier other cap key excluded now rule aff tier allow_affinity n rt =
     Option.bind (tier_choice cap key excluded now rule aff tier allow_affinity rt)
       (\<lambda>(rt1, candidate, cache_hit).
          case candidate of
            None \<Rightarrow> Some (n, rt1, None)
          | Some c \<Rightarrow>
              (case try_acquire_channel other n now (from_channel (cc_channel c)) rt1 of
                 (rt2, None) \<Rightarrow> select_in_tier other cap key excluded now rule aff tier False (n + 3) rt2
               | (rt2, Some (a, claim)) \<Rightarrow> Some (n + 3, rt2, Some (c, cache_hit, a, claim))))"

fun select_tiers ::
  "(nat \<Rightarrow> routing_runtime \<Rightarrow> routing_runtime) \<Rightarrow> channel_capability \<Rightarrow> 'd compiled_api_key \<Rightarrow> nat list \<Rightarrow>
   duration \<Rightarrow> ('d, 'j) compiled_model_rule \<Rightarrow> prepared_affinity option \<Rightarrow> 'd compiled_route_tier list \<Rightarrow>
   nat \<Rightarrow> routing_runtime \<Rightarrow>
   (routing_runtime \<times> ('d compiled_candidate \<times> bool \<times> nat \<times> u64) option) option" where
  "select_tiers other cap key excluded now rule aff [] n rt = Some (rt, None)"
| "select_tiers other cap key excluded now rule aff (tier # tiers) n rt =
     Option.bind (select_in_tier other cap key excluded now rule aff tier True n rt)
       (\<lambda>(n', rt', r).
          case r of
            None \<Rightarrow> select_tiers other cap key excluded now rule aff tiers n' rt'
          | Some x \<Rightarrow> Some (rt', Some x))"

definition preserve_inapplicable_affinity ::
  "channel_capability \<Rightarrow> 'd compiled_api_key \<Rightarrow> nat list \<Rightarrow> duration \<Rightarrow> ('d, 'j) compiled_model_rule \<Rightarrow>
   prepared_affinity option \<Rightarrow> routing_runtime \<Rightarrow> bool" where
  "preserve_inapplicable_affinity cap key excluded now rule aff rt =
     (case preferred_of aff of
        None \<Rightarrow> False
      | Some p \<Rightarrow>
          list_ex (\<lambda>c. identity_matches p c \<and> permits_route_candidate key (cc_channel_slot c) \<and>
                       cc_candidate_slot c \<notin> set excluded \<and>
                       \<not> capability_permits cap (cc_channel c) \<and>
                       usable rt now (from_channel (cc_channel c)))
            (concat (map rt_candidates (mr_tiers rule))))"

definition affinity_forget ::
  "prepared_affinity option \<Rightarrow> route_candidate_identity option \<Rightarrow> routing_runtime \<Rightarrow> routing_runtime" where
  "affinity_forget aff stale rt =
     (case (aff, stale) of
        (Some a, Some c) \<Rightarrow> rt\<lparr>rn_affinity := affinity_remove_if_candidate (pa_key a) c (rn_affinity rt)\<rparr>
      | _ \<Rightarrow> rt)"

definition make_route ::
  "('d, 'j) compiled_model_rule \<Rightarrow> prepared_affinity option \<Rightarrow> bool \<Rightarrow>
   'd compiled_candidate \<Rightarrow> bool \<Rightarrow> nat \<Rightarrow> u64 \<Rightarrow> ('d, 'j) selected_route" where
  "make_route rule aff bind c cache_hit a claim =
     \<lparr>sr_rule = rule, sr_channel = cc_channel c, sr_candidate_slot = cc_candidate_slot c,
      sr_channel_slot = cc_channel_slot c, sr_upstream_model = cc_upstream_model c,
      sr_session_affinity = map_option (\<lambda>p. (pa_rule_name p, cache_hit)) aff,
      sr_lease =
        \<lparr>ln_identity = from_channel (cc_channel c), ln_state = a, ln_half_open_claim = claim,
         ln_affinity =
           (if bind then
              map_option (\<lambda>p. \<lparr>ab_key = pa_key p, ab_ttl = pa_ttl p, ab_candidate = from_candidate c,
                               ab_cache_hit = cache_hit\<rparr>) aff
            else None),
         ln_released = False\<rparr>\<rparr>"

definition select_with_affinity_excluding_capability ::
  "(nat \<Rightarrow> routing_runtime \<Rightarrow> routing_runtime) \<Rightarrow> duration \<Rightarrow> duration \<Rightarrow> ('d, 'j) compiled_runtime_config \<Rightarrow>
   'd compiled_api_key \<Rightarrow> api_operation \<Rightarrow> string \<Rightarrow> session_affinity_match option \<Rightarrow> nat list \<Rightarrow>
   channel_capability \<Rightarrow> routing_runtime \<Rightarrow> (routing_runtime \<times> ('d, 'j) selection_result) option" where
  "select_with_affinity_excluding_capability other lookup_now now snapshot key op model m excluded cap rt0 =
     (case operation_rule snapshot op model of
        None \<Rightarrow> Some (rt0, UnknownOrInaccessibleModel)
      | Some rule \<Rightarrow>
          if \<not> permits_route key (mr_route_slot rule) then Some (rt0, UnknownOrInaccessibleModel)
          else
            (let (rt, aff) = prepare_affinity lookup_now key rule m rt0;
                 preserve = preserve_inapplicable_affinity cap key excluded now rule aff rt
             in map_option
                  (\<lambda>(rt1, r).
                     case r of
                       Some (c, cache_hit, a, claim) \<Rightarrow>
                         (affinity_forget aff (if \<not> cache_hit \<and> \<not> preserve then preferred_of aff else None) rt1,
                          Selected (make_route rule aff (\<not> preserve) c cache_hit a claim))
                     | None \<Rightarrow>
                         (if preserve then rt1 else affinity_forget aff (preferred_of aff) rt1,
                          NoHealthyChannel rule))
                  (select_tiers other cap key excluded now rule aff (mr_tiers rule) 0 rt)))"

definition preferred_in_tier ::
  "channel_capability \<Rightarrow> 'd compiled_api_key \<Rightarrow> nat list \<Rightarrow> duration \<Rightarrow> prepared_affinity option \<Rightarrow>
   uuid \<Rightarrow> string option \<Rightarrow> routing_runtime \<Rightarrow> 'd compiled_route_tier \<Rightarrow> 'd compiled_candidate option" where
  "preferred_in_tier cap key excluded now aff channel_id upstream_model rt tier =
     (case affinity_candidate cap key excluded now aff tier rt of
        Some c \<Rightarrow> Some c
      | None \<Rightarrow>
          (case upstream_model of
             Some um \<Rightarrow>
               List.find (\<lambda>c. ch_id (cc_channel c) = channel_id \<and> cc_upstream_model c = um \<and>
                              eligible cap key excluded now rt c) (rt_candidates tier)
           | None \<Rightarrow>
               (case filter (\<lambda>c. ch_id (cc_channel c) = channel_id \<and> eligible cap key excluded now rt c)
                       (rt_candidates tier) of
                  [c] \<Rightarrow> Some c
                | _ \<Rightarrow> None)))"

definition select_preferred_channel_with_capability ::
  "(nat \<Rightarrow> routing_runtime \<Rightarrow> routing_runtime) \<Rightarrow> duration \<Rightarrow> duration \<Rightarrow> ('d, 'j) compiled_runtime_config \<Rightarrow>
   'd compiled_api_key \<Rightarrow> api_operation \<Rightarrow> string \<Rightarrow> uuid \<Rightarrow> string option \<Rightarrow>
   session_affinity_match option \<Rightarrow> nat list \<Rightarrow> channel_capability \<Rightarrow> routing_runtime \<Rightarrow>
   routing_runtime \<times> ('d, 'j) selected_route option" where
  "select_preferred_channel_with_capability other lookup_now now snapshot key op model channel_id
     upstream_model m excluded cap rt0 =
     (case operation_rule snapshot op model of
        None \<Rightarrow> (rt0, None)
      | Some rule \<Rightarrow>
          if \<not> permits_route key (mr_route_slot rule) then (rt0, None)
          else
            (let (rt, aff) = prepare_affinity lookup_now key rule m rt0;
                 usable_tier = List.find (\<lambda>tier. list_ex (eligible cap key excluded now rt) (rt_candidates tier))
                                 (mr_tiers rule)
             in (case Option.bind usable_tier (preferred_in_tier cap key excluded now aff channel_id upstream_model rt) of
                   None \<Rightarrow> (rt, None)
                 | Some c \<Rightarrow>
                     (case try_acquire_channel other 0 now (from_channel (cc_channel c)) rt of
                        (rt1, None) \<Rightarrow> (rt1, None)
                      | (rt1, Some (a, claim)) \<Rightarrow>
                          (let cache_hit = (preferred_of aff = Some (from_candidate c))
                           in (affinity_forget aff (if cache_hit then None else preferred_of aff) rt1,
                               Some (make_route rule aff True c cache_hit a claim)))))))"

definition has_available_websocket_route ::
  "duration \<Rightarrow> ('d, 'j) compiled_runtime_config \<Rightarrow> 'd compiled_api_key \<Rightarrow> ('d compiled_channel \<Rightarrow> bool) \<Rightarrow>
   routing_runtime \<Rightarrow> bool" where
  "has_available_websocket_route now snapshot key connector_available rt =
     list_ex (\<lambda>rule. mr_api_operation rule = ResponsesWebSocket \<and> permits_route key (mr_route_slot rule) \<and>
         list_ex (\<lambda>tier. list_ex (\<lambda>c.
             ch_supports_websocket (cc_channel c) \<and> permits_route_candidate key (cc_channel_slot c) \<and>
             connector_available (cc_channel c) \<and> usable rt now (from_channel (cc_channel c)))
           (rt_candidates tier)) (mr_tiers rule))
       (routes_values (rc_model_rules snapshot))"

section \<open>Entry points\<close>

definition select_with_affinity_excluding ::
  "(nat \<Rightarrow> routing_runtime \<Rightarrow> routing_runtime) \<Rightarrow> duration \<Rightarrow> duration \<Rightarrow> ('d, 'j) compiled_runtime_config \<Rightarrow>
   'd compiled_api_key \<Rightarrow> api_format \<Rightarrow> string \<Rightarrow> session_affinity_match option \<Rightarrow> nat list \<Rightarrow>
   routing_runtime \<Rightarrow> (routing_runtime \<times> ('d, 'j) selection_result) option" where
  "select_with_affinity_excluding other t0 t1 snapshot key fmt model m excluded rt =
     select_with_affinity_excluding_capability other t0 t1 snapshot key (legacy_default fmt) model m excluded
       AnyCapability rt"

definition select_route ::
  "(nat \<Rightarrow> routing_runtime \<Rightarrow> routing_runtime) \<Rightarrow> duration \<Rightarrow> duration \<Rightarrow> ('d, 'j) compiled_runtime_config \<Rightarrow>
   'd compiled_api_key \<Rightarrow> api_format \<Rightarrow> string \<Rightarrow>
   routing_runtime \<Rightarrow> (routing_runtime \<times> ('d, 'j) selection_result) option" where
  "select_route other t0 t1 snapshot key fmt model rt =
     select_with_affinity_excluding other t0 t1 snapshot key fmt model None [] rt"

definition select_operation_with_affinity_excluding ::
  "(nat \<Rightarrow> routing_runtime \<Rightarrow> routing_runtime) \<Rightarrow> duration \<Rightarrow> duration \<Rightarrow> ('d, 'j) compiled_runtime_config \<Rightarrow>
   'd compiled_api_key \<Rightarrow> api_operation \<Rightarrow> request_protocol \<Rightarrow> string \<Rightarrow> session_affinity_match option \<Rightarrow>
   nat list \<Rightarrow> routing_runtime \<Rightarrow> (routing_runtime \<times> ('d, 'j) selection_result) option" where
  "select_operation_with_affinity_excluding other t0 t1 snapshot key op protocol model m excluded rt =
     select_with_affinity_excluding_capability other t0 t1 snapshot key op model m excluded
       (for_operation op protocol) rt"

definition select_websocket_with_affinity_excluding ::
  "(nat \<Rightarrow> routing_runtime \<Rightarrow> routing_runtime) \<Rightarrow> duration \<Rightarrow> duration \<Rightarrow> ('d, 'j) compiled_runtime_config \<Rightarrow>
   'd compiled_api_key \<Rightarrow> api_format \<Rightarrow> string \<Rightarrow> session_affinity_match option \<Rightarrow> nat list \<Rightarrow>
   routing_runtime \<Rightarrow> (routing_runtime \<times> ('d, 'j) selection_result) option" where
  "select_websocket_with_affinity_excluding other t0 t1 snapshot key fmt model m excluded rt =
     (if fmt \<noteq> OpenAiResponses then Some (rt, UnknownOrInaccessibleModel)
      else select_with_affinity_excluding_capability other t0 t1 snapshot key ResponsesWebSocket model m
             excluded ResponsesWebSocketCapability rt)"

definition select_preferred_channel ::
  "(nat \<Rightarrow> routing_runtime \<Rightarrow> routing_runtime) \<Rightarrow> duration \<Rightarrow> duration \<Rightarrow> ('d, 'j) compiled_runtime_config \<Rightarrow>
   'd compiled_api_key \<Rightarrow> api_format \<Rightarrow> string \<Rightarrow> uuid \<Rightarrow> session_affinity_match option \<Rightarrow> nat list \<Rightarrow>
   routing_runtime \<Rightarrow> routing_runtime \<times> ('d, 'j) selected_route option" where
  "select_preferred_channel other t0 t1 snapshot key fmt model channel_id m excluded rt =
     select_preferred_channel_with_capability other t0 t1 snapshot key (legacy_default fmt) model channel_id
       None m excluded AnyCapability rt"

definition select_preferred_websocket_channel ::
  "(nat \<Rightarrow> routing_runtime \<Rightarrow> routing_runtime) \<Rightarrow> duration \<Rightarrow> duration \<Rightarrow> ('d, 'j) compiled_runtime_config \<Rightarrow>
   'd compiled_api_key \<Rightarrow> api_format \<Rightarrow> string \<Rightarrow> uuid \<Rightarrow> session_affinity_match option \<Rightarrow> nat list \<Rightarrow>
   routing_runtime \<Rightarrow> routing_runtime \<times> ('d, 'j) selected_route option" where
  "select_preferred_websocket_channel other t0 t1 snapshot key fmt model channel_id m excluded rt =
     (if fmt \<noteq> OpenAiResponses then (rt, None)
      else select_preferred_channel_with_capability other t0 t1 snapshot key ResponsesWebSocket model
             channel_id None m excluded ResponsesWebSocketCapability rt)"

definition select_preferred_websocket_candidate ::
  "(nat \<Rightarrow> routing_runtime \<Rightarrow> routing_runtime) \<Rightarrow> duration \<Rightarrow> duration \<Rightarrow> ('d, 'j) compiled_runtime_config \<Rightarrow>
   'd compiled_api_key \<Rightarrow> api_format \<Rightarrow> string \<Rightarrow> uuid \<Rightarrow> string \<Rightarrow> session_affinity_match option \<Rightarrow> nat list \<Rightarrow>
   routing_runtime \<Rightarrow> routing_runtime \<times> ('d, 'j) selected_route option" where
  "select_preferred_websocket_candidate other t0 t1 snapshot key fmt model channel_id um m excluded rt =
     (if fmt \<noteq> OpenAiResponses then (rt, None)
      else select_preferred_channel_with_capability other t0 t1 snapshot key ResponsesWebSocket model
             channel_id (Some um) m excluded ResponsesWebSocketCapability rt)"

section \<open>Leases\<close>

definition request_succeeded :: "duration \<Rightarrow> channel_lease \<Rightarrow> routing_runtime \<Rightarrow> routing_runtime option" where
  "request_succeeded now l rt =
     (case ln_affinity l of
        None \<Rightarrow> Some rt
      | Some b \<Rightarrow> map_option (\<lambda>st. rt\<lparr>rn_affinity := st\<rparr>) (affinity_store now b (rn_affinity rt)))"

definition request_failed :: "channel_lease \<Rightarrow> routing_runtime \<Rightarrow> routing_runtime" where
  "request_failed l rt =
     (case ln_affinity l of
        None \<Rightarrow> rt
      | Some b \<Rightarrow>
          if ab_cache_hit b
          then rt\<lparr>rn_affinity := affinity_remove_if_candidate (ab_key b) (ab_candidate b) (rn_affinity rt)\<rparr>
          else rt)"

definition lease_headers_received :: "channel_lease \<Rightarrow> routing_runtime \<Rightarrow> routing_runtime" where
  "lease_headers_received l rt = set_state (ln_state l) (response_headers_received (rn_heap rt (ln_state l))) rt"

definition lease_failed :: "duration \<Rightarrow> channel_lease \<Rightarrow> routing_runtime \<Rightarrow> routing_runtime option" where
  "lease_failed now l rt =
     map_option (\<lambda>cs. set_state (ln_state l) cs rt)
       (lease_connection_failed (rn_policy rt) now (rn_heap rt (ln_state l)))"

definition lease_probe_abandoned :: "duration \<Rightarrow> channel_lease \<Rightarrow> routing_runtime \<Rightarrow> routing_runtime option" where
  "lease_probe_abandoned now l rt =
     map_option (\<lambda>cs. set_state (ln_state l) cs rt)
       (lease_probe_failed (rn_policy rt) now (ln_half_open_claim l) (rn_heap rt (ln_state l)))"

text \<open>The critical section in which a dropped lease removes a state nobody uses any more.\<close>

definition drop_untrack :: "routing_identity \<Rightarrow> nat \<Rightarrow> routing_runtime \<Rightarrow> routing_runtime" where
  "drop_untrack i state rt =
     (let s = channel_state_shard rt i;
          remove = (case hm_get (rn_channel_states rt s) i of
                      None \<Rightarrow> False
                    | Some a \<Rightarrow> a = state \<and> cs_in_flight (rn_heap rt a) = 0 \<and> \<not> cs_active (rn_heap rt a))
      in if remove
         then rt\<lparr>rn_channel_states := (rn_channel_states rt)(s := hm_remove i (rn_channel_states rt s))\<rparr>
         else rt)"

definition lease_drop :: "channel_lease \<Rightarrow> routing_runtime \<Rightarrow> routing_runtime \<times> channel_lease" where
  "lease_drop l rt0 =
     (if ln_released l then (rt0, l)
      else
        (let (cs, remaining) = lease_drop_state (ln_half_open_claim l) (rn_heap rt0 (ln_state l));
             rt = set_state (ln_state l) cs rt0
         in (if remaining = 0 \<and> \<not> cs_active cs then drop_untrack (ln_identity l) (ln_state l) rt else rt,
             l\<lparr>ln_released := True\<rparr>)))"

section \<open>Reconciliation and pressure\<close>

definition mark_shard :: "routing_identity list \<Rightarrow> nat \<Rightarrow> routing_runtime \<Rightarrow> routing_runtime" where
  "mark_shard ids s rt =
     (let heap = fold (\<lambda>(i, a) h. h(a := (h a)\<lparr>cs_active := i \<in> set ids\<rparr>)) (rn_channel_states rt s) (rn_heap rt)
      in rt\<lparr>rn_heap := heap,
            rn_channel_states := (rn_channel_states rt)
              (s := hm_retain (\<lambda>i a. i \<in> set ids \<or> cs_in_flight (heap a) > 0) (rn_channel_states rt s))\<rparr>)"

definition activate_channel :: "routing_identity \<Rightarrow> routing_runtime \<Rightarrow> routing_runtime" where
  "activate_channel i rt =
     (let (rt1, a) = (case channel_state_of rt i of Some a \<Rightarrow> (rt, a) | None \<Rightarrow> allocate_state i True rt)
      in set_state a ((rn_heap rt1 a)\<lparr>cs_active := True\<rparr>) rt1)"

definition reconcile_ids ::
  "duration \<Rightarrow> affinity_settings \<Rightarrow> routing_identity list \<Rightarrow> routing_runtime \<Rightarrow> routing_runtime" where
  "reconcile_ids now settings ids rt =
     (let rt1 = fold (mark_shard ids) [0..<64] rt;
          rt2 = fold activate_channel ids rt1;
          rt3 = rt2\<lparr>rn_active_channels := Some ids, rn_round_robin := (\<lambda>_. [])\<rparr>
      in rt3\<lparr>rn_affinity := reconcile_affinity now settings (rn_affinity rt3)\<rparr>)"

definition reconcile ::
  "duration \<Rightarrow> affinity_settings \<Rightarrow> ('d, 'j) compiled_runtime_config \<Rightarrow> routing_runtime \<Rightarrow> routing_runtime" where
  "reconcile now settings snapshot rt =
     reconcile_ids now settings (remdups (map (\<lambda>(_, c). from_channel c) (rc_channels snapshot))) rt"

record routing_pressure_snapshot =
  rp_tracked_channels :: u64
  rp_in_flight_requests :: u64
  rp_cooling_down_channels :: u64
  rp_half_open_channels :: u64
  rp_session_affinity_entries :: u64

definition pressure_step ::
  "channel_health_snapshot \<Rightarrow> u64 \<times> u64 \<times> u64 \<Rightarrow> u64 \<times> u64 \<times> u64" where
  "pressure_step h acc =
     (case acc of (flight, cooling, half) \<Rightarrow>
        (sat_add flight (hs_in_flight h), if hs_cooling_down h then sat_add cooling 1 else cooling,
         if hs_half_open_probe h then sat_add half 1 else half))"

definition routing_pressure ::
  "duration \<Rightarrow> routing_runtime \<Rightarrow> routing_runtime \<times> routing_pressure_snapshot" where
  "routing_pressure now rt =
     (let entries = concat (map (rn_channel_states rt) [0..<64]);
          (flight, cooling, half) =
            fold (\<lambda>(_, a). pressure_step (state_snapshot (rn_heap rt a) now)) entries (0, 0, 0);
          tracked = (case rn_active_channels rt of Some ids \<Rightarrow> length ids | None \<Rightarrow> length entries);
          st = prune_expired_affinity now (rn_affinity rt)
      in (rt\<lparr>rn_affinity := st\<rparr>,
          \<lparr>rp_tracked_channels = usize_to_u64 tracked, rp_in_flight_requests = flight,
           rp_cooling_down_channels = cooling, rp_half_open_channels = half,
           rp_session_affinity_entries = usize_to_u64 (hm_len (af_entries st))\<rparr>))"

section \<open>What selection keeps of channel health\<close>

definition same_health :: "routing_runtime \<Rightarrow> routing_runtime \<Rightarrow> bool" where
  "same_health rt rt' \<longleftrightarrow>
     rn_channel_hash rt' = rn_channel_hash rt \<and> rn_heap rt' = rn_heap rt \<and> rn_next rt' = rn_next rt \<and>
     rn_channel_states rt' = rn_channel_states rt \<and> rn_active_channels rt' = rn_active_channels rt"

lemma same_health_refl [simp]: "same_health rt rt"
  by (simp add: same_health_def)

lemma same_health_trans: "same_health a b \<Longrightarrow> same_health b c \<Longrightarrow> same_health a c"
  by (simp add: same_health_def)

lemma same_health_reads:
  assumes "same_health rt rt'"
  shows "channel_state_of rt' = channel_state_of rt" and "usable rt' = usable rt"
    and "eligible cap key ex now rt' = eligible cap key ex now rt"
    and "configured_active rt' = configured_active rt"
proof -
  show *: "channel_state_of rt' = channel_state_of rt"
    using assms by (intro ext) (simp add: channel_state_of_def channel_state_shard_def same_health_def)
  show u: "usable rt' = usable rt"
    using assms by (intro ext) (simp add: usable_def * same_health_def split: option.split)
  show "eligible cap key ex now rt' = eligible cap key ex now rt"
    by (intro ext) (simp add: eligible_def u)
  show "configured_active rt' = configured_active rt"
    using assms by (intro ext) (simp add: configured_active_def same_health_def)
qed

lemma prepare_affinity_health: "same_health rt (fst (prepare_affinity now key rule m rt))"
  by (simp add: prepare_affinity_def same_health_def Let_def split: option.split prod.split)

lemma affinity_forget_health: "same_health rt (affinity_forget aff stale rt)"
  by (simp add: affinity_forget_def same_health_def split: option.split)

lemma pick_by_strategy_health:
  "pick_by_strategy cap key ex now rule tier rt = Some (rt', r) \<Longrightarrow> same_health rt rt'"
  by (auto simp: pick_by_strategy_def same_health_def Let_def split: selection_strategy.splits if_splits prod.splits)

lemma pick_by_strategy_sound:
  assumes "pick_by_strategy cap key ex now rule tier rt = Some (rt', Some c)"
  shows "c \<in> set (rt_candidates tier) \<and> eligible cap key ex now rt c"
proof (cases "rt_strategy tier")
  case WeightedRandom
  with assms obtain s where
    "weighted_ticket (\<lambda>_. eligible cap key ex now rt) (rt_candidates tier) 0 (rn_entropy rt) = Some (s, Some c)"
    by (auto simp: pick_by_strategy_def)
  then show ?thesis by (rule ticket.pick_sound)
next
  case WeightedRoundRobin
  with assms obtain m where "snd (smooth_round_robin (eligible cap key ex now rt) (rt_candidates tier) m) = Some c"
    by (auto simp: pick_by_strategy_def Let_def split: if_splits prod.splits; metis snd_conv)
  then show ?thesis by (rule smooth_round_robin_picks(2))
qed

text \<open>The strategy of a tier decides, when the weights of a random tier are positive.\<close>

definition tier_served :: "'d compiled_route_tier \<Rightarrow> bool" where
  "tier_served tier \<longleftrightarrow> (rt_strategy tier = WeightedRandom \<longrightarrow> positive_tier (rt_candidates tier))"

lemma pick_by_strategy_decides:
  assumes "tier_served tier"
  shows "\<exists>rt' r. pick_by_strategy cap key ex now rule tier rt = Some (rt', r) \<and>
    (r = None \<longleftrightarrow> (\<forall>c \<in> set (rt_candidates tier). \<not> eligible cap key ex now rt c))"
proof (cases "rt_strategy tier")
  case WeightedRandom
  with assms have s: "positive_tier (rt_candidates tier)" by (simp add: tier_served_def)
  from ticket.pick_returns [OF s] obtain s' r where
    w: "weighted_ticket (\<lambda>_. eligible cap key ex now rt) (rt_candidates tier) 0 (rn_entropy rt) = Some (s', r)"
    by blast
  from ticket.pick_none_iff [OF s w] w WeightedRandom show ?thesis by (simp add: pick_by_strategy_def)
next
  case WeightedRoundRobin
  then show ?thesis
    using smooth_round_robin_picks(1) [of "eligible cap key ex now rt" "rt_candidates tier"]
    by (auto simp: pick_by_strategy_def Let_def split: prod.split) (metis snd_conv)+
qed

section \<open>Acquiring a channel\<close>

lemma is_usable_acquires: "is_usable cs now \<longleftrightarrow> snd (try_acquire cs now) \<noteq> None"
  by (auto simp: is_usable_def try_acquire_eq Let_def not_less)

lemma try_acquire_channel_undisturbed:
  assumes "channel_handle i rt = (rt1, a)" and "try_acquire (rn_heap rt1 a) now = (cs, claim)"
  shows "try_acquire_channel (\<lambda>_ rt. rt) n now i rt = (set_state a cs rt1, map_option (\<lambda>c. (a, c)) claim)"
  using assms by (auto simp: try_acquire_channel_def try_acquire_def set_state_def Let_def split: prod.splits option.splits)

lemma try_acquire_channel_usable:
  "snd (try_acquire_channel (\<lambda>_ rt. rt) n now i rt) \<noteq> None \<longleftrightarrow> usable rt now i"
proof -
  obtain rt1 a where h: "channel_handle i rt = (rt1, a)" by fastforce
  obtain cs claim where c: "try_acquire (rn_heap rt1 a) now = (cs, claim)" by fastforce
  have "claim \<noteq> None \<longleftrightarrow> usable rt now i"
  proof (cases "channel_state_of rt i")
    case None
    with h c show ?thesis
      by (auto simp: channel_handle_def usable_def channel_state_or_insert_def allocate_state_def Let_def
          try_acquire_eq channel_state_new_def)
  next
    case (Some b)
    with h c show ?thesis using is_usable_acquires [of "rn_heap rt a" now] by (auto simp: channel_handle_def usable_def)
  qed
  then show ?thesis by (simp add: try_acquire_channel_undisturbed [OF h c])
qed

section \<open>Selection in one tier\<close>

lemma affinity_candidate_Some:
  assumes "affinity_candidate cap key ex now aff tier rt = Some c"
  obtains p where "preferred_of aff = Some p" and "identity_matches p c"
    and "c \<in> set (rt_candidates tier)" and "eligible cap key ex now rt c"
  using assms by (auto simp: affinity_candidate_def bind_eq_Some_conv dest!: find_SomeD)

lemma tier_choice_sound:
  assumes "tier_choice cap key ex now rule aff tier allow rt = Some (rt1, candidate, hit)"
  shows "same_health rt rt1"
    and "candidate = Some c \<Longrightarrow> c \<in> set (rt_candidates tier) \<and> eligible cap key ex now rt c"
    and "hit \<Longrightarrow> \<exists>p c. preferred_of aff = Some p \<and> candidate = Some c \<and> identity_matches p c"
  using assms pick_by_strategy_health [of cap key ex now rule tier rt]
    pick_by_strategy_sound [of cap key ex now rule tier rt]
  by (auto simp: tier_choice_def split: option.splits if_splits elim!: affinity_candidate_Some)

lemma tier_choice_decides:
  assumes "tier_served tier"
  shows "\<exists>rt1 candidate hit. tier_choice cap key ex now rule aff tier allow rt = Some (rt1, candidate, hit) \<and>
    (candidate = None \<longleftrightarrow> (\<forall>c \<in> set (rt_candidates tier). \<not> eligible cap key ex now rt c))"
proof (cases "if allow then affinity_candidate cap key ex now aff tier rt else None")
  case None
  with pick_by_strategy_decides [OF assms, of cap key ex now rule rt] show ?thesis
    by (force simp: tier_choice_def)
next
  case (Some c)
  then have "affinity_candidate cap key ex now aff tier rt = Some c" by (simp split: if_splits)
  with Some show ?thesis by (auto simp: tier_choice_def elim!: affinity_candidate_Some)
qed

lemma select_in_tier_induct [consumes 1, case_names none acquired retry]:
  assumes res: "select_in_tier other cap key ex now rule aff tier allow n rt = Some q"
    and none: "\<And>allow n rt rt1 hit. tier_choice cap key ex now rule aff tier allow rt = Some (rt1, None, hit) \<Longrightarrow>
      P allow n rt (n, rt1, None)"
    and acquired: "\<And>allow n rt rt1 c hit rt2 a claim.
      tier_choice cap key ex now rule aff tier allow rt = Some (rt1, Some c, hit) \<Longrightarrow>
      try_acquire_channel other n now (from_channel (cc_channel c)) rt1 = (rt2, Some (a, claim)) \<Longrightarrow>
      P allow n rt (n + 3, rt2, Some (c, hit, a, claim))"
    and retry: "\<And>allow n rt rt1 c hit rt2 q.
      tier_choice cap key ex now rule aff tier allow rt = Some (rt1, Some c, hit) \<Longrightarrow>
      try_acquire_channel other n now (from_channel (cc_channel c)) rt1 = (rt2, None) \<Longrightarrow>
      P False (n + 3) rt2 q \<Longrightarrow> P allow n rt q"
  shows "P allow n rt q"
proof -
  let ?Q = "\<lambda>o' cp k e nw rl af t allow n rt q. o' = other \<longrightarrow> cp = cap \<longrightarrow> k = key \<longrightarrow> e = ex \<longrightarrow>
    nw = now \<longrightarrow> rl = rule \<longrightarrow> af = aff \<longrightarrow> t = tier \<longrightarrow> P allow n rt q"
  have "?Q other cap key ex now rule aff tier allow n rt q"
  proof (rule select_in_tier.raw_induct [where P = ?Q, OF _ res], intro impI)
    fix rec o' cp k e nw rl af t allow n rt q
    assume IH: "\<And>o' cp k e nw rl af t allow n rt q. rec o' cp k e nw rl af t allow n rt = Some q \<Longrightarrow>
        ?Q o' cp k e nw rl af t allow n rt q"
      and body: "Option.bind (tier_choice cp k e nw rl af t allow rt)
        (\<lambda>(rt1, candidate, cache_hit).
          case candidate of
            None \<Rightarrow> Some (n, rt1, None)
          | Some c \<Rightarrow>
              (case try_acquire_channel o' n nw (from_channel (cc_channel c)) rt1 of
                 (rt2, None) \<Rightarrow> rec o' cp k e nw rl af t False (n + 3) rt2
               | (rt2, Some (a, claim)) \<Rightarrow> Some (n + 3, rt2, Some (c, cache_hit, a, claim)))) = Some q"
      and [simp]: "o' = other" "cp = cap" "k = key" "e = ex" "nw = now" "rl = rule" "af = aff" "t = tier"
    from body obtain rt1 candidate hit where
      c: "tier_choice cap key ex now rule aff tier allow rt = Some (rt1, candidate, hit)"
      by (auto simp: bind_eq_Some_conv)
    show "P allow n rt q"
    proof (cases candidate)
      case None
      with c body none show ?thesis by auto
    next
      case (Some d)
      obtain rt2 r where t: "try_acquire_channel other n now (from_channel (cc_channel d)) rt1 = (rt2, r)"
        by fastforce
      show ?thesis
      proof (cases r)
        case None
        with c body Some t have "rec other cap key ex now rule aff tier False (n + 3) rt2 = Some q" by simp
        from IH [OF this] retry c Some t None show ?thesis by blast
      next
        case (Some w)
        with c body \<open>candidate = Some d\<close> t acquired show ?thesis by (cases w) auto
      qed
    qed
  qed
  then show ?thesis by simp
qed

text \<open>Whatever other requests do meanwhile, what is selected was permitted when inspected.\<close>

lemma select_in_tier_sound:
  assumes "select_in_tier other cap key ex now rule aff tier allow n rt = Some q"
  shows "\<forall>c hit a claim. snd (snd q) = Some (c, hit, a, claim) \<longrightarrow>
    c \<in> set (rt_candidates tier) \<and> candidate_permitted cap key ex c \<and>
    (hit \<longrightarrow> (\<exists>p. preferred_of aff = Some p \<and> identity_matches p c)) \<and>
    (\<exists>m rt1. try_acquire_channel other m now (from_channel (cc_channel c)) rt1 = (fst (snd q), Some (a, claim)))"
  using assms
proof (induction rule: select_in_tier_induct)
  case (acquired allow n rt rt1 c hit rt2 a claim)
  from tier_choice_sound(2) [OF acquired(1) refl] tier_choice_sound(3) [OF acquired(1)] acquired(2)
  show ?case unfolding eligible_def by (intro allI impI conjI; simp; blast)
next
  case none
  show ?case by simp
next
  case retry
  show ?case by (rule retry(3))
qed

text \<open>Without interference the first acquisition succeeds.\<close>

lemma select_in_tier_undisturbed:
  assumes "tier_served tier"
  obtains (none) rt1 where
      "select_in_tier (\<lambda>_ rt. rt) cap key ex now rule aff tier allow n rt = Some (n, rt1, None)"
      "same_health rt rt1" "\<forall>c \<in> set (rt_candidates tier). \<not> eligible cap key ex now rt c"
    | (some) rt1 c hit rt2 a claim where
      "tier_choice cap key ex now rule aff tier allow rt = Some (rt1, Some c, hit)"
      "try_acquire_channel (\<lambda>_ rt. rt) n now (from_channel (cc_channel c)) rt1 = (rt2, Some (a, claim))"
      "select_in_tier (\<lambda>_ rt. rt) cap key ex now rule aff tier allow n rt =
         Some (n + 3, rt2, Some (c, hit, a, claim))"
      "c \<in> set (rt_candidates tier)" "eligible cap key ex now rt c"
proof -
  from tier_choice_decides [OF assms, of cap key ex now rule aff allow rt] obtain rt1 candidate hit where
    t: "tier_choice cap key ex now rule aff tier allow rt = Some (rt1, candidate, hit)"
    and d: "candidate = None \<longleftrightarrow> (\<forall>c \<in> set (rt_candidates tier). \<not> eligible cap key ex now rt c)" by (elim exE conjE)
  note sound = tier_choice_sound [OF t]
  show ?thesis
  proof (cases candidate)
    case None
    with t d sound show ?thesis by (intro none [of rt1]) (subst select_in_tier.simps, simp_all)
  next
    case (Some c)
    with sound(2) [OF Some] have c: "c \<in> set (rt_candidates tier)" "eligible cap key ex now rt c" by auto
    with sound(1) have "usable rt1 now (from_channel (cc_channel c))"
      by (simp add: eligible_def same_health_reads(2))
    then obtain rt2 a claim where
      "try_acquire_channel (\<lambda>_ rt. rt) n now (from_channel (cc_channel c)) rt1 = (rt2, Some (a, claim))"
      using try_acquire_channel_usable [of n now "from_channel (cc_channel c)" rt1]
      by (cases "try_acquire_channel (\<lambda>_ rt. rt) n now (from_channel (cc_channel c)) rt1") auto
    with t Some c show ?thesis by (intro some [of rt1 c hit rt2 a claim]) (simp, simp, subst select_in_tier.simps, simp_all)
  qed
qed

section \<open>Selection across tiers\<close>

lemma select_tiers_sound:
  "select_tiers other cap key ex now rule aff tiers n rt = Some (rt', Some (c, hit, a, claim)) \<Longrightarrow>
    (\<exists>tier \<in> set tiers. c \<in> set (rt_candidates tier)) \<and> candidate_permitted cap key ex c \<and>
    (hit \<longrightarrow> (\<exists>p. preferred_of aff = Some p \<and> identity_matches p c)) \<and>
    (\<exists>m rt1. try_acquire_channel other m now (from_channel (cc_channel c)) rt1 = (rt', Some (a, claim)))"
proof (induction tiers arbitrary: n rt)
  case (Cons tier tiers)
  then obtain n1 rt1 r where s: "select_in_tier other cap key ex now rule aff tier True n rt = Some (n1, rt1, r)"
    by (auto simp: bind_eq_Some_conv)
  show ?case
  proof (cases r)
    case None
    with s Cons.prems have "select_tiers other cap key ex now rule aff tiers n1 rt1 = Some (rt', Some (c, hit, a, claim))"
      by simp
    from Cons.IH [OF this] show ?thesis by auto
  next
    case (Some x)
    with s Cons.prems have x: "r = Some (c, hit, a, claim)" "rt1 = rt'" by auto
    from select_in_tier_sound [OF s] x show ?thesis by simp
  qed
qed simp

text \<open>Without interference, the first tier with an eligible candidate decides.\<close>

lemma select_tiers_undisturbed:
  assumes "\<forall>tier \<in> set tiers. tier_served tier"
  shows "(\<exists>rt'. select_tiers (\<lambda>_ rt. rt) cap key ex now rule aff tiers n rt = Some (rt', None) \<and> same_health rt rt' \<and>
       (\<forall>tier \<in> set tiers. \<forall>c \<in> set (rt_candidates tier). \<not> eligible cap key ex now rt c)) \<or>
    (\<exists>pre tier post rt0 rt1 c hit rt2 a claim. tiers = pre @ tier # post \<and>
       (\<forall>t \<in> set pre. \<forall>c \<in> set (rt_candidates t). \<not> eligible cap key ex now rt c) \<and> same_health rt rt0 \<and>
       tier_choice cap key ex now rule aff tier True rt0 = Some (rt1, Some c, hit) \<and>
       try_acquire_channel (\<lambda>_ rt. rt) n now (from_channel (cc_channel c)) rt1 = (rt2, Some (a, claim)) \<and>
       select_tiers (\<lambda>_ rt. rt) cap key ex now rule aff tiers n rt = Some (rt2, Some (c, hit, a, claim)))"
  using assms
proof (induction tiers arbitrary: n rt)
  case (Cons tier tiers)
  then have t: "tier_served tier" by simp
  show ?case
  proof (rule select_in_tier_undisturbed [OF t, of cap key ex now rule aff True n rt])
    fix rt1
    assume r: "select_in_tier (\<lambda>_ rt. rt) cap key ex now rule aff tier True n rt = Some (n, rt1, None)"
      and h: "same_health rt rt1" and no: "\<forall>c \<in> set (rt_candidates tier). \<not> eligible cap key ex now rt c"
    have eq: "select_tiers (\<lambda>_ rt. rt) cap key ex now rule aff (tier # tiers) n rt =
        select_tiers (\<lambda>_ rt. rt) cap key ex now rule aff tiers n rt1" using r by simp
    have ts: "\<forall>tier \<in> set tiers. tier_served tier" using Cons.prems by simp
    have
      "(\<exists>rt'. select_tiers (\<lambda>_ rt. rt) cap key ex now rule aff tiers n rt1 = Some (rt', None) \<and> same_health rt1 rt' \<and>
         (\<forall>tier \<in> set tiers. \<forall>c \<in> set (rt_candidates tier). \<not> eligible cap key ex now rt1 c)) \<or>
      (\<exists>pre tier post rt0 rt2 c hit rt3 a claim. tiers = pre @ tier # post \<and>
         (\<forall>t \<in> set pre. \<forall>c \<in> set (rt_candidates t). \<not> eligible cap key ex now rt1 c) \<and> same_health rt1 rt0 \<and>
         tier_choice cap key ex now rule aff tier True rt0 = Some (rt2, Some c, hit) \<and>
         try_acquire_channel (\<lambda>_ rt. rt) n now (from_channel (cc_channel c)) rt2 = (rt3, Some (a, claim)) \<and>
         select_tiers (\<lambda>_ rt. rt) cap key ex now rule aff tiers n rt1 = Some (rt3, Some (c, hit, a, claim)))"
      (is "?none \<or> ?some") by (rule Cons.IH [OF ts])
    then show ?thesis
    proof
      assume ?none
      then obtain rt' where r': "select_tiers (\<lambda>_ rt. rt) cap key ex now rule aff tiers n rt1 = Some (rt', None)"
        "same_health rt1 rt'" "\<forall>tier \<in> set tiers. \<forall>c \<in> set (rt_candidates tier). \<not> eligible cap key ex now rt1 c"
        by (elim exE conjE)
      show ?thesis
        unfolding eq using r' no same_health_trans [OF h r'(2)] same_health_reads(3) [OF h, of cap key ex now]
        by (intro disjI1 exI [of _ rt']) simp
    next
      assume ?some
      then obtain pre t post rt0 rt2 c hit rt3 a claim where
        "tiers = pre @ t # post" "\<forall>t \<in> set pre. \<forall>c \<in> set (rt_candidates t). \<not> eligible cap key ex now rt1 c"
        "same_health rt1 rt0" "tier_choice cap key ex now rule aff t True rt0 = Some (rt2, Some c, hit)"
        "try_acquire_channel (\<lambda>_ rt. rt) n now (from_channel (cc_channel c)) rt2 = (rt3, Some (a, claim))"
        "select_tiers (\<lambda>_ rt. rt) cap key ex now rule aff tiers n rt1 = Some (rt3, Some (c, hit, a, claim))"
        by (elim exE conjE)
      then show ?thesis
        unfolding eq using no same_health_trans [OF h] same_health_reads(3) [OF h, of cap key ex now]
        by (intro disjI2 exI [of _ "tier # pre"] exI [of _ t] exI [of _ post] exI [of _ rt0] exI [of _ rt2]
            exI [of _ c] exI [of _ hit] exI [of _ rt3] exI [of _ a] exI [of _ claim]) simp
    qed
  next
    fix rt1 c hit rt2 a claim
    assume "tier_choice cap key ex now rule aff tier True rt = Some (rt1, Some c, hit)"
      "try_acquire_channel (\<lambda>_ rt. rt) n now (from_channel (cc_channel c)) rt1 = (rt2, Some (a, claim))"
      "select_in_tier (\<lambda>_ rt. rt) cap key ex now rule aff tier True n rt =
         Some (n + 3, rt2, Some (c, hit, a, claim))"
    then show ?thesis
      by (intro disjI2 exI [of _ "[]"] exI [of _ tier] exI [of _ tiers] exI [of _ rt] exI [of _ rt1]
            exI [of _ c] exI [of _ hit] exI [of _ rt2] exI [of _ a] exI [of _ claim]) simp
  qed
qed simp

lemma select_eq:
  assumes "operation_rule cfg op model = Some rule" and "permits_route key (mr_route_slot rule)"
    and "prepare_affinity t0 key rule m rt = (rt1, aff)"
    and "preserve = preserve_inapplicable_affinity cap key ex now rule aff rt1"
  shows "select_with_affinity_excluding_capability other t0 now cfg key op model m ex cap rt =
    (case select_tiers other cap key ex now rule aff (mr_tiers rule) 0 rt1 of
       None \<Rightarrow> None
     | Some (rt2, None) \<Rightarrow>
         Some (if preserve then rt2 else affinity_forget aff (preferred_of aff) rt2, NoHealthyChannel rule)
     | Some (rt2, Some (c, hit, a, claim)) \<Rightarrow>
         Some (affinity_forget aff (if \<not> hit \<and> \<not> preserve then preferred_of aff else None) rt2,
               Selected (make_route rule aff (\<not> preserve) c hit a claim)))"
  using assms by (simp add: select_with_affinity_excluding_capability_def Let_def split: option.split prod.split)

lemma select_SelectedE:
  assumes "select_with_affinity_excluding_capability other t0 now cfg key op model m ex cap rt = Some (rt', Selected r)"
  obtains rule rt1 aff rt2 c hit a claim preserve stale where
    "operation_rule cfg op model = Some rule" "permits_route key (mr_route_slot rule)"
    "prepare_affinity t0 key rule m rt = (rt1, aff)"
    "select_tiers other cap key ex now rule aff (mr_tiers rule) 0 rt1 = Some (rt2, Some (c, hit, a, claim))"
    "r = make_route rule aff preserve c hit a claim" "rt' = affinity_forget aff stale rt2"
proof -
  from assms obtain rule where rule: "operation_rule cfg op model = Some rule"
    by (cases "operation_rule cfg op model") (simp_all add: select_with_affinity_excluding_capability_def)
  with assms have perm: "permits_route key (mr_route_slot rule)"
    by (auto simp: select_with_affinity_excluding_capability_def split: if_splits)
  obtain rt1 aff where prep: "prepare_affinity t0 key rule m rt = (rt1, aff)" by fastforce
  note eq = select_eq [OF rule perm prep refl, where other = other and cap = cap and ex = ex and now = now]
  from assms obtain q where q: "select_tiers other cap key ex now rule aff (mr_tiers rule) 0 rt1 = Some q"
    unfolding eq by (auto split: option.splits)
  obtain rt2 x where x: "q = (rt2, x)" by fastforce
  with assms q obtain y where y: "x = Some y" unfolding eq by (auto split: option.splits)
  obtain c hit a claim where "y = (c, hit, a, claim)" by (metis prod_cases4)
  with assms q x y show ?thesis unfolding eq by (intro that [OF rule perm prep]) auto
qed

text \<open>C1. Selection is safe under interference: whatever other requests do to the runtime between the
  inspection of a candidate and the single accesses that acquire its lease, a selected route belongs to the
  rule configured for the requested operation and model, the key may use that rule and that
  channel, the channel has the capability the request needs, the candidate is not excluded, the
  lease is for that channel, and a route marked as an affinity hit is the remembered candidate.\<close>

theorem selection_is_authorized:
  assumes "select_with_affinity_excluding_capability other t0 now cfg key op model m ex cap rt = Some (rt', Selected r)"
  shows "operation_rule cfg op model = Some (sr_rule r) \<and> permits_route key (mr_route_slot (sr_rule r)) \<and>
    (\<exists>tier \<in> set (mr_tiers (sr_rule r)). \<exists>c \<in> set (rt_candidates tier).
       cc_channel c = sr_channel r \<and> cc_candidate_slot c = sr_candidate_slot r \<and>
       cc_channel_slot c = sr_channel_slot r \<and> cc_upstream_model c = sr_upstream_model r) \<and>
    capability_permits cap (sr_channel r) \<and> permits_route_candidate key (sr_channel_slot r) \<and>
    sr_candidate_slot r \<notin> set ex \<and> ln_identity (sr_lease r) = from_channel (sr_channel r) \<and>
    (\<forall>name. sr_session_affinity r = Some (name, True) \<longrightarrow>
       (\<exists>p. preferred_of (snd (prepare_affinity t0 key (sr_rule r) m rt)) = Some p \<and>
            rci_channel_id p = ch_id (sr_channel r) \<and> rci_upstream_model p = sr_upstream_model r))"
proof (rule select_SelectedE [OF assms])
  fix rule rt1 aff rt2 c hit a claim preserve stale
  assume rule: "operation_rule cfg op model = Some rule" "permits_route key (mr_route_slot rule)"
    and prep: "prepare_affinity t0 key rule m rt = (rt1, aff)"
    and sel: "select_tiers other cap key ex now rule aff (mr_tiers rule) 0 rt1 = Some (rt2, Some (c, hit, a, claim))"
    and r: "r = make_route rule aff preserve c hit a claim"
  note sound = select_tiers_sound [OF sel]
  have "\<exists>p. preferred_of aff = Some p \<and> rci_channel_id p = ch_id (cc_channel c) \<and>
      rci_upstream_model p = cc_upstream_model c" if hit
    using sound that by (auto simp: identity_matches_def)
  with sound rule prep show ?thesis
    by (auto simp: r make_route_def candidate_permitted_def)
qed

text \<open>C2. Selection decides by priority: undisturbed, it always returns; it reports no healthy channel
  exactly when no candidate of any tier is eligible, and otherwise selects an eligible
  candidate of the first tier that has one.\<close>

theorem selection_takes_first_usable_tier:
  assumes rule: "operation_rule cfg op model = Some rule" "permits_route key (mr_route_slot rule)"
    and served: "\<forall>tier \<in> set (mr_tiers rule). tier_served tier"
  shows "\<exists>rt' result. select_with_affinity_excluding_capability (\<lambda>_ rt. rt) t0 now cfg key op model m ex cap rt =
      Some (rt', result) \<and>
    (case result of
       UnknownOrInaccessibleModel \<Rightarrow> False
     | NoHealthyChannel r \<Rightarrow> r = rule \<and>
         (\<forall>tier \<in> set (mr_tiers rule). \<forall>c \<in> set (rt_candidates tier). \<not> eligible cap key ex now rt c)
     | Selected r \<Rightarrow> sr_rule r = rule \<and>
         (\<exists>pre tier post c. mr_tiers rule = pre @ tier # post \<and>
            (\<forall>t \<in> set pre. \<forall>c \<in> set (rt_candidates t). \<not> eligible cap key ex now rt c) \<and>
            c \<in> set (rt_candidates tier) \<and> eligible cap key ex now rt c \<and>
            cc_channel c = sr_channel r \<and> cc_candidate_slot c = sr_candidate_slot r))"
proof -
  obtain rt1 aff where prep: "prepare_affinity t0 key rule m rt = (rt1, aff)" by fastforce
  with prepare_affinity_health [of rt t0 key rule m] have h: "same_health rt rt1" by simp
  note elig = same_health_reads(3) [OF h, of cap key ex now]
  note eq = select_eq [OF rule prep refl, where other = "\<lambda>_ rt. rt" and cap = cap and ex = ex and now = now]
  from select_tiers_undisturbed [OF served, of cap key ex now rule aff 0 rt1]
  show ?thesis
  proof (elim disjE exE conjE)
    fix rt2
    assume "select_tiers (\<lambda>_ rt. rt) cap key ex now rule aff (mr_tiers rule) 0 rt1 = Some (rt2, None)"
      "\<forall>tier \<in> set (mr_tiers rule). \<forall>c \<in> set (rt_candidates tier). \<not> eligible cap key ex now rt1 c"
    then show ?thesis by (simp add: eq elig)
  next
    fix pre tier post rt0 rt2 c hit rt3 a claim
    assume s: "mr_tiers rule = pre @ tier # post" "same_health rt1 rt0"
      "\<forall>t \<in> set pre. \<forall>c \<in> set (rt_candidates t). \<not> eligible cap key ex now rt1 c"
      "tier_choice cap key ex now rule aff tier True rt0 = Some (rt2, Some c, hit)"
      "select_tiers (\<lambda>_ rt. rt) cap key ex now rule aff (mr_tiers rule) 0 rt1 = Some (rt3, Some (c, hit, a, claim))"
    from tier_choice_sound(2) [OF s(4) refl] have "c \<in> set (rt_candidates tier)" "eligible cap key ex now rt c"
      using elig same_health_reads(3) [OF s(2), of cap key ex now] by auto
    with s have "\<exists>pre tier post c'. mr_tiers rule = pre @ tier # post \<and>
            (\<forall>t \<in> set pre. \<forall>c \<in> set (rt_candidates t). \<not> eligible cap key ex now rt c) \<and>
            c' \<in> set (rt_candidates tier) \<and> eligible cap key ex now rt c' \<and>
            cc_channel c' = cc_channel c \<and> cc_candidate_slot c' = cc_candidate_slot c"
      by (intro exI [of _ pre] exI [of _ tier] exI [of _ post] exI [of _ c]) (simp add: elig)
    then show ?thesis by (simp add: eq s(5) make_route_def)
  qed
qed

lemma affinity_candidate_found:
  assumes "preferred_of aff = Some p" and "c \<in> set (rt_candidates tier)" and "identity_matches p c"
    and "eligible cap key ex now rt c"
  shows "\<exists>d. affinity_candidate cap key ex now aff tier rt = Some d \<and> identity_matches p d"
proof -
  let ?Q = "\<lambda>c. identity_matches p c \<and> eligible cap key ex now rt c"
  have "List.find ?Q (rt_candidates tier) \<noteq> None" using assms by (auto simp: find_None_iff)
  then obtain d where d: "List.find ?Q (rt_candidates tier) = Some d" by blast
  then have "identity_matches p d" by (auto dest: find_SomeD)
  with d assms(1) show ?thesis by (simp add: affinity_candidate_def)
qed

lemma split_first_unique:
  assumes "xs = pre @ t # post" and "xs = pre' @ t' # post'" and "\<forall>x \<in> set pre. \<not> P x" and "\<forall>x \<in> set pre'. \<not> P x"
    and "P t" and "P t'"
  shows "pre = pre' \<and> t = t' \<and> post = post'"
  using assms
proof (induction pre arbitrary: pre' xs)
  case Nil
  then show ?case by (cases pre') auto
next
  case (Cons x pre)
  then obtain pre2 where p: "pre' = x # pre2" by (cases pre') auto
  with Cons.prems have "pre @ t # post = pre2 @ t' # post'" by simp
  from Cons.IH [OF refl this] Cons.prems p show ?case by auto
qed

text \<open>C13. Session affinity is respected: if the session's remembered candidate is eligible in the first
  tier that has an eligible candidate, undisturbed selection returns that channel and upstream model
  and reports a cache hit, whatever the weights and counters say.\<close>

theorem selection_respects_affinity:
  assumes rule: "operation_rule cfg op model = Some rule" "permits_route key (mr_route_slot rule)"
    and served: "\<forall>tier \<in> set (mr_tiers rule). tier_served tier"
    and remembered: "snd (affinity_lookup t0 \<lparr>ac_rule_fingerprint = sm_rule_fingerprint s, ac_api_key_id = ak_id key,
        ac_model_rule_id = mr_id rule, ac_session_hash = sm_session_hash s\<rparr> (rn_affinity rt)) = Some p"
    and tiers: "mr_tiers rule = pre @ tier # post"
      "\<forall>t \<in> set pre. \<forall>c \<in> set (rt_candidates t). \<not> eligible cap key ex now rt c"
    and c: "c \<in> set (rt_candidates tier)" "eligible cap key ex now rt c" "identity_matches p c"
  shows "\<exists>rt' r. select_with_affinity_excluding_capability (\<lambda>_ rt. rt) t0 now cfg key op model (Some s) ex cap rt =
      Some (rt', Selected r) \<and>
    ch_id (sr_channel r) = rci_channel_id p \<and> sr_upstream_model r = rci_upstream_model p \<and>
    sr_session_affinity r = Some (sm_rule_name s, True)"
proof -
  obtain rt1 aff where prep: "prepare_affinity t0 key rule (Some s) rt = (rt1, aff)" by fastforce
  with prepare_affinity_health [of rt t0 key rule "Some s"] have h: "same_health rt rt1" by simp
  note elig = same_health_reads(3) [OF h, of cap key ex now]
  have pref: "preferred_of aff = Some p" and name: "map_option pa_rule_name aff = Some (sm_rule_name s)"
    using prep remembered by (auto simp: prepare_affinity_def preferred_of_def Let_def split: prod.splits)
  note eq = select_eq [OF rule prep refl, where other = "\<lambda>_ rt. rt" and cap = cap and ex = ex and now = now]
  from select_tiers_undisturbed [OF served, of cap key ex now rule aff 0 rt1]
  show ?thesis
  proof (elim disjE exE conjE)
    assume "\<forall>tier \<in> set (mr_tiers rule). \<forall>c \<in> set (rt_candidates tier). \<not> eligible cap key ex now rt1 c"
    with c tiers show ?thesis by (simp add: elig)
  next
    fix pre' tier' post' rt0 rt2 d hit rt3 a claim
    assume d: "mr_tiers rule = pre' @ tier' # post'" "same_health rt1 rt0"
      "\<forall>t \<in> set pre'. \<forall>c \<in> set (rt_candidates t). \<not> eligible cap key ex now rt1 c"
      "tier_choice cap key ex now rule aff tier' True rt0 = Some (rt2, Some d, hit)"
      "select_tiers (\<lambda>_ rt. rt) cap key ex now rule aff (mr_tiers rule) 0 rt1 = Some (rt3, Some (d, hit, a, claim))"
    note elig0 = same_health_reads(3) [OF d(2), of cap key ex now]
    let ?U = "\<lambda>t. \<exists>c \<in> set (rt_candidates t). eligible cap key ex now rt c"
    have "?U tier'" using tier_choice_sound(2) [OF d(4) refl] by (auto simp: elig elig0)
    with split_first_unique [OF d(1) tiers(1), where P = ?U] d(3) tiers(2) c
    have "tier' = tier" by (auto simp: elig)
    with affinity_candidate_found [OF pref c(1,3), of cap key ex now rt0] c(2) obtain e where
      "affinity_candidate cap key ex now aff tier' rt0 = Some e" "identity_matches p e" by (auto simp: elig elig0)
    with d(4) have "d = e" hit by (simp_all add: tier_choice_def)
    with \<open>identity_matches p e\<close> name show ?thesis
      by (auto simp: eq d(5) make_route_def identity_matches_def)
  qed
qed

section \<open>Preferred channels\<close>

lemma preferred_in_tier_Some:
  assumes "preferred_in_tier cap key ex now aff cid um rt tier = Some c"
  shows "c \<in> set (rt_candidates tier)" and "eligible cap key ex now rt c"
    and "ch_id (cc_channel c) = cid \<and> (\<forall>u. um = Some u \<longrightarrow> cc_upstream_model c = u) \<or>
      (\<exists>p. preferred_of aff = Some p \<and> identity_matches p c)"
proof -
  have "c \<in> set (rt_candidates tier) \<and> eligible cap key ex now rt c \<and>
    (ch_id (cc_channel c) = cid \<and> (\<forall>u. um = Some u \<longrightarrow> cc_upstream_model c = u) \<or>
      (\<exists>p. preferred_of aff = Some p \<and> identity_matches p c))"
  proof (cases "affinity_candidate cap key ex now aff tier rt")
    case (Some d)
    with assms have "d = c" by (simp add: preferred_in_tier_def)
    with Some show ?thesis by (auto elim: affinity_candidate_Some)
  next
    case None
    show ?thesis
    proof (cases um)
      case (Some u)
      with None assms show ?thesis by (auto simp: preferred_in_tier_def dest!: find_SomeD)
    next
      case um: None
      with None assms have "filter (\<lambda>c. ch_id (cc_channel c) = cid \<and> eligible cap key ex now rt c)
          (rt_candidates tier) = [c]"
        by (auto simp: preferred_in_tier_def split: list.splits)
      then have "c \<in> set (filter (\<lambda>c. ch_id (cc_channel c) = cid \<and> eligible cap key ex now rt c) (rt_candidates tier))"
        by simp
      with um show ?thesis by auto
    qed
  qed
  then show "c \<in> set (rt_candidates tier)" "eligible cap key ex now rt c"
    "ch_id (cc_channel c) = cid \<and> (\<forall>u. um = Some u \<longrightarrow> cc_upstream_model c = u) \<or>
      (\<exists>p. preferred_of aff = Some p \<and> identity_matches p c)" by simp_all
qed

lemma preferred_SomeE:
  assumes "select_preferred_channel_with_capability other t0 now cfg key op model cid um m ex cap rt = (rt', Some r)"
  obtains rule rt1 aff tier c rt2 a claim hit stale where
    "operation_rule cfg op model = Some rule" "permits_route key (mr_route_slot rule)"
    "prepare_affinity t0 key rule m rt = (rt1, aff)"
    "List.find (\<lambda>tier. list_ex (eligible cap key ex now rt1) (rt_candidates tier)) (mr_tiers rule) = Some tier"
    "preferred_in_tier cap key ex now aff cid um rt1 tier = Some c"
    "try_acquire_channel other 0 now (from_channel (cc_channel c)) rt1 = (rt2, Some (a, claim))"
    "r = make_route rule aff True c hit a claim"
    "rt' = affinity_forget aff stale rt2"
proof -
  note def = select_preferred_channel_with_capability_def
  from assms obtain rule where rule: "operation_rule cfg op model = Some rule"
    by (cases "operation_rule cfg op model") (simp_all add: def)
  with assms have perm: "permits_route key (mr_route_slot rule)" by (auto simp: def split: if_splits)
  obtain rt1 aff where prep: "prepare_affinity t0 key rule m rt = (rt1, aff)" by fastforce
  let ?tier = "List.find (\<lambda>tier. list_ex (eligible cap key ex now rt1) (rt_candidates tier)) (mr_tiers rule)"
  from assms obtain c where c: "Option.bind ?tier (preferred_in_tier cap key ex now aff cid um rt1) = Some c"
    by (cases "Option.bind ?tier (preferred_in_tier cap key ex now aff cid um rt1)")
      (simp_all add: def rule perm prep)
  then obtain tier where tier: "?tier = Some tier" "preferred_in_tier cap key ex now aff cid um rt1 tier = Some c"
    by (cases ?tier) auto
  obtain rt2 x where x: "try_acquire_channel other 0 now (from_channel (cc_channel c)) rt1 = (rt2, x)" by fastforce
  with assms c obtain y where y: "x = Some y" by (cases x) (simp_all add: def rule perm prep)
  obtain a claim where y': "y = (a, claim)" by fastforce
  from assms c x y y' show ?thesis
    by (intro that [OF rule perm prep tier, of rt2 a claim]) (auto simp: def rule perm prep Let_def)
qed

lemma find_first:
  "List.find P xs = Some x \<Longrightarrow> \<exists>pre post. xs = pre @ x # post \<and> P x \<and> (\<forall>y \<in> set pre. \<not> P y)"
proof (induction xs)
  case (Cons y xs)
  show ?case
  proof (cases "P y")
    case True
    with Cons.prems show ?thesis by (intro exI [of _ "[]"] exI [of _ xs]) auto
  next
    case False
    with Cons obtain pre post where "xs = pre @ x # post" "P x" "\<forall>y \<in> set pre. \<not> P y" by auto
    with False show ?thesis by (intro exI [of _ "y # pre"] exI [of _ post]) auto
  qed
qed simp

text \<open>C14. Pinning a stateful transport never bypasses the rules of ordinary selection: whatever
  other requests do meanwhile, a preferred selection returns a candidate that was eligible and in the
  first tier with an eligible candidate, and that candidate is on the preferred channel (and has the
  preferred model, if one was given) or is the session's remembered candidate.\<close>

theorem preferred_selection_is_authorized:
  assumes "select_preferred_channel_with_capability other t0 now cfg key op model cid um m ex cap rt = (rt', Some r)"
  shows "operation_rule cfg op model = Some (sr_rule r) \<and> permits_route key (mr_route_slot (sr_rule r)) \<and>
    (\<exists>pre tier post c. mr_tiers (sr_rule r) = pre @ tier # post \<and>
       (\<forall>t \<in> set pre. \<forall>c \<in> set (rt_candidates t). \<not> eligible cap key ex now rt c) \<and>
       c \<in> set (rt_candidates tier) \<and> eligible cap key ex now rt c \<and>
       cc_channel c = sr_channel r \<and> cc_candidate_slot c = sr_candidate_slot r \<and>
       cc_upstream_model c = sr_upstream_model r) \<and>
    (ch_id (sr_channel r) = cid \<and> (\<forall>u. um = Some u \<longrightarrow> sr_upstream_model r = u) \<or>
     (\<exists>p. preferred_of (snd (prepare_affinity t0 key (sr_rule r) m rt)) = Some p \<and>
          rci_channel_id p = ch_id (sr_channel r) \<and> rci_upstream_model p = sr_upstream_model r))"
proof (rule preferred_SomeE [OF assms])
  fix rule rt1 aff tier c rt2 a claim hit
  assume rule: "operation_rule cfg op model = Some rule" "permits_route key (mr_route_slot rule)"
    and prep: "prepare_affinity t0 key rule m rt = (rt1, aff)"
    and tier: "List.find (\<lambda>tier. list_ex (eligible cap key ex now rt1) (rt_candidates tier)) (mr_tiers rule) = Some tier"
    and c: "preferred_in_tier cap key ex now aff cid um rt1 tier = Some c"
    and r: "r = make_route rule aff True c hit a claim"
  from prep prepare_affinity_health [of rt t0 key rule m] have "same_health rt rt1" by simp
  note elig = same_health_reads(3) [OF this, of cap key ex now]
  from find_first [OF tier] obtain pre post where split: "mr_tiers rule = pre @ tier # post"
    and pre: "\<forall>t \<in> set pre. \<forall>c \<in> set (rt_candidates t). \<not> eligible cap key ex now rt c"
    by (auto simp: list_ex_iff elig)
  note spec = preferred_in_tier_Some [OF c]
  have "\<exists>pre tier post c'. mr_tiers rule = pre @ tier # post \<and>
       (\<forall>t \<in> set pre. \<forall>c \<in> set (rt_candidates t). \<not> eligible cap key ex now rt c) \<and>
       c' \<in> set (rt_candidates tier) \<and> eligible cap key ex now rt c' \<and>
       cc_channel c' = cc_channel c \<and> cc_candidate_slot c' = cc_candidate_slot c \<and>
       cc_upstream_model c' = cc_upstream_model c"
    using split pre spec(1,2)
    by (intro exI [of _ pre] exI [of _ tier] exI [of _ post] exI [of _ c]) (simp add: elig)
  with rule prep spec(3) show ?thesis by (auto simp: r make_route_def identity_matches_def)
qed

section \<open>Witnesses\<close>

lemma select_finds:
  assumes rule: "operation_rule cfg op model = Some rule" "permits_route key (mr_route_slot rule)"
    and served: "\<forall>tier \<in> set (mr_tiers rule). tier_served tier"
    and c: "tier \<in> set (mr_tiers rule)" "c \<in> set (rt_candidates tier)" "eligible cap key ex now rt c"
  shows "\<exists>rt' r. select_with_affinity_excluding_capability (\<lambda>_ rt. rt) t0 now cfg key op model m ex cap rt =
    Some (rt', Selected r)"
proof -
  obtain rt1 aff where prep: "prepare_affinity t0 key rule m rt = (rt1, aff)" by fastforce
  with prepare_affinity_health [of rt t0 key rule m] have "same_health rt rt1" by simp
  note elig = same_health_reads(3) [OF this, of cap key ex now]
  note eq = select_eq [OF rule prep refl, where other = "\<lambda>_ rt. rt" and cap = cap and ex = ex and now = now]
  from select_tiers_undisturbed [OF served, of cap key ex now rule aff 0 rt1] c show ?thesis
    unfolding eq elig by (elim disjE exE conjE) (blast, simp)
qed

definition sample_runtime :: routing_runtime where
  "sample_runtime = the (with_seams passive_health_default 7 (\<lambda>_. 0) (\<lambda>_. 0))"

lemma sample_runtime_new: "with_seams passive_health_default 7 (\<lambda>_. 0) (\<lambda>_. 0) = Some sample_runtime"
  by (simp add: sample_runtime_def with_seams_def policy_accepted_def passive_health_default_def from_secs_def
      nanos_per_sec_def)

definition candidate_a :: "int compiled_candidate" where
  "candidate_a = sample_candidate 0 5"

definition candidate_b :: "int compiled_candidate" where
  "candidate_b = sample_candidate 1 1"

lemma candidate_channels:
  "ch_id (cc_channel candidate_a) = 0" "ch_id (cc_channel candidate_b) = 1" "cc_upstream_model candidate_b = ''up''"
  by (simp_all add: candidate_a_def candidate_b_def sample_candidate_def sample_channel_def channel_new_def)

definition robin_tier :: "int compiled_route_tier" where
  "robin_tier = \<lparr>rt_priority = 0, rt_strategy = WeightedRoundRobin, rt_fingerprint = [], rt_channel_ids = [],
     rt_candidates = [candidate_a, candidate_b]\<rparr>"

definition robin_config :: "(int, string) compiled_runtime_config" where
  "robin_config = \<lparr>rc_api_keys = [], rc_model_rules = [(Responses, [(''gpt'', sample_rule [robin_tier])])],
     rc_channels = [], rc_probe_channels = [], rc_scheduled_test_models = [], rc_groups = []\<rparr>"

definition remembering_runtime :: routing_runtime where
  "remembering_runtime = sample_runtime\<lparr>rn_affinity := affinity_state_default\<lparr>af_enabled := True, af_max_entries := 5,
     af_active_rules := [([9], ''r'')],
     af_entries := [(\<lparr>ac_rule_fingerprint = [9], ac_api_key_id = 1, ac_model_rule_id = 7, ac_session_hash = [3]\<rparr>,
        \<lparr>ae_candidate = \<lparr>rci_channel_id = 1, rci_upstream_model = ''up''\<rparr>, ae_expires_at = 50, ae_generation = 1\<rparr>)]\<rparr>\<rparr>"

lemma sample_setup:
  "operation_rule robin_config Responses ''gpt'' = Some (sample_rule [robin_tier])"
  "permits_route sample_key (mr_route_slot (sample_rule [robin_tier]))"
  "\<forall>tier \<in> set (mr_tiers (sample_rule [robin_tier])). tier_served tier"
  "mr_tiers (sample_rule [robin_tier]) = [robin_tier]"
  "eligible AnyCapability sample_key [] 5 sample_runtime candidate_a"
  "eligible AnyCapability sample_key [] 5 sample_runtime candidate_b"
  "eligible AnyCapability sample_key [] 5 remembering_runtime candidate_b"
  by (simp_all add: operation_rule_def robin_config_def routes_get_def hm_get_def sample_rule_def permits_route_def
      sample_key_def bit_is_set_def robin_tier_def tier_served_def eligible_def candidate_permitted_def
      permits_route_candidate_def candidate_a_def candidate_b_def sample_candidate_def usable_def channel_state_of_def sample_runtime_def
      with_seams_def policy_accepted_def passive_health_default_def from_secs_def nanos_per_sec_def
      remembering_runtime_def)

lemma sample_select:
  "\<exists>rt' r. select_with_affinity_excluding_capability (\<lambda>_ rt. rt) 5 5 robin_config sample_key Responses ''gpt'' None []
    AnyCapability sample_runtime = Some (rt', Selected r)"
  by (rule select_finds [OF sample_setup(1-3), of robin_tier candidate_a])
    (simp_all add: sample_setup, simp add: robin_tier_def)

theorem selection_is_authorized_witness:
  "\<exists>rt' r. select_with_affinity_excluding_capability (\<lambda>_ rt. rt) 5 5 robin_config sample_key Responses ''gpt'' None []
    AnyCapability sample_runtime = Some (rt', Selected r) \<and> permits_route_candidate sample_key (sr_channel_slot r)"
  using sample_select selection_is_authorized by blast

theorem selection_takes_first_usable_tier_witness:
  "\<exists>rt' r. select_with_affinity_excluding_capability (\<lambda>_ rt. rt) 5 5 robin_config sample_key Responses ''gpt'' None []
    AnyCapability sample_runtime = Some (rt', Selected r) \<and> sr_rule r = sample_rule [robin_tier]"
  using selection_takes_first_usable_tier [OF sample_setup(1-3), of 5 5 None "[]" AnyCapability sample_runtime]
    sample_select
  by (elim exE conjE) auto

theorem selection_respects_affinity_witness:
  "\<exists>rt' r. select_with_affinity_excluding_capability (\<lambda>_ rt. rt) 5 5 robin_config sample_key Responses ''gpt''
      (Some \<lparr>sm_rule_name = ''r'', sm_rule_fingerprint = [9], sm_session_hash = [3], sm_ttl = 10\<rparr>) []
      AnyCapability remembering_runtime = Some (rt', Selected r) \<and> ch_id (sr_channel r) = 1 \<and>
    sr_session_affinity r = Some (''r'', True)"
proof -
  let ?p = "\<lparr>rci_channel_id = 1, rci_upstream_model = ''up''\<rparr>"
  let ?m = "\<lparr>sm_rule_name = ''r'', sm_rule_fingerprint = [9], sm_session_hash = [3], sm_ttl = 10\<rparr> :: session_affinity_match"
  have "snd (affinity_lookup 5 \<lparr>ac_rule_fingerprint = sm_rule_fingerprint ?m, ac_api_key_id = ak_id sample_key,
        ac_model_rule_id = mr_id (sample_rule [robin_tier]), ac_session_hash = sm_session_hash ?m\<rparr>
      (rn_affinity remembering_runtime)) = Some ?p"
    by (simp add: affinity_lookup_def remembering_runtime_def rule_active_def hm_get_def sample_key_def sample_rule_def)
  from selection_respects_affinity [OF sample_setup(1-3) this, of "[]" robin_tier "[]" AnyCapability "[]" 5
      candidate_b]
  show ?thesis
    by (simp add: sample_setup)
      (simp add: robin_tier_def identity_matches_def candidate_channels, blast)
qed

theorem preferred_selection_is_authorized_witness:
  "\<exists>rt' r. select_preferred_channel_with_capability (\<lambda>_ rt. rt) 5 5 robin_config sample_key Responses ''gpt'' 1 None None []
    AnyCapability sample_runtime = (rt', Some r) \<and> ch_id (sr_channel r) = 1"
proof -
  let ?sel = "select_preferred_channel_with_capability (\<lambda>_ rt. rt) 5 5 robin_config sample_key Responses ''gpt'' 1 None
    None [] AnyCapability sample_runtime"
  have tier: "preferred_in_tier AnyCapability sample_key [] 5 None 1 None sample_runtime robin_tier = Some candidate_b"
    by (simp add: preferred_in_tier_def affinity_candidate_def preferred_of_def robin_tier_def sample_setup)
      (simp add: candidate_channels)
  have "usable sample_runtime 5 (from_channel (cc_channel candidate_b))"
    using sample_setup(6) by (simp add: eligible_def)
  then obtain rt1 a claim where acq:
    "try_acquire_channel (\<lambda>_ rt. rt) 0 5 (from_channel (cc_channel candidate_b)) sample_runtime = (rt1, Some (a, claim))"
    using try_acquire_channel_usable [of 0 5 "from_channel (cc_channel candidate_b)" sample_runtime]
    by (cases "try_acquire_channel (\<lambda>_ rt. rt) 0 5 (from_channel (cc_channel candidate_b)) sample_runtime") auto
  have "list_ex (eligible AnyCapability sample_key [] 5 sample_runtime) (rt_candidates robin_tier)"
    by (simp add: robin_tier_def sample_setup)
  with acq tier have "snd ?sel \<noteq> None"
    by (simp add: select_preferred_channel_with_capability_def sample_setup prepare_affinity_def Let_def)
  then obtain rt' r where "?sel = (rt', Some r)" by (cases ?sel) auto
  with preferred_selection_is_authorized [OF this] show ?thesis by (auto simp: preferred_of_def prepare_affinity_def)
qed

end
