(* ===== verification/Channel_Leases.thy ===== *)
theory Channel_Leases
  imports Selection
begin

text \<open>
  Channel leases over whole runs of the routing runtime of \<^verbatim>\<open>src/routing/mod.rs\<close>.
  Acquisitions, drops of leases, health reports and reconfigurations interleave access by access:
  \<open>lease_entered\<close> and \<open>lease_released\<close> are the two accesses to the in-flight counter,
  \<open>lease_other\<close> is every other access, and a \<open>lease_world\<close> adds to the runtime what the
  threads have in hand between their accesses. A lease is identified by the channel and the address of the state it
  holds. The channel states are shown to be a \<open>lease_pool\<close>, whose lemmas give the accounting; the
  operations of \<open>Selection\<close>, run without interruption, are shown to be runs of these steps; and a
  selection with interference between its accesses is shown to take exactly the lease it returns.
\<close>

section \<open>The tracked states\<close>

text \<open>A channel is tracked in the shard of its hash, two channels never share a state, and memory that has not been
  allocated yet holds no request.\<close>

definition tracked_ok :: "routing_runtime \<Rightarrow> bool" where
  "tracked_ok rt \<longleftrightarrow>
     (\<forall>s. hm_wf (rn_channel_states rt s) \<and>
        (\<forall>i a. hm_get (rn_channel_states rt s) i = Some a \<longrightarrow> channel_state_shard rt i = s)) \<and>
     (\<forall>i a. channel_state_of rt i = Some a \<longrightarrow> a < rn_next rt \<and> (\<forall>j. channel_state_of rt j = Some a \<longrightarrow> j = i)) \<and>
     (\<forall>a \<ge> rn_next rt. cs_in_flight (rn_heap rt a) = 0)"

lemma tracked_okD:
  assumes "tracked_ok rt"
  shows "hm_wf (rn_channel_states rt s)"
    and "hm_get (rn_channel_states rt s) i = Some a \<Longrightarrow> channel_state_shard rt i = s"
    and "channel_state_of rt i = Some a \<Longrightarrow> a < rn_next rt"
    and "channel_state_of rt i = Some a \<Longrightarrow> channel_state_of rt j = Some a \<Longrightarrow> j = i"
    and "rn_next rt \<le> a \<Longrightarrow> cs_in_flight (rn_heap rt a) = 0"
  using assms unfolding tracked_ok_def by blast+

lemma set_state_reads [simp]:
  "channel_state_of (set_state a cs rt) = channel_state_of rt"
  "channel_state_shard (set_state a cs rt) = channel_state_shard rt"
  "configured_active (set_state a cs rt) = configured_active rt"
  "rn_channel_states (set_state a cs rt) = rn_channel_states rt"
  "rn_next (set_state a cs rt) = rn_next rt"
  "rn_heap (set_state a cs rt) = (rn_heap rt)(a := cs)"
  by (simp_all add: set_state_def channel_state_of_def channel_state_shard_def configured_active_def fun_eq_iff)

lemma set_state_tracked: "tracked_ok rt \<Longrightarrow> a < rn_next rt \<Longrightarrow> tracked_ok (set_state a cs rt)"
  by (auto simp: tracked_ok_def)

lemma allocate_reads:
  assumes "allocate_state i active rt = (rt', a)"
  shows "channel_state_of rt' = (channel_state_of rt)(i \<mapsto> a)" and "a = rn_next rt" and "rn_next rt' = Suc a"
    and "rn_heap rt' = (rn_heap rt)(a := channel_state_new active)"
    and "configured_active rt' = configured_active rt"
    and "channel_state_shard rt' = channel_state_shard rt"
    and "rn_channel_states rt' = (rn_channel_states rt)(channel_state_shard rt i :=
      hm_insert i a (rn_channel_states rt (channel_state_shard rt i)))"
proof -
  show shard: "channel_state_shard rt' = channel_state_shard rt"
    using assms by (auto simp: allocate_state_def Let_def channel_state_shard_def fun_eq_iff)
  show states: "rn_channel_states rt' = (rn_channel_states rt)(channel_state_shard rt i :=
      hm_insert i a (rn_channel_states rt (channel_state_shard rt i)))"
    using assms by (auto simp: allocate_state_def Let_def)
  show "channel_state_of rt' = (channel_state_of rt)(i \<mapsto> a)"
    by (auto simp: channel_state_of_def shard states hm_get_insert fun_eq_iff)
qed (use assms in \<open>auto simp: allocate_state_def Let_def configured_active_def fun_eq_iff\<close>)

lemma allocate_tracked:
  assumes ok: "tracked_ok rt" and a: "allocate_state i active rt = (rt', a)"
  shows "tracked_ok rt'"
proof -
  note r = allocate_reads [OF a] and t = tracked_okD [OF ok]
  have "hm_wf (rn_channel_states rt' s) \<and>
      (\<forall>j b. hm_get (rn_channel_states rt' s) j = Some b \<longrightarrow> channel_state_shard rt' j = s)" for s
    using t(1,2) by (auto simp: r hm_wf_insert hm_get_insert)
  moreover have "b < rn_next rt' \<and> (\<forall>j'. channel_state_of rt' j' = Some b \<longrightarrow> j' = j)"
    if "channel_state_of rt' j = Some b" for j b
  proof -
    have fresh: "channel_state_of rt j' \<noteq> Some a" for j' using t(3) [of j' a] r(2) by auto
    show ?thesis
    proof (cases "j = i")
      case True
      then show ?thesis using that fresh by (auto simp: r(1,3) split: if_splits)
    next
      case False
      then have st: "channel_state_of rt j = Some b" using that by (simp add: r(1))
      have "b \<noteq> a" using fresh st by blast
      moreover have "b < Suc a" using t(3) [OF st] unfolding r(2) by simp
      moreover have "j' = j" if "channel_state_of rt j' = Some b" for j' using t(4) [OF st that] .
      ultimately show ?thesis by (simp add: r(1,3))
    qed
  qed
  moreover have "cs_in_flight (rn_heap rt' b) = 0" if "rn_next rt' \<le> b" for b
    using that t(5) [of b] by (simp add: r(2-4))
  ultimately show ?thesis unfolding tracked_ok_def by blast
qed

lemma drop_untrack_eq:
  "drop_untrack i a rt =
     (if channel_state_of rt i = Some a \<and> cs_in_flight (rn_heap rt a) = 0 \<and> \<not> cs_active (rn_heap rt a)
      then rt\<lparr>rn_channel_states := (rn_channel_states rt)(channel_state_shard rt i :=
             hm_remove i (rn_channel_states rt (channel_state_shard rt i)))\<rparr> else rt)"
  by (cases "channel_state_of rt i") (auto simp: drop_untrack_def Let_def channel_state_of_def)

lemma drop_untrack_reads:
  "channel_state_of (drop_untrack i a rt) =
     (if channel_state_of rt i = Some a \<and> cs_in_flight (rn_heap rt a) = 0 \<and> \<not> cs_active (rn_heap rt a)
      then (channel_state_of rt)(i := None) else channel_state_of rt)"
  "configured_active (drop_untrack i a rt) = configured_active rt"
  "channel_state_shard (drop_untrack i a rt) = channel_state_shard rt"
  "rn_heap (drop_untrack i a rt) = rn_heap rt" "rn_next (drop_untrack i a rt) = rn_next rt"
proof -
  have "channel_state_of (rt\<lparr>rn_channel_states := (rn_channel_states rt)(channel_state_shard rt i :=
      hm_remove i (rn_channel_states rt (channel_state_shard rt i)))\<rparr>) = (channel_state_of rt)(i := None)"
    by (auto simp: channel_state_of_def channel_state_shard_def hm_get_remove fun_eq_iff)
  then show "channel_state_of (drop_untrack i a rt) =
     (if channel_state_of rt i = Some a \<and> cs_in_flight (rn_heap rt a) = 0 \<and> \<not> cs_active (rn_heap rt a)
      then (channel_state_of rt)(i := None) else channel_state_of rt)" by (simp add: drop_untrack_eq)
qed (simp_all add: drop_untrack_eq configured_active_def channel_state_shard_def fun_eq_iff)

lemma drop_untrack_tracked:
  assumes ok: "tracked_ok rt"
  shows "tracked_ok (drop_untrack i a rt)"
proof -
  note t = tracked_okD [OF ok]
  have "hm_wf (rn_channel_states (drop_untrack i a rt) s) \<and>
      (\<forall>j b. hm_get (rn_channel_states (drop_untrack i a rt) s) j = Some b \<longrightarrow> channel_state_shard rt j = s)" for s
    using t(1,2) by (simp add: drop_untrack_eq hm_wf_remove hm_get_remove) blast
  moreover have "b < rn_next rt \<and> (\<forall>j'. channel_state_of (drop_untrack i a rt) j' = Some b \<longrightarrow> j' = j)"
    if "channel_state_of (drop_untrack i a rt) j = Some b" for j b
  proof -
    have sub: "channel_state_of rt j' = Some c" if "channel_state_of (drop_untrack i a rt) j' = Some c" for j' c
      using that by (simp add: drop_untrack_reads(1) split: if_splits)
    show ?thesis using t(3) [OF sub [OF that]] t(4) [OF sub [OF that]] sub by blast
  qed
  ultimately show ?thesis unfolding tracked_ok_def drop_untrack_reads(3-5) using t(5) by blast
qed

section \<open>Reconciliation\<close>

definition marked_heap :: "routing_identity list \<Rightarrow> (routing_identity \<times> nat) list \<Rightarrow> (nat \<Rightarrow> channel_state) \<Rightarrow> nat \<Rightarrow> channel_state" where
  "marked_heap ids xs h = fold (\<lambda>(i, a) h. h(a := (h a)\<lparr>cs_active := i \<in> set ids\<rparr>)) xs h"

lemma marked_heap_other: "a \<notin> snd ` set xs \<Longrightarrow> marked_heap ids xs h a = h a"
  unfolding marked_heap_def
proof (induction xs arbitrary: h)
  case (Cons x xs)
  then show ?case by (cases x) auto
qed simp

lemma marked_heap_in:
  assumes "distinct (map snd xs)" and "(i, a) \<in> set xs"
  shows "marked_heap ids xs h a = (h a)\<lparr>cs_active := i \<in> set ids\<rparr>"
  using assms
proof (induction xs arbitrary: h)
  case (Cons x xs)
  obtain j b where x: "x = (j, b)" by fastforce
  let ?h = "h(b := (h b)\<lparr>cs_active := j \<in> set ids\<rparr>)"
  have step: "marked_heap ids (x # xs) h = marked_heap ids xs ?h" by (simp add: marked_heap_def x)
  show ?case
  proof (cases "(i, a) \<in> set xs")
    case True
    with Cons.prems x have "a \<noteq> b" by (auto simp: image_iff)
    with Cons.IH [OF _ True, of ?h] Cons.prems(1) show ?thesis unfolding step by (simp add: fun_upd_def)
  next
    case False
    with Cons.prems x have "i = j" "a = b" "a \<notin> snd ` set xs" by auto
    then show ?thesis unfolding step by (simp add: marked_heap_other)
  qed
qed simp

lemma mark_shard_eq:
  "mark_shard ids s rt =
     rt\<lparr>rn_heap := marked_heap ids (rn_channel_states rt s) (rn_heap rt),
        rn_channel_states := (rn_channel_states rt)(s := hm_retain
          (\<lambda>i a. i \<in> set ids \<or> cs_in_flight (marked_heap ids (rn_channel_states rt s) (rn_heap rt) a) > 0)
          (rn_channel_states rt s))\<rparr>"
  by (simp add: mark_shard_def marked_heap_def Let_def)

lemma shard_facts:
  assumes ok: "tracked_ok rt" and xs: "xs = rn_channel_states rt s"
  shows "distinct (map snd xs)"
    and "channel_state_of rt j = Some b \<Longrightarrow> channel_state_shard rt j = s \<Longrightarrow> (j, b) \<in> set xs"
    and "channel_state_of rt j = Some b \<Longrightarrow> channel_state_shard rt j \<noteq> s \<Longrightarrow> b \<notin> snd ` set xs"
proof -
  have wf: "hm_wf xs" using tracked_okD(1) [OF ok] xs by simp
  have mem: "channel_state_of rt i = Some a \<and> channel_state_shard rt i = s" if "(i, a) \<in> set xs" for i a
  proof -
    from that wf have "hm_get xs i = Some a" by (simp add: hm_get_Some_iff)
    moreover with tracked_okD(2) [OF ok] xs have "channel_state_shard rt i = s" by simp
    ultimately show ?thesis using xs by (simp add: channel_state_of_def)
  qed
  have inj: "i = j" if "channel_state_of rt i = Some a" "channel_state_of rt j = Some a" for i j a
    using that by (rule tracked_okD(4) [OF ok, THEN sym])
  have "inj_on snd (set xs)" using mem inj by (auto simp: inj_on_def; blast)
  moreover have "distinct xs" using wf by (simp add: hm_wf_def distinct_map)
  ultimately show "distinct (map snd xs)" by (simp add: distinct_map)
  show "(j, b) \<in> set xs" if "channel_state_of rt j = Some b" "channel_state_shard rt j = s"
    using that xs by (auto simp: channel_state_of_def dest: hm_get_SomeD)
  show "b \<notin> snd ` set xs" if "channel_state_of rt j = Some b" "channel_state_shard rt j \<noteq> s"
    using that mem inj by fastforce
qed

lemma mark_shard_reads:
  assumes ok: "tracked_ok rt"
  shows "channel_state_shard (mark_shard ids s rt) = channel_state_shard rt"
    and "configured_active (mark_shard ids s rt) = configured_active rt"
    and "rn_next (mark_shard ids s rt) = rn_next rt"
    and "cs_in_flight (rn_heap (mark_shard ids s rt) b) = cs_in_flight (rn_heap rt b)"
    and "channel_state_of rt j = Some b \<Longrightarrow> rn_heap (mark_shard ids s rt) b =
      (if channel_state_shard rt j = s then (rn_heap rt b)\<lparr>cs_active := j \<in> set ids\<rparr> else rn_heap rt b)"
    and "channel_state_of (mark_shard ids s rt) j = Some b \<longleftrightarrow> channel_state_of rt j = Some b \<and>
      (channel_state_shard rt j = s \<longrightarrow> j \<in> set ids \<or> 0 < cs_in_flight (rn_heap rt b))"
proof -
  let ?xs = "rn_channel_states rt s"
  note f = shard_facts [OF ok, of "rn_channel_states rt s" s, OF refl]
  show shard: "channel_state_shard (mark_shard ids s rt) = channel_state_shard rt"
    by (simp add: mark_shard_eq channel_state_shard_def fun_eq_iff)
  show "configured_active (mark_shard ids s rt) = configured_active rt"
    by (simp add: mark_shard_eq configured_active_def fun_eq_iff)
  show "rn_next (mark_shard ids s rt) = rn_next rt" by (simp add: mark_shard_eq)
  have heap: "rn_heap (mark_shard ids s rt) = marked_heap ids ?xs (rn_heap rt)" by (simp add: mark_shard_eq)
  have flight: "cs_in_flight (marked_heap ids ?xs (rn_heap rt) b) = cs_in_flight (rn_heap rt b)" for b
  proof (cases "b \<in> snd ` set ?xs")
    case True
    then obtain i where "(i, b) \<in> set ?xs" by auto
    from marked_heap_in [OF f(1) this] show ?thesis by simp
  qed (simp add: marked_heap_other)
  then show "cs_in_flight (rn_heap (mark_shard ids s rt) b) = cs_in_flight (rn_heap rt b)" by (simp add: heap)
  show "rn_heap (mark_shard ids s rt) b =
      (if channel_state_shard rt j = s then (rn_heap rt b)\<lparr>cs_active := j \<in> set ids\<rparr> else rn_heap rt b)"
    if "channel_state_of rt j = Some b"
    using f(2,3) [OF that] marked_heap_in [OF f(1), of j b] marked_heap_other [of b ?xs]
    by (auto simp: heap)
  have wf: "hm_wf ?xs" by (rule tracked_okD(1) [OF ok])
  show "channel_state_of (mark_shard ids s rt) j = Some b \<longleftrightarrow> channel_state_of rt j = Some b \<and>
      (channel_state_shard rt j = s \<longrightarrow> j \<in> set ids \<or> 0 < cs_in_flight (rn_heap rt b))"
    unfolding channel_state_of_def shard
    by (auto simp: mark_shard_eq flight hm_get_retain [OF wf] split: option.splits if_splits)
qed

lemma mark_shard_tracked:
  assumes ok: "tracked_ok rt"
  shows "tracked_ok (mark_shard ids s rt)"
proof -
  note r = mark_shard_reads [OF ok, where ids = ids and s = s] and t = tracked_okD [OF ok]
  have "hm_wf (rn_channel_states (mark_shard ids s rt) u) \<and>
      (\<forall>j b. hm_get (rn_channel_states (mark_shard ids s rt) u) j = Some b \<longrightarrow> channel_state_shard rt j = u)" for u
    using t(1,2) by (auto simp: mark_shard_eq hm_wf_retain hm_get_retain [OF t(1)] split: option.splits if_splits)
  moreover have "b < rn_next rt \<and> (\<forall>j'. channel_state_of (mark_shard ids s rt) j' = Some b \<longrightarrow> j' = j)"
    if "channel_state_of (mark_shard ids s rt) j = Some b" for j b
    using that t(3,4) unfolding r(6) by blast
  ultimately show ?thesis unfolding tracked_ok_def r(1,3,4) using t(5) by blast
qed

lemma activate_cases:
  obtains (old) a where "channel_state_of rt i = Some a" "activate_channel i rt = set_state a ((rn_heap rt a)\<lparr>cs_active := True\<rparr>) rt"
    | (new) a rt1 where "channel_state_of rt i = None" "allocate_state i True rt = (rt1, a)" "activate_channel i rt = rt1"
proof (cases "channel_state_of rt i")
  case None
  obtain rt1 a where al: "allocate_state i True rt = (rt1, a)" by fastforce
  have "(rn_heap rt1 a)\<lparr>cs_active := True\<rparr> = rn_heap rt1 a" using allocate_reads(4) [OF al] by (simp add: channel_state_new_def)
  then have "activate_channel i rt = rt1" using None al by (simp add: activate_channel_def set_state_def)
  with None al show ?thesis by (rule new)
next
  case (Some a)
  then show ?thesis by (intro old [of a]) (simp_all add: activate_channel_def)
qed

section \<open>Requests at the granularity of single accesses\<close>

text \<open>
  What the threads of the process have in hand between their accesses to the runtime: states that an acquisition has
  looked up and not claimed yet, states it has claimed and not counted itself into yet, states of dropped leases that
  were the last one and have not read \<^verbatim>\<open>active\<close> yet, states a drop is about to remove from its
  shard, and the reconciliation that holds the write lock of the active channels, with the shards it has marked and
  the channels it still has to activate. \<open>lw_owner\<close> is an auxiliary variable, the channel a state was
  allocated for. A step is one atomic access or one critical section of a shard lock; inside such a section the code
  touches a state with at most one store to \<^verbatim>\<open>active\<close> and one load of the counter next to it.
\<close>

type_synonym lease_key = "routing_identity \<times> nat"

record lease_world =
  lw_rt :: routing_runtime
  lw_owner :: "nat \<Rightarrow> routing_identity"
  lw_handles :: "lease_key multiset"
  lw_claims :: "lease_key multiset"
  lw_drops :: "lease_key multiset"
  lw_removals :: "lease_key multiset"
  lw_reconcile :: "(routing_identity list \<times> nat \<times> routing_identity list) option"

definition world_start :: "routing_runtime \<Rightarrow> lease_world" where
  "world_start rt =
     \<lparr>lw_rt = rt, lw_owner = (\<lambda>_. \<lparr>ri_id = 0, ri_connectivity_fingerprint = [], ri_outbound_network_policy_fingerprint = []\<rparr>),
      lw_handles = {#}, lw_claims = {#}, lw_drops = {#}, lw_removals = {#}, lw_reconcile = None\<rparr>"

abbreviation state_at :: "lease_world \<Rightarrow> nat \<Rightarrow> channel_state" where
  "state_at w a \<equiv> rn_heap (lw_rt w) a"

definition lease_count :: "lease_world \<Rightarrow> lease_key \<Rightarrow> nat" where
  "lease_count w k = (if lw_owner w (snd k) = fst k then unat (cs_in_flight (state_at w (snd k))) else 0)"

inductive lease_entered :: "lease_world \<Rightarrow> lease_key \<Rightarrow> lease_world \<Rightarrow> bool" where
  "(i, a) \<in># lw_claims w \<Longrightarrow>
   lease_entered w (i, a) (w\<lparr>lw_rt := set_state a (enter_flight (state_at w a)) (lw_rt w), lw_claims := lw_claims w - {#(i, a)#}\<rparr>)"

inductive lease_released :: "lease_world \<Rightarrow> lease_key \<Rightarrow> lease_world \<Rightarrow> bool" where
  "release (state_at w a) = (cs, remaining) \<Longrightarrow>
   lease_released w (i, a) (w\<lparr>lw_rt := set_state a cs (lw_rt w),
     lw_drops := (if remaining = 0 then add_mset (i, a) (lw_drops w) else lw_drops w)\<rparr>)"

inductive lease_other :: "lease_world \<Rightarrow> lease_world \<Rightarrow> bool" where
  o_local: "same_health (lw_rt w) rt' \<Longrightarrow> lease_other w (w\<lparr>lw_rt := rt'\<rparr>)"
| o_lookup: "channel_state_of (lw_rt w) i = Some a \<Longrightarrow> lease_other w (w\<lparr>lw_handles := add_mset (i, a) (lw_handles w)\<rparr>)"
| o_insert: "lw_reconcile w = None \<Longrightarrow> channel_state_or_insert i (lw_rt w) = (rt', a) \<Longrightarrow>
    lease_other w (w\<lparr>lw_rt := rt', lw_owner := (lw_owner w)(a := i), lw_handles := add_mset (i, a) (lw_handles w)\<rparr>)"
| o_refused: "k \<in># lw_handles w \<Longrightarrow> claim_word (state_at w (snd k)) now = (cs, None) \<Longrightarrow>
    lease_other w (w\<lparr>lw_handles := lw_handles w - {#k#}\<rparr>)"
| o_claim: "k \<in># lw_handles w \<Longrightarrow> claim_word (state_at w (snd k)) now = (cs, Some c) \<Longrightarrow>
    lease_other w (w\<lparr>lw_rt := set_state (snd k) cs (lw_rt w), lw_handles := lw_handles w - {#k#},
      lw_claims := add_mset k (lw_claims w)\<rparr>)"
| o_report: "0 < lease_count w k \<Longrightarrow>
    f \<in> {count_failure, clear_failures, clear_cooldown, open_cooldown until, \<lambda>cs. probe_failed cs c until} \<Longrightarrow>
    lease_other w (w\<lparr>lw_rt := set_state (snd k) (f (state_at w (snd k))) (lw_rt w)\<rparr>)"
| o_return: "a < rn_next (lw_rt w) \<Longrightarrow>
    lease_other w (w\<lparr>lw_rt := set_state a (return_claim c (state_at w a)) (lw_rt w)\<rparr>)"
| o_keep: "k \<in># lw_drops w \<Longrightarrow> cs_active (state_at w (snd k)) \<Longrightarrow> lease_other w (w\<lparr>lw_drops := lw_drops w - {#k#}\<rparr>)"
| o_retire: "k \<in># lw_drops w \<Longrightarrow> \<not> cs_active (state_at w (snd k)) \<Longrightarrow>
    lease_other w (w\<lparr>lw_drops := lw_drops w - {#k#}, lw_removals := add_mset k (lw_removals w)\<rparr>)"
| o_untrack: "(i, a) \<in># lw_removals w \<Longrightarrow>
    lease_other w (w\<lparr>lw_rt := drop_untrack i a (lw_rt w), lw_removals := lw_removals w - {#(i, a)#}\<rparr>)"
| o_reconcile: "lw_reconcile w = None \<Longrightarrow> lease_other w (w\<lparr>lw_reconcile := Some (ids, 0, ids)\<rparr>)"
| o_mark: "lw_reconcile w = Some (ids, s, todo) \<Longrightarrow> s < 64 \<Longrightarrow>
    lease_other w (w\<lparr>lw_rt := mark_shard ids s (lw_rt w), lw_reconcile := Some (ids, Suc s, todo)\<rparr>)"
| o_activate: "lw_reconcile w = Some (ids, 64, i # todo) \<Longrightarrow> rt' = activate_channel i (lw_rt w) \<Longrightarrow>
    channel_state_of rt' i = Some a \<Longrightarrow>
    lease_other w (w\<lparr>lw_rt := rt', lw_owner := (lw_owner w)(a := i), lw_reconcile := Some (ids, 64, todo)\<rparr>)"
| o_publish: "lw_reconcile w = Some (ids, 64, []) \<Longrightarrow>
    lease_other w (w\<lparr>lw_rt := (lw_rt w)\<lparr>rn_active_channels := Some ids\<rparr>, lw_reconcile := None\<rparr>)"

section \<open>The invariant\<close>

text \<open>Whether a channel counts as active: during a reconciliation the shards that were marked already follow the new
  configuration.\<close>

definition active_under ::
  "(routing_identity list \<times> nat \<times> routing_identity list) option \<Rightarrow> routing_runtime \<Rightarrow> routing_identity \<Rightarrow> bool" where
  "active_under r rt i =
     (case r of
        None \<Rightarrow> configured_active rt i
      | Some (ids, s, _) \<Rightarrow> if channel_state_shard rt i < s then i \<in> set ids else configured_active rt i)"

lemma active_under_set_state [simp]: "active_under r (set_state a cs rt) = active_under r rt"
  by (auto simp: active_under_def fun_eq_iff split: option.splits)

text \<open>States belong to the channel they were allocated for; a tracked state of a channel that is not active is in use, by
  a lease, by a request that will still be let in, or by a drop that will still look at it.\<close>

definition owned :: "(nat \<Rightarrow> routing_identity) \<Rightarrow> lease_key multiset \<Rightarrow> routing_runtime \<Rightarrow> bool" where
  "owned owner P rt \<longleftrightarrow>
     (\<forall>i a. channel_state_of rt i = Some a \<longrightarrow> owner a = i) \<and> (\<forall>k \<in># P. snd k < rn_next rt \<and> owner (snd k) = fst k)"

definition in_use :: "(routing_identity \<Rightarrow> bool) \<Rightarrow> lease_key multiset \<Rightarrow> lease_key multiset \<Rightarrow> routing_runtime \<Rightarrow> bool" where
  "in_use act U H rt \<longleftrightarrow>
     (\<forall>i a. channel_state_of rt i = Some a \<longrightarrow> cs_active (rn_heap rt a) = act i \<and>
        (act i \<or> 0 < cs_in_flight (rn_heap rt a) \<or> (i, a) \<in># U \<or> (i, a) \<in># H \<and> cs_cooldown_state (rn_heap rt a) = 0))"

definition world_ok :: "lease_world \<Rightarrow> bool" where
  "world_ok w \<longleftrightarrow> tracked_ok (lw_rt w) \<and>
     owned (lw_owner w) (lw_handles w + lw_claims w + lw_drops w + lw_removals w) (lw_rt w) \<and>
     in_use (active_under (lw_reconcile w) (lw_rt w)) (lw_claims w + lw_drops w + lw_removals w) (lw_handles w) (lw_rt w) \<and>
     (\<forall>ids s todo. lw_reconcile w = Some (ids, s, todo) \<longrightarrow> s \<le> 64 \<and> set todo \<subseteq> set ids)"

lemma owned_key: "owned owner P rt \<Longrightarrow> (i, a) \<in># P \<Longrightarrow> a < rn_next rt \<and> owner a = i"
  unfolding owned_def by (metis fst_conv snd_conv)

lemma owned_tracked: "owned owner P rt \<Longrightarrow> channel_state_of rt i = Some a \<Longrightarrow> owner a = i"
  unfolding owned_def by blast

lemma owned_subset: "owned owner P rt \<Longrightarrow> set_mset P' \<subseteq> set_mset P \<Longrightarrow> owned owner P' rt"
  by (auto simp: owned_def)

lemma owned_set_state: "owned owner P rt \<Longrightarrow> owned owner P (set_state a cs rt)"
  by (simp add: owned_def)

lemma in_use_set_state:
  assumes "in_use act U H rt" and "cs_active cs = cs_active (rn_heap rt a)"
    and "\<And>i. channel_state_of rt i = Some a \<Longrightarrow>
      act i \<or> 0 < cs_in_flight cs \<or> (i, a) \<in># U' \<or> (i, a) \<in># H' \<and> cs_cooldown_state cs = 0"
    and "\<And>k. snd k \<noteq> a \<Longrightarrow> (k \<in># U \<longrightarrow> k \<in># U') \<and> (k \<in># H \<longrightarrow> k \<in># H')"
  shows "in_use act U' H' (set_state a cs rt)"
  unfolding in_use_def
proof (intro allI impI)
  fix i b assume st: "channel_state_of (set_state a cs rt) i = Some b"
  then have b: "cs_active (rn_heap rt b) = act i" "act i \<or> 0 < cs_in_flight (rn_heap rt b) \<or> (i, b) \<in># U \<or>
      (i, b) \<in># H \<and> cs_cooldown_state (rn_heap rt b) = 0"
    using assms(1) by (auto simp: in_use_def)
  show "cs_active (rn_heap (set_state a cs rt) b) = act i \<and> (act i \<or> 0 < cs_in_flight (rn_heap (set_state a cs rt) b) \<or>
      (i, b) \<in># U' \<or> (i, b) \<in># H' \<and> cs_cooldown_state (rn_heap (set_state a cs rt) b) = 0)"
    using b assms(2,3) st assms(4) [of "(i, b)"] by (cases "b = a") auto
qed

lemma world_okD:
  assumes "world_ok w"
  shows "tracked_ok (lw_rt w)"
    and "owned (lw_owner w) (lw_handles w + lw_claims w + lw_drops w + lw_removals w) (lw_rt w)"
    and "in_use (active_under (lw_reconcile w) (lw_rt w)) (lw_claims w + lw_drops w + lw_removals w) (lw_handles w) (lw_rt w)"
    and "lw_reconcile w = Some (ids, s, todo) \<Longrightarrow> s \<le> 64 \<and> set todo \<subseteq> set ids"
  using assms unfolding world_ok_def by blast+

lemma word_add_one_pos: "unat x < 2 ^ 64 - 1 \<Longrightarrow> unat (x + 1) = Suc (unat x) \<and> 0 < x + 1" for x :: u64
  by (subst word_less_nat_alt) (simp add: unat_word_ariths)

lemma entered_law:
  assumes ok: "world_ok w" and room: "lease_count w k < 2 ^ 64 - 1" and e: "lease_entered w k w'"
  shows "world_ok w' \<and> (\<forall>j. lease_count w' j = (if j = k then Suc (lease_count w k) else lease_count w j))"
proof -
  from e obtain i a where k: "k = (i, a)" "(i, a) \<in># lw_claims w"
    and w': "w' = w\<lparr>lw_rt := set_state a (enter_flight (state_at w a)) (lw_rt w), lw_claims := lw_claims w - {#(i, a)#}\<rparr>"
    by (auto simp: lease_entered.simps)
  note d = world_okD [OF ok]
  have o: "a < rn_next (lw_rt w)" "lw_owner w a = i" using owned_key [OF d(2), of i a] k(2) by auto
  have "unat (cs_in_flight (state_at w a)) < 2 ^ 64 - 1" using room k(1) o(2) by (simp add: lease_count_def)
  note pos = word_add_one_pos [OF this]
  have "in_use (active_under (lw_reconcile w) (lw_rt w)) (lw_claims w - {#(i, a)#} + lw_drops w + lw_removals w) (lw_handles w)
      (set_state a (enter_flight (state_at w a)) (lw_rt w))"
    by (rule in_use_set_state [OF d(3)]) (use pos in \<open>auto simp: enter_flight_def in_diff_count\<close>)
  moreover have "owned (lw_owner w) (lw_handles w + (lw_claims w - {#(i, a)#}) + lw_drops w + lw_removals w)
      (set_state a (enter_flight (state_at w a)) (lw_rt w))"
    by (rule owned_set_state, rule owned_subset [OF d(2)]) (auto dest: in_diffD)
  ultimately have "world_ok w'"
    using d(1,4) o(1) by (simp add: world_ok_def w' set_state_tracked)
  moreover have "lease_count w' j = (if j = k then Suc (lease_count w k) else lease_count w j)" for j
    using pos o(2) by (cases j) (auto simp: lease_count_def w' k(1) enter_flight_def)
  ultimately show ?thesis by blast
qed

lemma release_facts:
  assumes "release cs = (cs', remaining)" and "0 < unat (cs_in_flight cs)"
  shows "unat (cs_in_flight cs') = unat (cs_in_flight cs) - 1" and "cs_active cs' = cs_active cs"
    and "cs_cooldown_state cs' = cs_cooldown_state cs" and "remaining = cs_in_flight cs'"
proof -
  have one: "unat (cs_in_flight cs - 1) = unat (cs_in_flight cs) - 1"
    using assms(2) by (subst unat_sub) (simp_all add: word_le_nat_alt)
  show "unat (cs_in_flight cs') = unat (cs_in_flight cs) - 1" "cs_active cs' = cs_active cs"
    "cs_cooldown_state cs' = cs_cooldown_state cs"
    using assms(1) one by (auto simp: release_def)
  show "remaining = cs_in_flight cs'"
    using assms(1) one by (auto simp: release_def word_unat_eq_iff unat_sat_sub)
qed

lemma released_law:
  assumes ok: "world_ok w" and held: "0 < lease_count w k" and r: "lease_released w k w'"
  shows "world_ok w' \<and> (\<forall>j. lease_count w' j = (if j = k then lease_count w k - 1 else lease_count w j))"
proof -
  from r obtain i a cs remaining where k: "k = (i, a)" and rel: "release (state_at w a) = (cs, remaining)"
    and w': "w' = w\<lparr>lw_rt := set_state a cs (lw_rt w),
      lw_drops := (if remaining = 0 then add_mset (i, a) (lw_drops w) else lw_drops w)\<rparr>"
    by (auto simp: lease_released.simps)
  note d = world_okD [OF ok]
  from held k have o: "lw_owner w a = i" and pos: "0 < unat (cs_in_flight (state_at w a))"
    by (auto simp: lease_count_def split: if_splits)
  have a: "a < rn_next (lw_rt w)" using tracked_okD(5) [OF d(1), of a] pos by (metis not_less unat_0 less_irrefl)
  note f = release_facts [OF rel pos]
  let ?D = "if remaining = 0 then add_mset (i, a) (lw_drops w) else lw_drops w"
  have own: "j = i" if "channel_state_of (lw_rt w) j = Some a" for j using owned_tracked [OF d(2) that] o by simp
  have "in_use (active_under (lw_reconcile w) (lw_rt w)) (lw_claims w + ?D + lw_removals w) (lw_handles w) (set_state a cs (lw_rt w))"
    by (rule in_use_set_state [OF d(3)]) (use f own in \<open>auto simp: word_gt_0\<close>)
  moreover have "owned (lw_owner w) (lw_handles w + lw_claims w + ?D + lw_removals w) (set_state a cs (lw_rt w))"
    using d(2) o a by (auto simp: owned_def)
  ultimately have "world_ok w'" using d(1,4) a by (simp add: world_ok_def w' set_state_tracked)
  moreover have "lease_count w' j = (if j = k then lease_count w k - 1 else lease_count w j)" for j
    using f(1) o by (cases j) (auto simp: lease_count_def w' k)
  ultimately show ?thesis by blast
qed

lemma in_use_mono:
  "in_use act U H rt \<Longrightarrow> set_mset U \<subseteq> set_mset U' \<Longrightarrow> set_mset H \<subseteq> set_mset H' \<Longrightarrow> in_use act U' H' rt"
  unfolding in_use_def by blast

lemma owned_add:
  "owned owner P rt \<Longrightarrow> a < rn_next rt \<Longrightarrow> owner a = i \<Longrightarrow> set_mset P' \<subseteq> insert (i, a) (set_mset P) \<Longrightarrow> owned owner P' rt"
  unfolding owned_def by auto

lemma in_useD:
  assumes "in_use act U H rt" and "channel_state_of rt i = Some a"
  shows "cs_active (rn_heap rt a) = act i"
    and "act i \<or> 0 < cs_in_flight (rn_heap rt a) \<or> (i, a) \<in># U \<or> (i, a) \<in># H \<and> cs_cooldown_state (rn_heap rt a) = 0"
  using assms unfolding in_use_def by blast+

lemma active_under_cong:
  "configured_active rt' = configured_active rt \<Longrightarrow> channel_state_shard rt' = channel_state_shard rt \<Longrightarrow>
   active_under r rt' = active_under r rt"
  by (cases r) (auto simp: active_under_def fun_eq_iff)

lemma same_health_world:
  assumes h: "same_health rt rt'"
  shows "tracked_ok rt' = tracked_ok rt" and "owned owner P rt' = owned owner P rt" and "in_use act U H rt' = in_use act U H rt"
    and "active_under r rt' = active_under r rt" and "rn_heap rt' = rn_heap rt"
proof -
  have s: "channel_state_shard rt' = channel_state_shard rt"
    using h by (simp add: channel_state_shard_def same_health_def fun_eq_iff)
  have e: "rn_channel_states rt' = rn_channel_states rt" "rn_next rt' = rn_next rt" "rn_heap rt' = rn_heap rt"
    using h by (simp_all add: same_health_def)
  note reads = same_health_reads(1,4) [OF h] s e
  show "tracked_ok rt' = tracked_ok rt" "owned owner P rt' = owned owner P rt" "in_use act U H rt' = in_use act U H rt"
    unfolding tracked_ok_def owned_def in_use_def reads by (rule refl)+
  show "active_under r rt' = active_under r rt" by (rule active_under_cong) (simp_all add: reads)
  show "rn_heap rt' = rn_heap rt" by (rule e)
qed

text \<open>The insertion of a state into its shard, by an acquisition or by a reconciliation.\<close>

lemma allocate_world:
  assumes ok: "tracked_ok rt" "owned owner P rt" "in_use act U H rt" and new: "channel_state_of rt i = None"
    and al: "allocate_state i (act i) rt = (rt', a)" and use: "act i \<or> (i, a) \<in># H'" and H: "set_mset H \<subseteq> set_mset H'"
  shows "tracked_ok rt'" and "owned (owner(a := i)) P rt'" and "in_use act U H' rt'"
    and "channel_state_of rt' i = Some a" and "a < rn_next rt'" and "cs_in_flight (rn_heap rt' b) = cs_in_flight (rn_heap rt b)"
    and "cs_in_flight (rn_heap rt' a) = 0"
proof -
  note r = allocate_reads [OF al]
  show "tracked_ok rt'" by (rule allocate_tracked [OF ok(1) al])
  have fresh: "channel_state_of rt j = Some b \<Longrightarrow> b \<noteq> a" for j b using tracked_okD(3) [OF ok(1)] r(2) by blast
  have P: "k \<in># P \<Longrightarrow> snd k \<noteq> a \<and> snd k < Suc a \<and> owner (snd k) = fst k" for k
    using ok(2) r(2) by (auto simp: owned_def)
  have T: "channel_state_of rt j = Some b \<Longrightarrow> owner b = j" for j b by (rule owned_tracked [OF ok(2)])
  show "owned (owner(a := i)) P rt'"
    unfolding owned_def r(1,3) using fresh P T by (auto split: if_splits)
  show "in_use act U H' rt'"
    unfolding in_use_def r(1,4)
  proof (intro allI impI)
    fix j b assume st: "((channel_state_of rt)(i \<mapsto> a)) j = Some b"
    let ?h = "(rn_heap rt)(a := channel_state_new (act i))"
    show "cs_active (?h b) = act j \<and> (act j \<or> 0 < cs_in_flight (?h b) \<or> (j, b) \<in># U \<or> (j, b) \<in># H' \<and> cs_cooldown_state (?h b) = 0)"
    proof (cases "j = i")
      case True
      then show ?thesis using st use by (auto simp: channel_state_new_def)
    next
      case False
      then have old: "channel_state_of rt j = Some b" using st by simp
      show ?thesis using in_useD [OF ok(3) old] fresh [OF old] H by auto
    qed
  qed
  show "channel_state_of rt' i = Some a" "a < rn_next rt'" by (simp_all add: r(1,3))
  show "cs_in_flight (rn_heap rt' b) = cs_in_flight (rn_heap rt b)"
    using tracked_okD(5) [OF ok(1), of a] r(2) by (simp add: r(4) channel_state_new_def)
  show "cs_in_flight (rn_heap rt' a) = 0" by (simp add: r(4) channel_state_new_def)
qed

lemma count_owner:
  assumes "\<And>b. cs_in_flight (state_at w' b) = cs_in_flight (state_at w b)"
    and "lw_owner w' = lw_owner w \<or> (\<exists>a i. lw_owner w' = (lw_owner w)(a := i) \<and> (lw_owner w a = i \<or> cs_in_flight (state_at w a) = 0))"
  shows "lease_count w' k = lease_count w k"
  using assms by (auto simp: lease_count_def split: if_splits)

lemma insert_law:
  assumes ok: "world_ok w" and free: "lw_reconcile w = None" and ins: "channel_state_or_insert i (lw_rt w) = (rt', a)"
  defines "w' \<equiv> w\<lparr>lw_rt := rt', lw_owner := (lw_owner w)(a := i), lw_handles := add_mset (i, a) (lw_handles w)\<rparr>"
  shows "world_ok w' \<and> (\<forall>k. lease_count w' k = lease_count w k)"
proof (cases "channel_state_of (lw_rt w) i")
  case (Some b)
  note d = world_okD [OF ok]
  have b: "b = a" "rt' = lw_rt w" using ins Some by (simp_all add: channel_state_or_insert_def)
  have a: "a < rn_next (lw_rt w)" "lw_owner w a = i" using tracked_okD(3) [OF d(1) Some] owned_tracked [OF d(2) Some] b by auto
  then have same: "(lw_owner w)(a := i) = lw_owner w" by auto
  have "in_use (active_under None (lw_rt w)) (lw_claims w + lw_drops w + lw_removals w) (add_mset (i, a) (lw_handles w)) (lw_rt w)"
    by (rule in_use_mono [OF d(3) [unfolded free]]) auto
  moreover have "owned (lw_owner w) (add_mset (i, a) (lw_handles w) + lw_claims w + lw_drops w + lw_removals w) (lw_rt w)"
    by (rule owned_add [OF d(2) a]) auto
  ultimately have "world_ok w'" using d(1) free by (simp add: world_ok_def w'_def b(2) same)
  moreover have "lease_count w' k = lease_count w k" for k by (simp add: lease_count_def w'_def b(2) same)
  ultimately show ?thesis by blast
next
  case None
  note d = world_okD [OF ok]
  let ?act = "active_under None (lw_rt w)"
  have al: "allocate_state i (?act i) (lw_rt w) = (rt', a)"
    using ins None by (simp add: channel_state_or_insert_def active_under_def)
  have act: "active_under None rt' = ?act" using allocate_reads(5) [OF al] by (simp add: active_under_def fun_eq_iff)
  have H: "?act i \<or> (i, a) \<in># add_mset (i, a) (lw_handles w)" "set_mset (lw_handles w) \<subseteq> set_mset (add_mset (i, a) (lw_handles w))"
    by auto
  note A = allocate_world [OF d(1,2) d(3) [unfolded free] None al H]
  have "owned ((lw_owner w)(a := i)) (add_mset (i, a) (lw_handles w) + lw_claims w + lw_drops w + lw_removals w) rt'"
    by (rule owned_add [OF A(2,5)]) auto
  then have "world_ok w'" using A(1,3) free by (simp add: world_ok_def w'_def act)
  moreover have "lease_count w' k = lease_count w k" for k
    by (rule count_owner) (use A(6) [of _] A(6) [of a] A(7) in \<open>auto simp: w'_def\<close>)
  ultimately show ?thesis by blast
qed

lemma refused_law:
  assumes ok: "world_ok w" and k: "k \<in># lw_handles w" "claim_word (state_at w (snd k)) now = (cs, None)"
  shows "world_ok (w\<lparr>lw_handles := lw_handles w - {#k#}\<rparr>)"
proof -
  note d = world_okD [OF ok]
  have cd: "cs_cooldown_state (state_at w (snd k)) \<noteq> 0" using k(2) by (auto simp: claim_word_def Let_def split: if_splits)
  have "in_use (active_under (lw_reconcile w) (lw_rt w)) (lw_claims w + lw_drops w + lw_removals w) (lw_handles w - {#k#}) (lw_rt w)"
    unfolding in_use_def
  proof (intro allI impI)
    fix i a assume st: "channel_state_of (lw_rt w) i = Some a"
    have "(i, a) \<noteq> k" if "cs_cooldown_state (state_at w a) = 0" using cd that by auto
    then have "(i, a) \<in># lw_handles w - {#k#}" if "(i, a) \<in># lw_handles w" "cs_cooldown_state (state_at w a) = 0"
      using that by (auto simp: in_diff_count)
    then show "cs_active (state_at w a) = active_under (lw_reconcile w) (lw_rt w) i \<and>
        (active_under (lw_reconcile w) (lw_rt w) i \<or> 0 < cs_in_flight (state_at w a) \<or>
         (i, a) \<in># lw_claims w + lw_drops w + lw_removals w \<or>
         (i, a) \<in># lw_handles w - {#k#} \<and> cs_cooldown_state (state_at w a) = 0)"
      using in_useD [OF d(3) st] by blast
  qed
  moreover have "owned (lw_owner w) (lw_handles w - {#k#} + lw_claims w + lw_drops w + lw_removals w) (lw_rt w)"
    by (rule owned_subset [OF d(2)]) (auto dest: in_diffD)
  ultimately show ?thesis using d(1,4) by (simp add: world_ok_def)
qed

lemma claim_law:
  assumes ok: "world_ok w" and k: "k \<in># lw_handles w" and c: "claim_word (state_at w (snd k)) now = (cs, Some c)"
  shows "world_ok (w\<lparr>lw_rt := set_state (snd k) cs (lw_rt w), lw_handles := lw_handles w - {#k#},
    lw_claims := add_mset k (lw_claims w)\<rparr>)"
proof -
  note d = world_okD [OF ok] and f = claim_word_in_flight [OF c]
  obtain i a where ka: "k = (i, a)" by fastforce
  have a: "a < rn_next (lw_rt w)" "lw_owner w a = i" using owned_key [OF d(2), of i a] k ka by auto
  have "in_use (active_under (lw_reconcile w) (lw_rt w)) (add_mset k (lw_claims w) + lw_drops w + lw_removals w)
      (lw_handles w - {#k#}) (set_state a cs (lw_rt w))"
  proof (rule in_use_set_state [OF d(3)])
    fix j assume st: "channel_state_of (lw_rt w) j = Some a"
    have "j = i" using owned_tracked [OF d(2) st] a(2) by simp
    then show "active_under (lw_reconcile w) (lw_rt w) j \<or> 0 < cs_in_flight cs \<or>
        (j, a) \<in># add_mset k (lw_claims w) + lw_drops w + lw_removals w \<or>
        (j, a) \<in># lw_handles w - {#k#} \<and> cs_cooldown_state cs = 0" by (simp add: ka)
  qed (use f ka in \<open>auto simp: in_diff_count\<close>)
  moreover have "owned (lw_owner w) (lw_handles w - {#k#} + add_mset k (lw_claims w) + lw_drops w + lw_removals w)
      (set_state a cs (lw_rt w))"
    by (rule owned_set_state, rule owned_subset [OF d(2)]) (use k in \<open>auto dest: in_diffD\<close>)
  ultimately show ?thesis using d(1,4) a by (simp add: world_ok_def ka set_state_tracked)
qed

text \<open>A report or a returned claim changes neither the counter nor \<^verbatim>\<open>active\<close>.\<close>

lemma word_law:
  assumes ok: "world_ok w" and a: "a < rn_next (lw_rt w)"
    and cs: "cs_in_flight cs = cs_in_flight (state_at w a)" "cs_active cs = cs_active (state_at w a)"
    and use: "0 < cs_in_flight cs \<or> (cs_cooldown_state (state_at w a) = 0 \<longrightarrow> cs_cooldown_state cs = 0)"
  shows "world_ok (w\<lparr>lw_rt := set_state a cs (lw_rt w)\<rparr>)"
proof -
  note d = world_okD [OF ok]
  have "in_use (active_under (lw_reconcile w) (lw_rt w)) (lw_claims w + lw_drops w + lw_removals w) (lw_handles w)
      (set_state a cs (lw_rt w))"
  proof (rule in_use_set_state [OF d(3)])
    fix i assume st: "channel_state_of (lw_rt w) i = Some a"
    show "active_under (lw_reconcile w) (lw_rt w) i \<or> 0 < cs_in_flight cs \<or> (i, a) \<in># lw_claims w + lw_drops w + lw_removals w \<or>
        (i, a) \<in># lw_handles w \<and> cs_cooldown_state cs = 0"
      using in_useD(2) [OF d(3) st] use cs(1) by auto
  qed (use cs in auto)
  then show ?thesis using d a by (simp add: world_ok_def set_state_tracked owned_set_state)
qed

lemma keep_law:
  assumes ok: "world_ok w" and k: "k \<in># lw_drops w" "cs_active (state_at w (snd k))"
  shows "world_ok (w\<lparr>lw_drops := lw_drops w - {#k#}\<rparr>)"
proof -
  note d = world_okD [OF ok]
  have "in_use (active_under (lw_reconcile w) (lw_rt w)) (lw_claims w + (lw_drops w - {#k#}) + lw_removals w) (lw_handles w) (lw_rt w)"
    unfolding in_use_def
  proof (intro allI impI)
    fix i a assume st: "channel_state_of (lw_rt w) i = Some a"
    note u = in_useD [OF d(3) st]
    have "active_under (lw_reconcile w) (lw_rt w) i" if "(i, a) = k" using u(1) k(2) that by auto
    then show "cs_active (state_at w a) = active_under (lw_reconcile w) (lw_rt w) i \<and>
        (active_under (lw_reconcile w) (lw_rt w) i \<or> 0 < cs_in_flight (state_at w a) \<or>
         (i, a) \<in># lw_claims w + (lw_drops w - {#k#}) + lw_removals w \<or>
         (i, a) \<in># lw_handles w \<and> cs_cooldown_state (state_at w a) = 0)"
      using u by (auto simp: in_diff_count)
  qed
  moreover have "owned (lw_owner w) (lw_handles w + lw_claims w + (lw_drops w - {#k#}) + lw_removals w) (lw_rt w)"
    by (rule owned_subset [OF d(2)]) (auto dest: in_diffD)
  ultimately show ?thesis using d(1,4) by (simp add: world_ok_def)
qed

lemma retire_law:
  assumes ok: "world_ok w" and k: "k \<in># lw_drops w"
  shows "world_ok (w\<lparr>lw_drops := lw_drops w - {#k#}, lw_removals := add_mset k (lw_removals w)\<rparr>)"
proof -
  note d = world_okD [OF ok]
  have sub: "set_mset (lw_drops w) \<subseteq> set_mset (lw_drops w - {#k#}) \<union> {k}" by (auto simp: in_diff_count split: if_splits)
  have "in_use (active_under (lw_reconcile w) (lw_rt w)) (lw_claims w + (lw_drops w - {#k#}) + add_mset k (lw_removals w))
      (lw_handles w) (lw_rt w)"
    by (rule in_use_mono [OF d(3)]) (use sub in auto)
  moreover have "owned (lw_owner w) (lw_handles w + lw_claims w + (lw_drops w - {#k#}) + add_mset k (lw_removals w)) (lw_rt w)"
    by (rule owned_subset [OF d(2)]) (use k in \<open>auto dest: in_diffD\<close>)
  ultimately show ?thesis using d(1,4) by (simp add: world_ok_def)
qed

lemma untrack_law:
  assumes ok: "world_ok w" and k: "(i, a) \<in># lw_removals w"
  shows "world_ok (w\<lparr>lw_rt := drop_untrack i a (lw_rt w), lw_removals := lw_removals w - {#(i, a)#}\<rparr>)"
proof -
  let ?rt = "drop_untrack i a (lw_rt w)"
  note d = world_okD [OF ok] and r = drop_untrack_reads [of i a "lw_rt w"]
  have act: "active_under (lw_reconcile w) ?rt = active_under (lw_reconcile w) (lw_rt w)"
    by (rule active_under_cong) (simp_all add: r)
  have "in_use (active_under (lw_reconcile w) (lw_rt w)) (lw_claims w + lw_drops w + (lw_removals w - {#(i, a)#})) (lw_handles w) ?rt"
    unfolding in_use_def r(4)
  proof (intro allI impI)
    fix j b assume st': "channel_state_of ?rt j = Some b"
    then have st: "channel_state_of (lw_rt w) j = Some b" by (simp add: r(1) split: if_splits)
    note u = in_useD [OF d(3) st]
    have "0 < cs_in_flight (state_at w b) \<or> cs_active (state_at w b)" if "(j, b) = (i, a)"
      using st st' that by (auto simp: r(1) word_gt_0 split: if_splits)
    then show "cs_active (state_at w b) = active_under (lw_reconcile w) (lw_rt w) j \<and>
        (active_under (lw_reconcile w) (lw_rt w) j \<or> 0 < cs_in_flight (state_at w b) \<or>
         (j, b) \<in># lw_claims w + lw_drops w + (lw_removals w - {#(i, a)#}) \<or>
         (j, b) \<in># lw_handles w \<and> cs_cooldown_state (state_at w b) = 0)"
      using u by (auto simp: in_diff_count)
  qed
  moreover have "owned (lw_owner w) (lw_handles w + lw_claims w + lw_drops w + (lw_removals w - {#(i, a)#})) ?rt"
  proof -
    have "owned (lw_owner w) (lw_handles w + lw_claims w + lw_drops w + (lw_removals w - {#(i, a)#})) (lw_rt w)"
      by (rule owned_subset [OF d(2)]) (auto dest: in_diffD)
    then show ?thesis by (auto simp: owned_def r(1,5) split: if_splits)
  qed
  ultimately show ?thesis using d(1,4) by (simp add: world_ok_def act drop_untrack_tracked)
qed

lemma shard_bound: "channel_state_shard rt i < 64"
proof -
  have "rn_channel_hash rt i mod 64 < (64 :: u64)" by (rule word_mod_less_divisor) simp
  then show ?thesis by (simp add: channel_state_shard_def word_less_nat_alt)
qed

lemma active_under_marked [simp]: "active_under (Some (ids, 64, todo)) rt i \<longleftrightarrow> i \<in> set ids"
  by (simp add: active_under_def shard_bound)

lemma mark_law:
  assumes ok: "world_ok w" and r: "lw_reconcile w = Some (ids, s, todo)" and s: "s < 64"
  shows "world_ok (w\<lparr>lw_rt := mark_shard ids s (lw_rt w), lw_reconcile := Some (ids, Suc s, todo)\<rparr>)"
proof -
  let ?rt = "mark_shard ids s (lw_rt w)"
  note d = world_okD [OF ok]
  note m = mark_shard_reads [OF d(1), where ids = ids and s = s]
  have "in_use (active_under (Some (ids, Suc s, todo)) ?rt) (lw_claims w + lw_drops w + lw_removals w) (lw_handles w) ?rt"
    unfolding in_use_def
  proof (intro allI impI)
    fix i a assume "channel_state_of ?rt i = Some a"
    then have st: "channel_state_of (lw_rt w) i = Some a"
      and kept: "channel_state_shard (lw_rt w) i = s \<longrightarrow> i \<in> set ids \<or> 0 < cs_in_flight (state_at w a)"
      unfolding m(6) by auto
    have act: "active_under (Some (ids, Suc s, todo)) ?rt i =
        (if channel_state_shard (lw_rt w) i = s then i \<in> set ids else active_under (lw_reconcile w) (lw_rt w) i)"
      by (auto simp: active_under_def m(1,2) r)
    show "cs_active (rn_heap ?rt a) = active_under (Some (ids, Suc s, todo)) ?rt i \<and>
        (active_under (Some (ids, Suc s, todo)) ?rt i \<or> 0 < cs_in_flight (rn_heap ?rt a) \<or>
         (i, a) \<in># lw_claims w + lw_drops w + lw_removals w \<or> (i, a) \<in># lw_handles w \<and> cs_cooldown_state (rn_heap ?rt a) = 0)"
      unfolding act m(5) [OF st] using in_useD [OF d(3) st] kept by auto
  qed
  moreover have "owned (lw_owner w) (lw_handles w + lw_claims w + lw_drops w + lw_removals w) ?rt"
    using d(2) unfolding owned_def m(3,6) by blast
  ultimately show ?thesis using mark_shard_tracked [OF d(1)] d(4) [OF r] s by (simp add: world_ok_def)
qed

lemma activate_law:
  assumes ok: "world_ok w" and r: "lw_reconcile w = Some (ids, 64, i # todo)" and st': "channel_state_of (activate_channel i (lw_rt w)) i = Some a"
  defines "w' \<equiv> w\<lparr>lw_rt := activate_channel i (lw_rt w), lw_owner := (lw_owner w)(a := i), lw_reconcile := Some (ids, 64, todo)\<rparr>"
  shows "world_ok w' \<and> (\<forall>k. lease_count w' k = lease_count w k)"
proof (cases rule: activate_cases [of "lw_rt w" i])
  case (old b)
  note d = world_okD [OF ok]
  have b: "b = a" using st' by (simp add: old)
  have "cs_active (state_at w a)" using in_useD(1) [OF d(3) old(1)] d(4) [OF r] by (simp add: r b)
  then have "(state_at w a)\<lparr>cs_active := True\<rparr> = state_at w a" by (cases "state_at w a") simp
  then have rt: "activate_channel i (lw_rt w) = lw_rt w" unfolding old(2) b by (simp add: set_state_def)
  have own: "(lw_owner w)(a := i) = lw_owner w" using owned_tracked [OF d(2) old(1)] b by auto
  have act: "active_under (Some (ids, 64, todo)) (lw_rt w) = active_under (lw_reconcile w) (lw_rt w)" by (auto simp: r)
  show ?thesis using d(1-3) d(4) [OF r] by (simp add: world_ok_def lease_count_def w'_def rt own act)
next
  case (new b rt1)
  note d = world_okD [OF ok]
  have b: "b = a" using st' allocate_reads(1) [OF new(2)] by (simp add: new(3))
  let ?act = "active_under (lw_reconcile w) (lw_rt w)"
  have act: "active_under (Some (ids, 64, todo)) rt1 = ?act" by (auto simp: r)
  have i: "?act i" using d(4) [OF r] by (simp add: r)
  have al: "allocate_state i (?act i) (lw_rt w) = (rt1, a)" using new(2) i b by simp
  note A = allocate_world [OF d(1-3) new(1) al disjI1 [OF i] subset_refl]
  have "world_ok w'" using A(1-3) d(4) [OF r] by (simp add: world_ok_def w'_def new(3) act)
  moreover have "lease_count w' k = lease_count w k" for k
    by (rule count_owner) (use A(6) [of _] A(6) [of a] A(7) in \<open>auto simp: w'_def new(3)\<close>)
  ultimately show ?thesis by blast
qed

lemma publish_law:
  assumes ok: "world_ok w" and r: "lw_reconcile w = Some (ids, 64, [])"
  shows "world_ok (w\<lparr>lw_rt := (lw_rt w)\<lparr>rn_active_channels := Some ids\<rparr>, lw_reconcile := None\<rparr>)"
proof -
  let ?rt = "(lw_rt w)\<lparr>rn_active_channels := Some ids\<rparr>"
  note d = world_okD [OF ok]
  have s: "channel_state_shard ?rt = channel_state_shard (lw_rt w)" by (simp add: channel_state_shard_def fun_eq_iff)
  then have st: "channel_state_of ?rt = channel_state_of (lw_rt w)" by (simp add: channel_state_of_def fun_eq_iff)
  have act: "active_under None ?rt = active_under (lw_reconcile w) (lw_rt w)"
    by (intro ext) (simp add: r, simp add: active_under_def configured_active_def)
  show ?thesis using d by (simp add: world_ok_def act tracked_ok_def owned_def in_use_def s st)
qed

lemma reconcile_law:
  assumes ok: "world_ok w" and r: "lw_reconcile w = None"
  shows "world_ok (w\<lparr>lw_reconcile := Some (ids, 0, ids)\<rparr>)"
proof -
  have "active_under (Some (ids, 0, ids)) (lw_rt w) = active_under (lw_reconcile w) (lw_rt w)"
    by (intro ext) (simp add: active_under_def r)
  then show ?thesis using world_okD(1-3) [OF ok] by (simp add: world_ok_def)
qed

lemma lookup_law:
  assumes ok: "world_ok w" and st: "channel_state_of (lw_rt w) i = Some a"
  shows "world_ok (w\<lparr>lw_handles := add_mset (i, a) (lw_handles w)\<rparr>)"
proof -
  note d = world_okD [OF ok]
  have "owned (lw_owner w) (add_mset (i, a) (lw_handles w) + lw_claims w + lw_drops w + lw_removals w) (lw_rt w)"
    by (rule owned_add [OF d(2) tracked_okD(3) [OF d(1) st] owned_tracked [OF d(2) st]]) auto
  moreover have "in_use (active_under (lw_reconcile w) (lw_rt w)) (lw_claims w + lw_drops w + lw_removals w)
      (add_mset (i, a) (lw_handles w)) (lw_rt w)"
    by (rule in_use_mono [OF d(3)]) auto
  ultimately show ?thesis using d(1,4) by (simp add: world_ok_def)
qed

lemma report_facts:
  assumes "f \<in> {count_failure, clear_failures, clear_cooldown, open_cooldown until, \<lambda>cs. probe_failed cs c until}"
  shows "cs_in_flight (f cs) = cs_in_flight cs" and "cs_active (f cs) = cs_active cs"
  using assms by (auto simp: health_ops probe_failed_def Let_def split: if_splits)

lemma return_facts:
  "cs_in_flight (return_claim c cs) = cs_in_flight cs" "cs_active (return_claim c cs) = cs_active cs"
  "cs_cooldown_state cs = 0 \<Longrightarrow> cs_cooldown_state (return_claim c cs) = 0"
  by (auto simp: return_claim_def)

lemma set_state_count:
  "cs_in_flight cs = cs_in_flight (state_at w a) \<Longrightarrow> lease_count (w\<lparr>lw_rt := set_state a cs (lw_rt w)\<rparr>) k = lease_count w k"
  by (simp add: lease_count_def)

lemma other_step_law:
  assumes ok: "world_ok w" and o: "lease_other w w'"
  shows "world_ok w' \<and> (\<forall>k. lease_count w' k = lease_count w k)"
  using o
proof cases
  case (o_local rt')
  note h = same_health_world [OF o_local(2)]
  show ?thesis using world_okD [OF ok] by (simp add: world_ok_def lease_count_def o_local(1) h)
next
  case (o_lookup i a)
  show ?thesis using lookup_law [OF ok o_lookup(2)] by (simp add: o_lookup(1) lease_count_def)
next
  case (o_insert i rt' a)
  show ?thesis unfolding o_insert(1) by (rule insert_law [OF ok o_insert(2,3)])
next
  case (o_refused k now cs)
  show ?thesis using refused_law [OF ok o_refused(2,3)] by (simp add: o_refused(1) lease_count_def)
next
  case (o_claim k now cs c)
  show ?thesis using claim_law [OF ok o_claim(2,3)] claim_word_in_flight [OF o_claim(3)] by (simp add: o_claim(1) lease_count_def)
next
  case (o_report k f until c)
  note f = report_facts [OF o_report(3), of "state_at w (snd k)"]
  have pos: "0 < cs_in_flight (state_at w (snd k))"
    using o_report(2) by (auto simp: lease_count_def word_less_nat_alt split: if_splits)
  then have "snd k < rn_next (lw_rt w)"
    using tracked_okD(5) [OF world_okD(1) [OF ok], of "snd k"] by (metis not_less less_irrefl)
  from word_law [OF ok this f] pos f(1) show ?thesis unfolding o_report(1) using set_state_count [OF f(1)] by simp
next
  case (o_return a c)
  from word_law [OF ok o_return(2) return_facts(1,2)] return_facts(3) show ?thesis
    unfolding o_return(1) using set_state_count [OF return_facts(1)] by blast
next
  case (o_keep k)
  show ?thesis using keep_law [OF ok o_keep(2,3)] by (simp add: o_keep(1) lease_count_def)
next
  case (o_retire k)
  show ?thesis using retire_law [OF ok o_retire(2)] by (simp add: o_retire(1) lease_count_def)
next
  case (o_untrack i a)
  show ?thesis using untrack_law [OF ok o_untrack(2)] by (simp add: o_untrack(1) lease_count_def drop_untrack_reads(4))
next
  case (o_reconcile ids)
  show ?thesis using reconcile_law [OF ok o_reconcile(2)] by (simp add: o_reconcile(1) lease_count_def)
next
  case (o_mark ids s todo)
  show ?thesis using mark_law [OF ok o_mark(2,3)]
    by (simp add: o_mark(1) lease_count_def mark_shard_reads(4) [OF world_okD(1) [OF ok]])
next
  case (o_activate ids i todo rt' a)
  show ?thesis using activate_law [OF ok o_activate(2)] o_activate(3,4) unfolding o_activate(1) by simp
next
  case (o_publish ids)
  show ?thesis using publish_law [OF ok o_publish(2)] by (simp add: o_publish(1) lease_count_def)
qed

interpretation channel_leases: lease_pool world_ok lease_count lease_entered lease_released lease_other "2 ^ 64 - 1"
proof
  show "\<exists>w'. lease_released w k w'" if "world_ok w" "0 < lease_count w k" for w k
    by (cases k, cases "release (state_at w (snd k))") (metis lease_released.intros snd_conv)
qed (use entered_law released_law other_step_law in blast)+

lemma with_seams_fields:
  assumes "with_seams p e h g = Some rt"
  shows "rn_channel_states rt = (\<lambda>_. [])" and "rn_heap rt = (\<lambda>_. channel_state_new False)" and "rn_next rt = 0"
  using assms by (auto simp: with_seams_def split: if_splits)

lemma start_ok:
  assumes "with_seams p e h g = Some rt"
  shows "world_ok (world_start rt)" and "lease_count (world_start rt) k = 0"
proof -
  note rt = with_seams_fields [OF assms]
  have none: "channel_state_of rt i = None" for i by (simp add: channel_state_of_def rt hm_get_def)
  show "world_ok (world_start rt)"
    using none by (simp add: world_ok_def world_start_def tracked_ok_def owned_def in_use_def rt hm_get_def hm_wf_def channel_state_new_def)
  show "lease_count (world_start rt) k = 0" by (simp add: lease_count_def world_start_def rt channel_state_new_def)
qed

section \<open>The operations are runs of these steps\<close>

text \<open>Run without interruption, an acquisition, the drop of a lease, the reports of a lease and a reconciliation are
  sequences of the steps above.\<close>

lemma channel_handle_eq: "channel_handle i rt = channel_state_or_insert i rt"
  by (simp add: channel_handle_def channel_state_or_insert_def split: option.split)

lemma acquire_steps:
  assumes free: "lw_reconcile w = None" and acq: "try_acquire_channel (\<lambda>_ rt. rt) n now i (lw_rt w) = (rt', Some (a, c))"
  shows "\<exists>w1. lease_other\<^sup>*\<^sup>* w w1 \<and> lease_entered w1 (i, a) (w\<lparr>lw_rt := rt', lw_owner := (lw_owner w)(a := i)\<rparr>)"
proof -
  obtain rt1 b where ins: "channel_state_or_insert i (lw_rt w) = (rt1, b)" by fastforce
  obtain cs r where claim: "claim_word (rn_heap rt1 b) now = (cs, r)" by fastforce
  have r: "r = Some c" "b = a" "rt' = set_state a (enter_flight cs) (set_state a cs rt1)"
    using acq by (auto simp: try_acquire_channel_def channel_handle_eq ins claim Let_def split: option.splits)
  let ?w1 = "w\<lparr>lw_rt := rt1, lw_owner := (lw_owner w)(a := i), lw_handles := add_mset (i, a) (lw_handles w)\<rparr>"
  let ?w2 = "w\<lparr>lw_rt := set_state a cs rt1, lw_owner := (lw_owner w)(a := i), lw_claims := add_mset (i, a) (lw_claims w)\<rparr>"
  have "lease_other w ?w1" using o_insert [OF free ins] r(2) by simp
  moreover have "lease_other ?w1 ?w2" using o_claim [of "(i, a)" ?w1 now cs c] claim r by (cases w) simp
  moreover have "lease_entered ?w2 (i, a) (w\<lparr>lw_rt := rt', lw_owner := (lw_owner w)(a := i)\<rparr>)"
    using lease_entered.intros [of i a ?w2] r by (cases w) simp
  ultimately show ?thesis by (meson converse_rtranclp_into_rtranclp rtranclp.rtrancl_refl)
qed

lemma drop_steps:
  assumes live: "\<not> ln_released l" and a: "ln_state l < rn_next (lw_rt w)"
  shows "\<exists>w1. lease_released w (ln_identity l, ln_state l) w1 \<and>
    lease_other\<^sup>*\<^sup>* w1 (w\<lparr>lw_rt := fst (lease_drop l (lw_rt w))\<rparr>)"
proof -
  let ?i = "ln_identity l" and ?a = "ln_state l" and ?c = "ln_half_open_claim l"
  obtain cs remaining where rel: "release (state_at w ?a) = (cs, remaining)" by fastforce
  let ?D = "if remaining = 0 then add_mset (?i, ?a) (lw_drops w) else lw_drops w"
  let ?rt = "set_state ?a (return_claim ?c cs) (lw_rt w)"
  have heap: "set_state ?a (return_claim ?c cs) (set_state ?a cs (lw_rt w)) = ?rt" by (simp add: set_state_def)
  have drop: "fst (lease_drop l (lw_rt w)) =
      (if remaining = 0 \<and> \<not> cs_active (return_claim ?c cs) then drop_untrack ?i ?a ?rt else ?rt)"
    using live by (simp add: lease_drop_def lease_drop_state_def rel Let_def)
  have "lease_released w (?i, ?a) (w\<lparr>lw_rt := set_state ?a cs (lw_rt w), lw_drops := ?D\<rparr>)"
    by (rule lease_released.intros [OF rel])
  moreover have "lease_other (w\<lparr>lw_rt := set_state ?a cs (lw_rt w), lw_drops := D\<rparr>) (w\<lparr>lw_rt := ?rt, lw_drops := D\<rparr>)" for D
    using o_return [of ?a "w\<lparr>lw_rt := set_state ?a cs (lw_rt w), lw_drops := D\<rparr>" ?c] a heap by (cases w) simp
  moreover have "lease_other\<^sup>*\<^sup>* (w\<lparr>lw_rt := ?rt, lw_drops := ?D\<rparr>) (w\<lparr>lw_rt := fst (lease_drop l (lw_rt w))\<rparr>)"
  proof (cases "remaining = 0")
    case True
    let ?w = "w\<lparr>lw_rt := ?rt, lw_drops := add_mset (?i, ?a) (lw_drops w)\<rparr>"
    show ?thesis
    proof (cases "cs_active (return_claim ?c cs)")
      case act: True
      then have "lease_other ?w (w\<lparr>lw_rt := ?rt\<rparr>)" using o_keep [of "(?i, ?a)" ?w] by (cases w) simp
      with True act show ?thesis unfolding drop by (simp add: r_into_rtranclp)
    next
      case False
      let ?w2 = "w\<lparr>lw_rt := ?rt, lw_removals := add_mset (?i, ?a) (lw_removals w)\<rparr>"
      have "lease_other ?w ?w2" using o_retire [of "(?i, ?a)" ?w] False by (cases w) simp
      moreover have "lease_other ?w2 (w\<lparr>lw_rt := drop_untrack ?i ?a ?rt\<rparr>)" using o_untrack [of ?i ?a ?w2] by (cases w) simp
      ultimately show ?thesis unfolding drop using True False by simp
    qed
  qed (simp add: drop)
  ultimately show ?thesis by (meson converse_rtranclp_into_rtranclp)
qed

lemma report_step:
  assumes "0 < lease_count w (i, a)"
    and "f \<in> {count_failure, clear_failures, clear_cooldown, open_cooldown until, \<lambda>cs. probe_failed cs c until}"
  shows "lease_other w (w\<lparr>lw_rt := set_state a (f (state_at w a)) (lw_rt w)\<rparr>)"
    and "0 < lease_count (w\<lparr>lw_rt := set_state a (f (state_at w a)) (lw_rt w)\<rparr>) (i, a)"
  using o_report [OF assms] set_state_count [OF report_facts(1) [OF assms(2), of "state_at w a"]] assms(1) by simp_all

lemma report_steps:
  assumes held: "0 < lease_count w (i, a)" and f: "f \<in> {count_failure, clear_failures, clear_cooldown, open_cooldown until, \<lambda>cs. probe_failed cs c until}"
    and g: "g \<in> {count_failure, clear_failures, clear_cooldown, open_cooldown until, \<lambda>cs. probe_failed cs c until}"
  shows "lease_other\<^sup>*\<^sup>* w (w\<lparr>lw_rt := set_state a (g (f (state_at w a))) (lw_rt w)\<rparr>)"
proof -
  let ?w = "w\<lparr>lw_rt := set_state a (f (state_at w a)) (lw_rt w)\<rparr>"
  have "lease_other ?w (w\<lparr>lw_rt := set_state a (g (f (state_at w a))) (lw_rt w)\<rparr>)"
    using report_step(1) [OF report_step(2) [OF held f] g] by (simp add: set_state_def)
  with report_step(1) [OF held f] show ?thesis by simp
qed

lemma lease_report_steps:
  assumes held: "0 < lease_count w (i, ln_state l)"
  shows "lease_other\<^sup>*\<^sup>* w (w\<lparr>lw_rt := lease_headers_received l (lw_rt w)\<rparr>)"
    and "lease_failed now l (lw_rt w) = Some rt' \<Longrightarrow> lease_other\<^sup>*\<^sup>* w (w\<lparr>lw_rt := rt'\<rparr>)"
    and "lease_probe_abandoned now l (lw_rt w) = Some rt' \<Longrightarrow> lease_other\<^sup>*\<^sup>* w (w\<lparr>lw_rt := rt'\<rparr>)"
proof -
  show "lease_other\<^sup>*\<^sup>* w (w\<lparr>lw_rt := lease_headers_received l (lw_rt w)\<rparr>)"
    using report_steps [OF held, of clear_failures 0 0 clear_cooldown]
    by (simp add: lease_headers_received_def response_headers_received_def)
  show "lease_other\<^sup>*\<^sup>* w (w\<lparr>lw_rt := rt'\<rparr>)" if failed: "lease_failed now l (lw_rt w) = Some rt'"
  proof -
    obtain t until where rt': "rt' = set_state (ln_state l) (connection_failed (state_at w (ln_state l)) t until) (lw_rt w)"
      using failed by (auto simp: lease_failed_def lease_connection_failed_def split: if_splits option.splits)
    show ?thesis
      using r_into_rtranclp [of lease_other, OF report_step(1) [OF held, of count_failure until 0]]
        report_steps [OF held, of count_failure until 0 "open_cooldown until"]
      by (simp add: rt' connection_failed_def Let_def)
  qed
  show "lease_other\<^sup>*\<^sup>* w (w\<lparr>lw_rt := rt'\<rparr>)" if failed: "lease_probe_abandoned now l (lw_rt w) = Some rt'"
  proof -
    obtain c until where "rt' = set_state (ln_state l) (probe_failed (state_at w (ln_state l)) c until) (lw_rt w) \<or> rt' = lw_rt w"
      using failed by (auto simp: lease_probe_abandoned_def lease_probe_failed_def set_state_def split: if_splits option.splits)
    then show ?thesis
      using r_into_rtranclp [of lease_other, OF report_step(1) [OF held, of "\<lambda>cs. probe_failed cs c until" until c]] by auto
  qed
qed

text \<open>The operations that leave channel health alone are \<open>o_local\<close> steps.\<close>

lemma local_operations:
  "update_policy p rt = Some rt' \<Longrightarrow> same_health rt rt'"
  "request_succeeded now l rt = Some rt' \<Longrightarrow> same_health rt rt'"
  "same_health rt (request_failed l rt)"
  "same_health rt (fst (routing_pressure now rt))"
  by (auto simp: update_policy_def request_succeeded_def request_failed_def routing_pressure_def same_health_def
      Let_def split: if_splits option.splits prod.splits)

lemma mark_steps:
  "n \<le> 64 \<Longrightarrow> lease_other\<^sup>*\<^sup>* (w\<lparr>lw_reconcile := Some (ids, 0, todo)\<rparr>)
     (w\<lparr>lw_rt := fold (mark_shard ids) [0..<n] (lw_rt w), lw_reconcile := Some (ids, n, todo)\<rparr>)"
proof (induction n)
  case (Suc n)
  let ?w = "w\<lparr>lw_rt := fold (mark_shard ids) [0..<n] (lw_rt w), lw_reconcile := Some (ids, n, todo)\<rparr>"
  have "lease_other ?w (w\<lparr>lw_rt := fold (mark_shard ids) [0..<Suc n] (lw_rt w), lw_reconcile := Some (ids, Suc n, todo)\<rparr>)"
    using o_mark [of ?w ids n todo] Suc.prems by (cases w) simp
  with Suc show ?case by (simp del: upt_Suc)
qed simp

lemma activate_steps:
  "\<exists>owner. lease_other\<^sup>*\<^sup>* (w\<lparr>lw_reconcile := Some (ids, 64, todo)\<rparr>)
     (w\<lparr>lw_rt := fold activate_channel todo (lw_rt w), lw_owner := owner, lw_reconcile := Some (ids, 64, [])\<rparr>)"
proof (induction todo arbitrary: w)
  case Nil
  show ?case by (intro exI [of _ "lw_owner w"]) simp
next
  case (Cons i todo)
  have "\<exists>a. channel_state_of (activate_channel i (lw_rt w)) i = Some a"
    by (cases rule: activate_cases [of "lw_rt w" i]) (auto dest: allocate_reads(1))
  then obtain a where a: "channel_state_of (activate_channel i (lw_rt w)) i = Some a" ..
  let ?w = "w\<lparr>lw_reconcile := Some (ids, 64, i # todo)\<rparr>"
  let ?w' = "w\<lparr>lw_rt := activate_channel i (lw_rt w), lw_owner := (lw_owner w)(a := i)\<rparr>"
  have "lease_other ?w (?w'\<lparr>lw_reconcile := Some (ids, 64, todo)\<rparr>)"
    using o_activate [of ?w ids i todo "activate_channel i (lw_rt w)" a] a by (cases w) simp
  moreover obtain owner where "lease_other\<^sup>*\<^sup>* (?w'\<lparr>lw_reconcile := Some (ids, 64, todo)\<rparr>)
      (?w'\<lparr>lw_rt := fold activate_channel todo (lw_rt ?w'), lw_owner := owner, lw_reconcile := Some (ids, 64, [])\<rparr>)"
    using Cons.IH [of ?w'] by blast
  ultimately have "lease_other\<^sup>*\<^sup>* ?w
      (?w'\<lparr>lw_rt := fold activate_channel todo (lw_rt ?w'), lw_owner := owner, lw_reconcile := Some (ids, 64, [])\<rparr>)"
    by (rule converse_rtranclp_into_rtranclp)
  then show ?case by (intro exI [of _ owner]) (cases w, simp)
qed

lemma reconcile_steps:
  assumes free: "lw_reconcile w = None"
  shows "\<exists>owner. lease_other\<^sup>*\<^sup>* w (w\<lparr>lw_rt := reconcile_ids now settings ids (lw_rt w), lw_owner := owner\<rparr>)"
proof -
  define rt1 where "rt1 = fold (mark_shard ids) [0..<64] (lw_rt w)"
  define rt2 where "rt2 = fold activate_channel ids rt1"
  define rt3 where "rt3 = rt2\<lparr>rn_active_channels := Some ids\<rparr>"
  have rt4: "same_health rt3 (reconcile_ids now settings ids (lw_rt w))"
    unfolding reconcile_ids_def Let_def rt1_def [symmetric] rt2_def [symmetric] by (simp add: same_health_def rt3_def)
  let ?w1 = "w\<lparr>lw_rt := rt1\<rparr>"
  obtain owner where act: "lease_other\<^sup>*\<^sup>* (?w1\<lparr>lw_reconcile := Some (ids, 64, ids)\<rparr>)
      (?w1\<lparr>lw_rt := rt2, lw_owner := owner, lw_reconcile := Some (ids, 64, [])\<rparr>)"
    using activate_steps [where w = ?w1 and ids = ids and todo = ids] by (auto simp: rt2_def)
  let ?w2 = "w\<lparr>lw_rt := rt2, lw_owner := owner, lw_reconcile := Some (ids, 64, [])\<rparr>"
  let ?w3 = "w\<lparr>lw_rt := rt3, lw_owner := owner\<rparr>"
  have "lease_other\<^sup>*\<^sup>* w (w\<lparr>lw_reconcile := Some (ids, 0, ids)\<rparr>)" using o_reconcile [OF free] by blast
  also have "lease_other\<^sup>*\<^sup>* (w\<lparr>lw_reconcile := Some (ids, 0, ids)\<rparr>) (?w1\<lparr>lw_reconcile := Some (ids, 64, ids)\<rparr>)"
    unfolding rt1_def by (rule mark_steps) simp
  also have "lease_other\<^sup>*\<^sup>* (?w1\<lparr>lw_reconcile := Some (ids, 64, ids)\<rparr>) ?w2" using act by simp
  also have "lease_other ?w2 ?w3" using o_publish [of ?w2 ids] free by (cases w) (simp add: rt3_def)
  also have "lease_other ?w3 (w\<lparr>lw_rt := reconcile_ids now settings ids (lw_rt w), lw_owner := owner\<rparr>)"
    using o_local [of ?w3] rt4 by (cases w) simp
  finally show ?thesis by blast
qed

section \<open>Accounting\<close>

lemma allocate_keeps:
  "channel_state_of rt i = Some a \<Longrightarrow> channel_state_of rt j = None \<Longrightarrow> allocate_state j active rt = (rt', b) \<Longrightarrow>
   channel_state_of rt' i = Some a"
  using allocate_reads(1) [of j active rt rt' b] by auto

lemma insert_keeps:
  "channel_state_of rt i = Some a \<Longrightarrow> channel_state_or_insert j rt = (rt', b) \<Longrightarrow> channel_state_of rt' i = Some a"
  by (cases "channel_state_of rt j") (auto simp: channel_state_or_insert_def intro: allocate_keeps)

lemma other_keeps_tracked:
  assumes ok: "world_ok w" and o: "lease_other w w'" and st: "channel_state_of (lw_rt w) i = Some a"
    and busy: "0 < cs_in_flight (state_at w a)"
  shows "channel_state_of (lw_rt w') i = Some a"
  using o
proof cases
  case (o_local rt')
  then show ?thesis using st same_health_reads(1) by simp
next
  case (o_insert j rt' b)
  then show ?thesis using insert_keeps [OF st] by simp
next
  case (o_untrack j b)
  then show ?thesis using st busy by (auto simp: drop_untrack_reads(1))
next
  case (o_mark ids s todo)
  then show ?thesis using st busy by (simp add: mark_shard_reads(6) [OF world_okD(1) [OF ok]])
next
  case (o_activate ids j todo rt' b)
  then show ?thesis using st by (cases rule: activate_cases [of "lw_rt w" j]) (auto intro: allocate_keeps)
next
  case (o_publish ids)
  then show ?thesis using st by (simp add: channel_state_of_def channel_state_shard_def)
qed (use st in simp_all)

text \<open>C11. In-flight accounting: however acquisitions, drops of leases, reports and reconfigurations interleave, access by
  access, from a fresh runtime, the in-flight counter of a channel's state is the number of leases that are out on it,
  whether the state is tracked or not; a tracked state with an outstanding lease stays tracked over every step, also
  when a reconfiguration removes its channel; and outside a reconfiguration a channel that is no longer configured is
  tracked only while a lease is out on its state, a request that looked it up is about to be let in or refused, or a
  drop is about to look at it. An acquisition looks its state up before it counts itself in, so a reconfiguration
  between the two may leave the lease on a state that is not tracked any more.\<close>

theorem channel_lease_accounting:
  assumes "with_seams p e h g = Some rt0"
    and "lease_run lease_entered lease_released lease_other (2 ^ 64 - 1) (world_start rt0) w L"
  shows "(\<forall>i a. channel_state_of (lw_rt w) i = Some a \<or> (i, a) \<in># L \<longrightarrow>
      unat (cs_in_flight (state_at w a)) = count L (i, a)) \<and>
    (\<forall>i a w'. channel_state_of (lw_rt w) i = Some a \<and> (i, a) \<in># L \<and>
      (lease_other w w' \<or> (\<exists>k. lease_entered w k w' \<or> lease_released w k w')) \<longrightarrow>
      channel_state_of (lw_rt w') i = Some a) \<and>
    (\<forall>i a. channel_state_of (lw_rt w) i = Some a \<and> lw_reconcile w = None \<longrightarrow>
      configured_active (lw_rt w) i \<or> (i, a) \<in># L + lw_handles w + lw_claims w + lw_drops w + lw_removals w)"
proof -
  have ok: "world_ok w" and held: "\<And>k. lease_count w k = count L k"
    using channel_leases.run_accounting [OF assms(2)] start_ok [OF assms(1)] by auto
  note d = world_okD [OF ok]
  have flight: "unat (cs_in_flight (state_at w a)) = count L (i, a)" if "channel_state_of (lw_rt w) i = Some a \<or> (i, a) \<in># L" for i a
  proof -
    have "lw_owner w a = i"
      using that owned_tracked [OF d(2)] held [of "(i, a)"] by (auto simp: lease_count_def count_eq_zero_iff split: if_splits)
    then show ?thesis using held [of "(i, a)"] by (simp add: lease_count_def)
  qed
  have pos: "0 < cs_in_flight (state_at w a) \<longleftrightarrow> (i, a) \<in># L" if "channel_state_of (lw_rt w) i = Some a" for i a
    using flight [of i a] that by (simp add: word_less_nat_alt)
  have "channel_state_of (lw_rt w') i = Some a" if st: "channel_state_of (lw_rt w) i = Some a" and L: "(i, a) \<in># L"
    and s: "lease_other w w' \<or> (\<exists>k. lease_entered w k w' \<or> lease_released w k w')" for i a w'
    using s other_keeps_tracked [OF ok _ st] pos [OF st] L st
    by (auto elim!: lease_entered.cases lease_released.cases)
  moreover have "configured_active (lw_rt w) i \<or> (i, a) \<in># L + lw_handles w + lw_claims w + lw_drops w + lw_removals w"
    if st: "channel_state_of (lw_rt w) i = Some a" and free: "lw_reconcile w = None" for i a
    using in_useD(2) [OF d(3) st] pos [OF st] free by (auto simp: active_under_def)
  ultimately show ?thesis using flight by blast
qed

text \<open>The state is dropped under the acquisition: a request looks the state of a channel up, a reconfiguration without
  the channel finds nobody in flight and drops the state, and the request then counts itself in. Its lease is out on a state
  that no shard holds, so \<^verbatim>\<open>routing_pressure\<close> does not see the request.\<close>

lemma fold_mark_untracks:
  assumes "tracked_ok rt" and "channel_state_of (fold (mark_shard ids) ss rt) j = Some b"
  shows "channel_state_of rt j = Some b \<and>
    (channel_state_shard rt j \<in> set ss \<longrightarrow> j \<in> set ids \<or> 0 < cs_in_flight (rn_heap rt b))"
  using assms
proof (induction ss arbitrary: rt)
  case (Cons s ss)
  note r = mark_shard_reads [OF Cons.prems(1), where ids = ids and s = s]
  have "channel_state_of (mark_shard ids s rt) j = Some b \<and>
      (channel_state_shard rt j \<in> set ss \<longrightarrow> j \<in> set ids \<or> 0 < cs_in_flight (rn_heap rt b))"
    using Cons.IH [OF mark_shard_tracked [OF Cons.prems(1), of ids s]] Cons.prems(2) by (simp add: r(1,4))
  then show ?case unfolding r(6) by auto
qed simp

lemma reconcile_untracks:
  assumes "tracked_ok rt" and "\<And>a. channel_state_of rt i = Some a \<Longrightarrow> cs_in_flight (rn_heap rt a) = 0"
  shows "channel_state_of (reconcile_ids now settings [] rt) i = None"
proof -
  have "channel_state_of (fold (mark_shard []) [0..<64] rt) i = None"
    using fold_mark_untracks [OF assms(1), of "[]" "[0..<64]" i] assms(2) shard_bound [of rt i]
    by (cases "channel_state_of (fold (mark_shard []) [0..<64] rt) i") auto
  then show ?thesis
    by (simp add: reconcile_ids_def Let_def channel_state_of_def channel_state_shard_def del: upt_rec_numeral)
qed

lemma run_others: "lease_other\<^sup>*\<^sup>* w w' \<Longrightarrow> lease_run lease_entered lease_released lease_other B w0 w L \<Longrightarrow>
    lease_run lease_entered lease_released lease_other B w0 w' L"
  by (induction rule: rtranclp_induct) (auto intro: run_other)

theorem lease_on_untracked_state:
  assumes start: "with_seams p e h g = Some rt0"
  shows "\<exists>w a. lease_run lease_entered lease_released lease_other (2 ^ 64 - 1) (world_start rt0) w {#(i, a)#} \<and>
    channel_state_of (lw_rt w) i = None \<and> cs_in_flight (state_at w a) = 1"
proof -
  fix now st
  let ?w0 = "world_start rt0"
  have free: "lw_reconcile ?w0 = None" "lw_rt ?w0 = rt0" by (simp_all add: world_start_def)
  have ok: "tracked_ok rt0" using world_okD(1) [OF start_ok(1) [OF start]] free(2) by simp
  have none: "channel_state_of rt0 i = None" using start by (auto simp: with_seams_def channel_state_of_def split: if_splits)
  obtain rt1 a where al: "allocate_state i (configured_active rt0 i) rt0 = (rt1, a)" by fastforce
  note r = allocate_reads [OF al]
  have ins: "channel_state_or_insert i (lw_rt ?w0) = (rt1, a)" using none al free(2) by (simp add: channel_state_or_insert_def)
  let ?w1 = "?w0\<lparr>lw_rt := rt1, lw_owner := (lw_owner ?w0)(a := i), lw_handles := {#(i, a)#}\<rparr>"
  have s1: "lease_other ?w0 ?w1" using o_insert [OF free(1) ins] by (simp add: world_start_def)
  have "claim_word (rn_heap rt1 a) 0 = (rn_heap rt1 a, Some 0)" by (simp add: r(4) claim_word_def channel_state_new_def)
  then have s2: "lease_other ?w1 (?w1\<lparr>lw_handles := {#}, lw_claims := {#(i, a)#}\<rparr>)" (is "lease_other _ ?w2")
    using o_claim [of "(i, a)" ?w1 0] by (simp add: world_start_def set_state_def)
  obtain owner where s3: "lease_other\<^sup>*\<^sup>* ?w2 (?w2\<lparr>lw_rt := reconcile_ids now st [] rt1, lw_owner := owner\<rparr>)"
    using reconcile_steps [of ?w2 now st "[]"] free(1) by auto
  let ?w3 = "?w2\<lparr>lw_rt := reconcile_ids now st [] rt1, lw_owner := owner\<rparr>"
  let ?w4 = "?w3\<lparr>lw_rt := set_state a (enter_flight (state_at ?w3 a)) (lw_rt ?w3), lw_claims := {#}\<rparr>"
  have s4: "lease_entered ?w3 (i, a) ?w4" using lease_entered.intros [of i a ?w3] by simp
  have "lease_run lease_entered lease_released lease_other (2 ^ 64 - 1) ?w0 ?w3 {#}"
    by (rule run_others [OF converse_rtranclp_into_rtranclp [OF s1 converse_rtranclp_into_rtranclp [OF s2 s3]] run_init])
  from run_acquire [where acquired = lease_entered, OF this s4]
  have run: "lease_run lease_entered lease_released lease_other (2 ^ 64 - 1) ?w0 ?w4 {#(i, a)#}" by simp
  have "lease_count ?w4 (i, a) = 1"
    using channel_leases.run_accounting [OF run start_ok(1) [OF start]] start_ok(2) [OF start] by simp
  then have "cs_in_flight (state_at ?w4 a) = 1"
    unfolding lease_count_def by (auto simp: word_unat_eq_iff split: if_splits)
  moreover have "channel_state_of (lw_rt ?w4) i = None"
    using reconcile_untracks [OF allocate_tracked [OF ok al], of i now st] by (simp add: r(1,4) channel_state_new_def)
  ultimately show ?thesis using run by blast
qed

section \<open>The lease of a selection\<close>

text \<open>A selection access by access: \<open>change\<close> adds up what the others did to each in-flight counter between
  its accesses, and \<open>entered\<close> are the states the selection counted itself into. Its own other accesses
  leave every counter as it is.\<close>

inductive selection_run ::
  "(nat \<Rightarrow> routing_runtime \<Rightarrow> routing_runtime) \<Rightarrow> routing_runtime \<Rightarrow> (nat \<Rightarrow> u64) \<Rightarrow> nat list \<Rightarrow> routing_runtime \<Rightarrow> bool"
  for other rt0 where
  sel_start: "selection_run other rt0 (\<lambda>_. 0) [] rt0"
| sel_other: "selection_run other rt0 change entered rt \<Longrightarrow>
    selection_run other rt0 (\<lambda>a. change a + (cs_in_flight (rn_heap (other n rt) a) - cs_in_flight (rn_heap rt a))) entered (other n rt)"
| sel_own: "selection_run other rt0 change entered rt \<Longrightarrow>
    \<forall>a. cs_in_flight (rn_heap rt' a) = cs_in_flight (rn_heap rt a) \<Longrightarrow> selection_run other rt0 change entered rt'"
| sel_enter: "selection_run other rt0 change entered rt \<Longrightarrow>
    selection_run other rt0 change (a # entered) (set_state a (enter_flight (rn_heap rt a)) rt)"

lemma selection_run_count:
  "selection_run other rt0 change entered rt \<Longrightarrow>
   cs_in_flight (rn_heap rt a) = cs_in_flight (rn_heap rt0 a) + change a + of_nat (count_list entered a)"
  by (induction rule: selection_run.induct) (auto simp: enter_flight_def algebra_simps)

lemma selection_run_undisturbed: "selection_run (\<lambda>_ rt. rt) rt0 change entered rt \<Longrightarrow> change = (\<lambda>_. 0)"
  by (induction rule: selection_run.induct) auto

text \<open>The others keep the shards consistent and never take an allocated state back.\<close>

definition keeps_tracked :: "(nat \<Rightarrow> routing_runtime \<Rightarrow> routing_runtime) \<Rightarrow> bool" where
  "keeps_tracked other \<longleftrightarrow> (\<forall>n rt. tracked_ok rt \<longrightarrow> tracked_ok (other n rt) \<and> rn_next rt \<le> rn_next (other n rt))"

lemma allocate_next: "allocate_state i active rt = (rt', a) \<Longrightarrow> rn_next rt \<le> rn_next rt'"
  using allocate_reads(2,3) [of i active rt rt' a] by simp

lemma lease_step_next:
  assumes "world_ok w" and "lease_other w w' \<or> (\<exists>k. lease_entered w k w' \<or> lease_released w k w')"
  shows "rn_next (lw_rt w) \<le> rn_next (lw_rt w')"
  using assms(2)
proof (elim disjE exE)
  assume "lease_other w w'"
  then show ?thesis
  proof cases
    case (o_local rt')
    then show ?thesis by (simp add: same_health_def)
  next
    case (o_insert i rt' a)
    then show ?thesis by (cases "channel_state_of (lw_rt w) i") (auto simp: channel_state_or_insert_def intro: allocate_next)
  next
    case (o_activate ids i todo rt' a)
    then show ?thesis by (cases rule: activate_cases [of "lw_rt w" i]) (auto intro: allocate_next)
  qed (simp_all add: drop_untrack_reads(5) mark_shard_reads(3) [OF world_okD(1) [OF assms(1)]])
qed (auto elim!: lease_entered.cases lease_released.cases)

lemma handle_facts:
  assumes ok: "tracked_ok rt" and h: "channel_handle i rt = (rt', a)"
  shows "tracked_ok rt'" and "a < rn_next rt'" and "\<forall>b. cs_in_flight (rn_heap rt' b) = cs_in_flight (rn_heap rt b)"
proof -
  have "tracked_ok rt' \<and> a < rn_next rt' \<and> (\<forall>b. cs_in_flight (rn_heap rt' b) = cs_in_flight (rn_heap rt b))"
  proof (cases "channel_state_of rt i")
    case None
    then have al: "allocate_state i (configured_active rt i) rt = (rt', a)"
      using h by (simp add: channel_handle_def channel_state_or_insert_def)
    note r = allocate_reads [OF al]
    show ?thesis using allocate_tracked [OF ok al] tracked_okD(5) [OF ok, of a] by (simp add: r channel_state_new_def)
  next
    case (Some b)
    then show ?thesis using h ok tracked_okD(3) [OF ok Some] by (simp add: channel_handle_def)
  qed
  then show "tracked_ok rt'" "a < rn_next rt'" "\<forall>b. cs_in_flight (rn_heap rt' b) = cs_in_flight (rn_heap rt b)" by blast+
qed

lemma claim_word_flight: "cs_in_flight (fst (claim_word cs now)) = cs_in_flight cs"
  by (simp add: claim_word_def Let_def)

definition selecting :: "(nat \<Rightarrow> routing_runtime \<Rightarrow> routing_runtime) \<Rightarrow> routing_runtime \<Rightarrow> nat list \<Rightarrow> routing_runtime \<Rightarrow> bool" where
  "selecting other rt0 entered rt \<longleftrightarrow> tracked_ok rt \<and> (\<exists>change. selection_run other rt0 change entered rt)"

lemma selecting_local: "selecting other rt0 entered rt \<Longrightarrow> same_health rt rt' \<Longrightarrow> selecting other rt0 entered rt'"
  unfolding selecting_def by (metis same_health_world(1,5) sel_own)

lemma selecting_own:
  "selecting other rt0 entered rt \<Longrightarrow> tracked_ok rt' \<Longrightarrow>
   \<forall>a. cs_in_flight (rn_heap rt' a) = cs_in_flight (rn_heap rt a) \<Longrightarrow> selecting other rt0 entered rt'"
  unfolding selecting_def using sel_own by blast

lemma selecting_other:
  assumes "keeps_tracked other" and "selecting other rt0 entered rt"
  shows "selecting other rt0 entered (other n rt)" and "rn_next rt \<le> rn_next (other n rt)"
  using assms sel_other unfolding selecting_def keeps_tracked_def by blast+

lemma selecting_enter:
  "selecting other rt0 entered rt \<Longrightarrow> a < rn_next rt \<Longrightarrow>
   selecting other rt0 (a # entered) (set_state a (enter_flight (rn_heap rt a)) rt)"
  unfolding selecting_def using sel_enter set_state_tracked by blast

lemma try_acquire_channel_run:
  assumes env: "keeps_tracked other" and s: "selecting other rt0 [] rt"
    and acq: "try_acquire_channel other n now i rt = (rt', r)"
  shows "selecting other rt0 (case r of None \<Rightarrow> [] | Some (a, claim) \<Rightarrow> [a]) rt'"
proof -
  note o = selecting_other [OF env]
  obtain rt1 a where h: "channel_handle i (other n rt) = (rt1, a)" by fastforce
  have s0: "selecting other rt0 [] (other n rt)" by (rule o(1) [OF s])
  then have ok: "tracked_ok (other n rt)" by (simp add: selecting_def)
  note f = handle_facts [OF ok h]
  have s1: "selecting other rt0 [] rt1" by (rule selecting_own [OF s0 f(1,3)])
  let ?rt2 = "other (n + 1) rt1"
  obtain cs claim where c: "claim_word (rn_heap ?rt2 a) now = (cs, claim)" by fastforce
  have s2: "selecting other rt0 [] ?rt2" "a < rn_next ?rt2" using o [OF s1, of "n + 1"] f(2) by auto
  let ?rt3 = "set_state a cs ?rt2"
  have s3: "selecting other rt0 [] ?rt3"
    by (rule selecting_own [OF s2(1)])
      (use s2 claim_word_flight [of "rn_heap ?rt2 a" now] c set_state_tracked in \<open>auto simp: selecting_def\<close>)
  have a3: "a < rn_next (other (n + 2) ?rt3)" using o(2) [OF s3, of "n + 2"] s2(2) by simp
  show ?thesis
  proof (cases claim)
    case None
    then show ?thesis using acq s3 c by (auto simp: try_acquire_channel_def h Let_def)
  next
    case (Some w)
    then have "r = Some (a, w)" "rt' = set_state a (enter_flight (rn_heap (other (n + 2) ?rt3) a)) (other (n + 2) ?rt3)"
      using acq c by (auto simp: try_acquire_channel_def h Let_def)
    then show ?thesis using selecting_enter [OF o(1) [OF s3] a3] by simp
  qed
qed

lemma select_in_tier_run:
  assumes "select_in_tier other cap key ex now rule aff tier allow n rt = Some q" and env: "keeps_tracked other"
  shows "selecting other rt0 [] rt \<longrightarrow>
    selecting other rt0 (case snd (snd q) of None \<Rightarrow> [] | Some (c, hit, a, claim) \<Rightarrow> [a]) (fst (snd q))"
  using assms(1)
proof (induction rule: select_in_tier_induct)
  case (none allow n rt rt1 hit)
  then show ?case using selecting_local [OF _ tier_choice_sound(1) [OF none]] by simp
next
  case (acquired allow n rt rt1 c hit rt2 a claim)
  then show ?case
    using try_acquire_channel_run [OF env selecting_local [OF _ tier_choice_sound(1) [OF acquired(1)]] acquired(2)] by simp
next
  case (retry allow n rt rt1 c hit rt2 q)
  then show ?case
    using try_acquire_channel_run [OF env selecting_local [OF _ tier_choice_sound(1) [OF retry(1)]] retry(2)] by simp
qed

lemma select_tiers_run:
  assumes env: "keeps_tracked other"
  shows "selecting other rt0 [] rt \<Longrightarrow> select_tiers other cap key ex now rule aff tiers n rt = Some (rt', r) \<Longrightarrow>
    selecting other rt0 (case r of None \<Rightarrow> [] | Some (c, hit, a, claim) \<Rightarrow> [a]) rt'"
proof (induction tiers arbitrary: n rt)
  case (Cons tier tiers)
  then obtain n1 rt1 r1 where s: "select_in_tier other cap key ex now rule aff tier True n rt = Some (n1, rt1, r1)"
    by (auto simp: bind_eq_Some_conv)
  note run = select_in_tier_run [OF s env, of rt0] Cons.prems(1)
  show ?case
  proof (cases r1)
    case None
    with s Cons.prems(2) have "select_tiers other cap key ex now rule aff tiers n1 rt1 = Some (rt', r)" by simp
    with Cons.IH [of rt1 n1] run None show ?thesis by simp
  next
    case (Some x)
    with s Cons.prems(2) have "r = r1" "rt1 = rt'" by auto
    with run show ?thesis by simp
  qed
qed simp

lemma select_run:
  assumes env: "keeps_tracked other" and ok: "tracked_ok rt"
    and sel: "select_with_affinity_excluding_capability other t0 now cfg key op model m ex cap rt = Some (rt', result)"
  shows "selecting other rt (case result of Selected r \<Rightarrow> [ln_state (sr_lease r)] | _ \<Rightarrow> []) rt'"
proof -
  have s: "selecting other rt [] rt" using ok sel_start by (auto simp: selecting_def)
  show ?thesis
  proof (cases "operation_rule cfg op model")
    case None
    then show ?thesis using sel s by (auto simp: select_with_affinity_excluding_capability_def)
  next
    case (Some rule)
    show ?thesis
    proof (cases "permits_route key (mr_route_slot rule)")
      case False
      then show ?thesis using sel s Some by (auto simp: select_with_affinity_excluding_capability_def)
    next
      case True
      obtain rt1 aff where prep: "prepare_affinity t0 key rule m rt = (rt1, aff)" by fastforce
      note eq = select_eq [OF Some True prep refl, where other = other and cap = cap and ex = ex and now = now]
      obtain rt2 r where tiers: "select_tiers other cap key ex now rule aff (mr_tiers rule) 0 rt1 = Some (rt2, r)"
        using sel unfolding eq by (auto split: option.splits)
      have "selecting other rt [] rt1"
        using selecting_local [OF s] prepare_affinity_health [of rt t0 key rule m] prep by simp
      note run = select_tiers_run [OF env this tiers]
      show ?thesis
      proof (cases r)
        case None
        then show ?thesis using sel tiers run selecting_local [OF _ affinity_forget_health] unfolding eq by (auto split: if_splits)
      next
        case (Some x)
        obtain c hit a claim where "x = (c, hit, a, claim)" by (metis prod_cases4)
        then show ?thesis using Some sel tiers run selecting_local [OF _ affinity_forget_health]
          unfolding eq by (auto simp: make_route_def split: if_splits)
      qed
    qed
  qed
qed

text \<open>C12. A selection takes exactly the lease it returns: whatever the others do to the runtime between its accesses, as
  long as they keep the shards consistent and never take an allocated state back, a selection that returns a route has
  counted itself in exactly once, on the state of the returned lease, and one that returns no route not at all,
  however often it was refused and retried on the way. Each in-flight counter ends at its old value, plus what the
  others added to it, plus one for the returned lease; the lease is for the selected channel and not released.\<close>

theorem selection_acquires_one_lease:
  assumes "tracked_ok rt" and "keeps_tracked other"
    and "select_with_affinity_excluding_capability other t0 now cfg key op model m ex cap rt = Some (rt', result)"
  shows "\<exists>change. selection_run other rt change (case result of Selected r \<Rightarrow> [ln_state (sr_lease r)] | _ \<Rightarrow> []) rt' \<and>
    (\<forall>a. cs_in_flight (rn_heap rt' a) = cs_in_flight (rn_heap rt a) + change a +
       (case result of Selected r \<Rightarrow> if ln_state (sr_lease r) = a then 1 else 0 | _ \<Rightarrow> 0)) \<and>
    (\<forall>r. result = Selected r \<longrightarrow>
       ln_identity (sr_lease r) = from_channel (sr_channel r) \<and> \<not> ln_released (sr_lease r))"
proof -
  let ?entered = "case result of Selected r \<Rightarrow> [ln_state (sr_lease r)] | _ \<Rightarrow> []"
  from select_run [OF assms(2,1,3)] obtain change where run: "selection_run other rt change ?entered rt'"
    by (auto simp: selecting_def)
  have "of_nat (count_list ?entered a) = (case result of Selected r \<Rightarrow> if ln_state (sr_lease r) = a then 1 else (0 :: u64) | _ \<Rightarrow> 0)" for a
    by (simp split: selection_result.split)
  moreover have "ln_identity (sr_lease r) = from_channel (sr_channel r) \<and> \<not> ln_released (sr_lease r)" if "result = Selected r" for r
    using assms(3) unfolding that by (rule select_SelectedE) (simp add: make_route_def)
  ultimately show ?thesis using run selection_run_count [OF run] by auto
qed

section \<open>Witnesses\<close>

theorem channel_lease_accounting_witness:
  "\<exists>w a. lease_run lease_entered lease_released lease_other (2 ^ 64 - 1) (world_start sample_runtime) w
      {#(from_channel (cc_channel candidate_b), a)#} \<and> unat (cs_in_flight (state_at w a)) = 1"
proof -
  let ?i = "from_channel (cc_channel candidate_b)" and ?w0 = "world_start sample_runtime"
  have w0: "lw_rt ?w0 = sample_runtime" "lw_reconcile ?w0 = None" by (simp_all add: world_start_def)
  obtain rt a claim where acq: "try_acquire_channel (\<lambda>_ rt. rt) 0 5 ?i (lw_rt ?w0) = (rt, Some (a, claim))"
    using try_acquire_channel_usable [of 0 5 ?i sample_runtime] sample_setup(6)
    unfolding w0 by (cases "try_acquire_channel (\<lambda>_ rt. rt) 0 5 ?i sample_runtime") (auto simp: eligible_def)
  from acquire_steps [OF w0(2) acq] obtain w1 w where
    "lease_other\<^sup>*\<^sup>* ?w0 w1" and e: "lease_entered w1 (?i, a) w" by blast
  then have "lease_run lease_entered lease_released lease_other (2 ^ 64 - 1) ?w0 w1 {#}" by (blast intro: run_others run_init)
  from run_acquire [where acquired = lease_entered, OF this e]
  have run: "lease_run lease_entered lease_released lease_other (2 ^ 64 - 1) ?w0 w {#(?i, a)#}" by simp
  from channel_lease_accounting [OF sample_runtime_new run] have "unat (cs_in_flight (state_at w a)) = 1" by simp
  with run show ?thesis by blast
qed

text \<open>Another request that looked the state up as well counts itself in just before the selection does.\<close>

definition crowd :: "nat \<Rightarrow> routing_runtime \<Rightarrow> routing_runtime" where
  "crowd n rt = (if n = 2 \<and> 0 < rn_next rt then set_state 0 (enter_flight (rn_heap rt 0)) rt else rt)"

lemma crowd_keeps_tracked: "keeps_tracked crowd"
  by (simp add: keeps_tracked_def crowd_def set_state_tracked)

lemma sample_tracked: "tracked_ok sample_runtime"
  using world_okD(1) [OF start_ok(1) [OF sample_runtime_new]] by (simp add: world_start_def)

lemma crowd_acquire:
  assumes h: "same_health sample_runtime rt"
  shows "\<exists>rt'. try_acquire_channel crowd 0 5 i rt = (rt', Some (0, 0)) \<and> cs_in_flight (rn_heap rt' 0) = 2"
proof -
  have "channel_state_of rt i = None" "rn_next rt = 0"
    using h with_seams_fields [OF sample_runtime_new] by (simp_all add: channel_state_of_def same_health_def)
  then show ?thesis
    by (simp add: try_acquire_channel_def channel_handle_def channel_state_or_insert_def allocate_state_def Let_def crowd_def
        claim_word_def channel_state_new_def enter_flight_def set_state_def)
qed

theorem selection_acquires_one_lease_witness:
  "\<exists>rt' r change. select_with_affinity_excluding_capability crowd 5 5 robin_config sample_key Responses ''gpt'' None []
      AnyCapability sample_runtime = Some (rt', Selected r) \<and>
    selection_run crowd sample_runtime change [ln_state (sr_lease r)] rt' \<and>
    cs_in_flight (rn_heap rt' (ln_state (sr_lease r))) = 2 \<and> change (ln_state (sr_lease r)) = 1"
proof -
  let ?rule = "sample_rule [robin_tier]"
  have prep: "prepare_affinity 5 sample_key ?rule None sample_runtime = (sample_runtime, None)" by (simp add: prepare_affinity_def)
  have served: "tier_served robin_tier" using sample_setup(3,4) by simp
  have "candidate_a \<in> set (rt_candidates robin_tier)" by (simp add: robin_tier_def)
  with tier_choice_decides [OF served, of AnyCapability sample_key "[]" 5 ?rule None True sample_runtime] sample_setup(5)
  obtain rt1 c hit where t: "tier_choice AnyCapability sample_key [] 5 ?rule None robin_tier True sample_runtime = Some (rt1, Some c, hit)"
    by (metis option.exhaust)
  obtain rt2 where acq: "try_acquire_channel crowd 0 5 (from_channel (cc_channel c)) rt1 = (rt2, Some (0, 0))"
    and two: "cs_in_flight (rn_heap rt2 0) = 2"
    using crowd_acquire [OF tier_choice_sound(1) [OF t]] by blast
  have "select_in_tier crowd AnyCapability sample_key [] 5 ?rule None robin_tier True 0 sample_runtime = Some (3, rt2, Some (c, hit, 0, 0))"
    by (subst select_in_tier.simps) (simp add: t acq)
  then have sel: "select_with_affinity_excluding_capability crowd 5 5 robin_config sample_key Responses ''gpt'' None []
      AnyCapability sample_runtime = Some (affinity_forget None None rt2, Selected (make_route ?rule None True c hit 0 0))"
    unfolding select_eq [OF sample_setup(1,2) prep refl] sample_setup(4)
    by (simp add: preserve_inapplicable_affinity_def preferred_of_def affinity_forget_def)
  have "cs_in_flight (rn_heap sample_runtime 0) = 0"
    by (simp add: with_seams_fields [OF sample_runtime_new] channel_state_new_def)
  with selection_acquires_one_lease [OF sample_tracked crowd_keeps_tracked sel] sel two show ?thesis
    by (auto simp: make_route_def affinity_forget_def)
qed

end
