(* ===== verification/Request_Journal.thy ===== *)
theory Request_Journal
  imports Domain
begin

text \<open>
  The request-log journal: the versioned record of \<^verbatim>\<open>src/request_log_journal.rs\<close> and the frames
  of \<^verbatim>\<open>src/request_log_spool.rs\<close> that hold such records in a file, with the scan that repairs a
  file after a crash and the reader of the ingestion worker.

  The JSON encoding of events is \<^verbatim>\<open>serde_json\<close> and derived code; it is the parameter
  \<open>journal_ops\<close>, and \<open>serde_round_trip\<close> is what the journal relies on: an
  event decodes from its own encoding, which has the field that version 8 requires. The checksum is the
  parameter \<open>crc\<close>; nothing is assumed of it. A file is its list of bytes, offsets are
  natural numbers, and the checked additions of the code fail at \<open>2 ^ 64\<close>.
\<close>

section \<open>Records\<close>

type_synonym i16 = "16 word"

record encoded_request_log =
  er_request_log_id :: uuid
  er_schema_version :: i16
  er_payload :: "u8 list"

datatype journal_error =
  SerializeError | DeserializeError | UnsupportedVersion i16 | IdentifierMismatch | JournalPanic

record ('v, 'e) journal_ops =
  jo_to_vec :: "'e \<Rightarrow> u8 list option"
  jo_event_from_slice :: "u8 list \<Rightarrow> 'e option"
  jo_value_from_slice :: "u8 list \<Rightarrow> 'v option"
  jo_event_from_value :: "'v \<Rightarrow> 'e option"
  jo_format_from_value :: "'v \<Rightarrow> api_format option"
  jo_streamed_from_slice :: "u8 list \<Rightarrow> bool option"
  jo_get :: "'v \<Rightarrow> string \<Rightarrow> 'v option"
  jo_as_str :: "'v \<Rightarrow> string option"
  jo_is_object :: "'v \<Rightarrow> bool"
  jo_insert :: "string \<Rightarrow> string \<Rightarrow> 'v \<Rightarrow> 'v"
  jo_event_id :: "'e \<Rightarrow> uuid"
  jo_without_credential :: "'e \<Rightarrow> 'e"

definition REQUEST_LOG_SCHEMA_VERSION :: i16 where
  "REQUEST_LOG_SCHEMA_VERSION = 8"

definition journal_encode :: "('v, 'e) journal_ops \<Rightarrow> 'e \<Rightarrow> journal_error + encoded_request_log" where
  "journal_encode J e =
     (case jo_to_vec J e of
        None \<Rightarrow> Inl SerializeError
      | Some p \<Rightarrow> Inr \<lparr>er_request_log_id = jo_event_id J e, er_schema_version = REQUEST_LOG_SCHEMA_VERSION,
                        er_payload = p\<rparr>)"

definition or_deserialize :: "'a option \<Rightarrow> journal_error + 'a" where
  "or_deserialize x = (case x of None \<Rightarrow> Inl DeserializeError | Some y \<Rightarrow> Inr y)"

definition sum_bind :: "'x + 'a \<Rightarrow> ('a \<Rightarrow> 'x + 'b) \<Rightarrow> 'x + 'b" where
  "sum_bind m f = (case m of Inl x \<Rightarrow> Inl x | Inr a \<Rightarrow> f a)"

definition get_str :: "('v, 'e) journal_ops \<Rightarrow> 'v \<Rightarrow> string \<Rightarrow> string option" where
  "get_str J v k = Option.bind (jo_get J v k) (jo_as_str J)"

definition insert_legacy_operation :: "('v, 'e) journal_ops \<Rightarrow> 'v \<Rightarrow> journal_error + 'v" where
  "insert_legacy_operation J v =
     sum_bind (or_deserialize (jo_get J v ''api_format'')) (\<lambda>f.
     sum_bind (or_deserialize (jo_format_from_value J f)) (\<lambda>fmt.
     Inr (jo_insert J ''api_operation''
            (operation_as_str
               (if fmt = OpenAiResponses \<and> get_str J v ''request_protocol'' = Some ''websocket''
                then ResponsesWebSocket else legacy_default fmt)) v)))"

definition decode_legacy_operation :: "('v, 'e) journal_ops \<Rightarrow> u8 list \<Rightarrow> journal_error + 'e" where
  "decode_legacy_operation J p =
     sum_bind (or_deserialize (jo_value_from_slice J p)) (\<lambda>v.
       or_deserialize (jo_event_from_value J
         (case (get_str J v ''api_operation'', get_str J v ''request_protocol'') of
            (Some name, Some protocol) \<Rightarrow> jo_insert J ''api_operation'' (normalize_stored_name name protocol) v
          | _ \<Rightarrow> v)))"

text \<open>The two oldest decoders unwrap the payload as an object and panic if it is another JSON value.\<close>

definition decode_v2 :: "('v, 'e) journal_ops \<Rightarrow> u8 list \<Rightarrow> journal_error + 'e" where
  "decode_v2 J p =
     sum_bind (or_deserialize (jo_streamed_from_slice J p)) (\<lambda>streamed.
     sum_bind (or_deserialize (jo_value_from_slice J p)) (\<lambda>v.
       if \<not> jo_is_object J v then Inl JournalPanic
       else
         sum_bind (insert_legacy_operation J
             (jo_insert J ''request_protocol'' (protocol_as_str (from_http_streamed streamed)) v))
           (\<lambda>v'. or_deserialize (jo_event_from_value J v'))))"

definition decode_v3 :: "('v, 'e) journal_ops \<Rightarrow> u8 list \<Rightarrow> journal_error + 'e" where
  "decode_v3 J p =
     sum_bind (or_deserialize (jo_value_from_slice J p)) (\<lambda>v.
       if \<not> jo_is_object J v then Inl JournalPanic
       else sum_bind (insert_legacy_operation J v) (\<lambda>v'. or_deserialize (jo_event_from_value J v')))"

definition decode_versioned :: "('v, 'e) journal_ops \<Rightarrow> i16 \<Rightarrow> u8 list \<Rightarrow> journal_error + 'e" where
  "decode_versioned J version p =
     (if version = 2 then decode_v2 J p
      else if version = 3 then decode_v3 J p
      else if version \<in> {4, 5, 6} then decode_legacy_operation J p
      else if version = 7 then or_deserialize (jo_event_from_slice J p)
      else if version = REQUEST_LOG_SCHEMA_VERSION then
        sum_bind (or_deserialize (jo_value_from_slice J p)) (\<lambda>v.
          if jo_get J v ''upstream_credential'' = None then Inl DeserializeError
          else or_deserialize (jo_event_from_value J v))
      else Inl (UnsupportedVersion version))"

definition journal_decode :: "('v, 'e) journal_ops \<Rightarrow> encoded_request_log \<Rightarrow> journal_error + 'e" where
  "journal_decode J r =
     sum_bind (decode_versioned J (er_schema_version r) (er_payload r)) (\<lambda>e0.
       let e = (if er_schema_version r <s REQUEST_LOG_SCHEMA_VERSION then jo_without_credential J e0 else e0)
       in if jo_event_id J e \<noteq> er_request_log_id r then Inl IdentifierMismatch else Inr e)"

definition serde_round_trip :: "('v, 'e) journal_ops \<Rightarrow> bool" where
  "serde_round_trip J \<longleftrightarrow>
     (\<forall>e p. jo_to_vec J e = Some p \<longrightarrow>
        (\<exists>v. jo_value_from_slice J p = Some v \<and> jo_get J v ''upstream_credential'' \<noteq> None \<and>
             jo_event_from_value J v = Some e))"

section \<open>Frames\<close>

datatype spool_error =
    IoError | CodecError journal_error | PayloadTooLarge nat | OffsetOverflow
  | UnavailableAfterWriteFailure | CapacityError | InvalidCheckpoint nat nat | CorruptSpool string

definition FRAME_MAGIC :: "u8 list" where
  "FRAME_MAGIC = [65, 73, 71, 76]"

definition FRAME_HEADER_BYTES :: nat where
  "FRAME_HEADER_BYTES = 32"

definition MAX_PAYLOAD_BYTES :: nat where
  "MAX_PAYLOAD_BYTES = 1048576"

definition frame_of :: "(u8 list \<Rightarrow> u32) \<Rightarrow> encoded_request_log \<Rightarrow> u8 list" where
  "frame_of crc r =
     FRAME_MAGIC @ to_le_bytes 2 (er_schema_version r) @ to_le_bytes 2 (0 :: u16) @
     to_le_bytes 4 (of_nat (length (er_payload r)) :: u32) @ to_le_bytes 4 (crc (er_payload r)) @
     to_be_bytes 16 (er_request_log_id r) @ er_payload r"

definition encode_frame ::
  "(u8 list \<Rightarrow> u32) \<Rightarrow> encoded_request_log \<Rightarrow> spool_error + u8 list" where
  "encode_frame crc r =
     (if MAX_PAYLOAD_BYTES < length (er_payload r) then Inl (PayloadTooLarge (length (er_payload r)))
      else Inr (frame_of crc r))"

record parsed_header =
  ph_schema_version :: i16
  ph_payload_len :: nat
  ph_checksum :: u32
  ph_request_log_id :: uuid

definition parse_header :: "u8 list \<Rightarrow> spool_error + parsed_header" where
  "parse_header h =
     (if take 4 h \<noteq> FRAME_MAGIC then Inl (CorruptSpool ''request-log spool frame magic is invalid'')
      else if (from_le_bytes (take 2 (drop 6 h)) :: u16) \<noteq> 0 then
        Inl (CorruptSpool ''request-log spool frame reserved bits are nonzero'')
      else
        (let payload_len = unat (from_le_bytes (take 4 (drop 8 h)) :: u32)
         in if MAX_PAYLOAD_BYTES < payload_len then Inl (PayloadTooLarge payload_len)
            else Inr \<lparr>ph_schema_version = from_le_bytes (take 2 (drop 4 h)), ph_payload_len = payload_len,
                      ph_checksum = from_le_bytes (take 4 (drop 12 h)),
                      ph_request_log_id = from_be_bytes (take 16 (drop 16 h))\<rparr>))"

definition frame_end_of :: "nat \<Rightarrow> nat \<Rightarrow> spool_error + nat" where
  "frame_end_of offset payload_len =
     (if offset + FRAME_HEADER_BYTES + payload_len < 2 ^ 64
      then Inr (offset + FRAME_HEADER_BYTES + payload_len) else Inl OffsetOverflow)"

record scan_result =
  sc_end_offset :: nat
  sc_checkpoint_is_boundary :: bool

lemma frame_end_of_Inr: "frame_end_of offset n = Inr fe \<Longrightarrow> fe = offset + FRAME_HEADER_BYTES + n \<and> offset < fe"
  by (auto simp: frame_end_of_def FRAME_HEADER_BYTES_def split: if_splits)

text \<open>The scan: the result and the file it leaves.\<close>

function (sequential) scan_from ::
  "(u8 list \<Rightarrow> u32) \<Rightarrow> u8 list \<Rightarrow> nat \<Rightarrow> nat \<Rightarrow> bool \<Rightarrow> spool_error + (u8 list \<times> scan_result)" where
  "scan_from crc file checkpoint offset boundary =
     (if length file \<le> offset then
        Inr (file, \<lparr>sc_end_offset = offset, sc_checkpoint_is_boundary = boundary\<rparr>)
      else if length file - offset < FRAME_HEADER_BYTES then
        Inr (take offset file, \<lparr>sc_end_offset = offset, sc_checkpoint_is_boundary = boundary\<rparr>)
      else
        (case parse_header (take FRAME_HEADER_BYTES (drop offset file)) of
           Inl err \<Rightarrow> Inl err
         | Inr h \<Rightarrow>
             (case frame_end_of offset (ph_payload_len h) of
                Inl err \<Rightarrow> Inl err
              | Inr frame_end \<Rightarrow>
                  if length file < frame_end then
                    Inr (take offset file, \<lparr>sc_end_offset = offset, sc_checkpoint_is_boundary = boundary\<rparr>)
                  else if crc (take (ph_payload_len h) (drop (offset + FRAME_HEADER_BYTES) file)) \<noteq> ph_checksum h then
                    Inl (CorruptSpool ''request-log spool frame checksum mismatch'')
                  else scan_from crc file checkpoint frame_end (boundary \<or> frame_end = checkpoint))))"
  by pat_completeness auto
termination
  by (relation "measure (\<lambda>(_, file, _, offset, _). length file - offset)")
    (auto dest!: frame_end_of_Inr)

declare scan_from.simps [simp del]

definition scan_and_repair ::
  "(u8 list \<Rightarrow> u32) \<Rightarrow> u8 list \<Rightarrow> nat \<Rightarrow> spool_error + (u8 list \<times> scan_result)" where
  "scan_and_repair crc file checkpoint = scan_from crc file checkpoint 0 (checkpoint = 0)"

section \<open>The reader\<close>

record spool_read_batch =
  rb_records :: "encoded_request_log list"
  rb_start_offset :: nat
  rb_end_offset :: nat

function (sequential) read_records ::
  "(u8 list \<Rightarrow> u32) \<Rightarrow> u8 list \<Rightarrow> nat \<Rightarrow> nat \<Rightarrow> nat \<Rightarrow> encoded_request_log list \<Rightarrow>
   spool_error + (encoded_request_log list \<times> nat)" where
  "read_records crc file available_end max_records offset records =
     (if \<not> (length records < max_records \<and> offset < available_end) then Inr (records, offset)
      else if length file - offset < FRAME_HEADER_BYTES then Inl IoError
      else
        (case parse_header (take FRAME_HEADER_BYTES (drop offset file)) of
           Inl err \<Rightarrow> Inl err
         | Inr h \<Rightarrow>
             (case frame_end_of offset (ph_payload_len h) of
                Inl err \<Rightarrow> Inl err
              | Inr frame_end \<Rightarrow>
                  if available_end < frame_end then
                    Inl (CorruptSpool ''published spool frame extends beyond the durable end offset'')
                  else if length file < frame_end then Inl IoError
                  else
                    (let payload = take (ph_payload_len h) (drop (offset + FRAME_HEADER_BYTES) file)
                     in if crc payload \<noteq> ph_checksum h then
                          Inl (CorruptSpool ''request-log spool frame checksum mismatch'')
                        else
                          read_records crc file available_end max_records frame_end
                            (records @ [\<lparr>er_request_log_id = ph_request_log_id h,
                                         er_schema_version = ph_schema_version h, er_payload = payload\<rparr>])))))"
  by pat_completeness auto
termination
  by (relation "measure (\<lambda>(_, _, available_end, _, offset, _). available_end - offset)")
    (auto dest!: frame_end_of_Inr)

declare read_records.simps [simp del]

definition read_batch ::
  "(u8 list \<Rightarrow> u32) \<Rightarrow> u8 list \<Rightarrow> nat \<Rightarrow> nat \<Rightarrow> nat \<Rightarrow> spool_error + spool_read_batch" where
  "read_batch crc file available_end offset max_records =
     (if max_records = 0 \<or> available_end \<le> offset then
        Inr \<lparr>rb_records = [], rb_start_offset = offset, rb_end_offset = offset\<rparr>
      else
        (case read_records crc file available_end max_records offset [] of
           Inl err \<Rightarrow> Inl err
         | Inr (records, end_offset) \<Rightarrow>
             Inr \<lparr>rb_records = records, rb_start_offset = offset, rb_end_offset = end_offset\<rparr>))"

section \<open>Frames parse back\<close>

definition record_ok :: "encoded_request_log \<Rightarrow> bool" where
  "record_ok r \<longleftrightarrow> length (er_payload r) \<le> MAX_PAYLOAD_BYTES"

lemma length_frame [simp]: "length (frame_of crc r) = FRAME_HEADER_BYTES + length (er_payload r)"
  by (simp add: frame_of_def FRAME_MAGIC_def FRAME_HEADER_BYTES_def)

definition header_of :: "(u8 list \<Rightarrow> u32) \<Rightarrow> encoded_request_log \<Rightarrow> parsed_header" where
  "header_of crc r =
     \<lparr>ph_schema_version = er_schema_version r, ph_payload_len = length (er_payload r),
      ph_checksum = crc (er_payload r), ph_request_log_id = er_request_log_id r\<rparr>"

lemma parse_frame:
  assumes "record_ok r"
  shows "parse_header (take FRAME_HEADER_BYTES (frame_of crc r @ rest)) = Inr (header_of crc r)"
proof -
  let ?v = "to_le_bytes 2 (er_schema_version r)" and ?z = "to_le_bytes 2 (0 :: u16)"
    and ?l = "to_le_bytes 4 (of_nat (length (er_payload r)) :: u32)" and ?c = "to_le_bytes 4 (crc (er_payload r))"
    and ?i = "to_be_bytes 16 (er_request_log_id r)"
  have h: "take FRAME_HEADER_BYTES (frame_of crc r @ rest) = FRAME_MAGIC @ ?v @ ?z @ ?l @ ?c @ ?i"
    by (simp add: frame_of_def FRAME_HEADER_BYTES_def FRAME_MAGIC_def)
  have "length (er_payload r) < 2 ^ 32" using assms by (simp add: record_ok_def MAX_PAYLOAD_BYTES_def)
  then have "unat (of_nat (length (er_payload r)) :: u32) = length (er_payload r)"
    by (simp add: unat_of_nat take_bit_nat_eq_self)
  then show ?thesis
    unfolding h using assms
    by (simp add: parse_header_def header_of_def FRAME_MAGIC_def record_ok_def Let_def
        from_to_le_bytes from_to_be_bytes)
qed

definition frames :: "(u8 list \<Rightarrow> u32) \<Rightarrow> encoded_request_log list \<Rightarrow> u8 list" where
  "frames crc rs = concat (map (frame_of crc) rs)"

lemma frames_simps [simp]:
  "frames crc [] = []" "frames crc (r # rs) = frame_of crc r @ frames crc rs"
  "frames crc (rs @ rs') = frames crc rs @ frames crc rs'"
  by (simp_all add: frames_def)

definition boundaries :: "(u8 list \<Rightarrow> u32) \<Rightarrow> encoded_request_log list \<Rightarrow> nat set" where
  "boundaries crc rs = {length (frames crc (take i rs)) | i. i \<le> length rs}"

lemma frame_at:
  assumes "record_ok r" and fl: "file = pre @ frame_of crc r @ rest"
  shows "parse_header (take FRAME_HEADER_BYTES (drop (length pre) file)) = Inr (header_of crc r)"
    and "take (length (er_payload r)) (drop (length pre + FRAME_HEADER_BYTES) file) = er_payload r"
    and "FRAME_HEADER_BYTES + length (er_payload r) \<le> length file - length pre"
proof -
  show "parse_header (take FRAME_HEADER_BYTES (drop (length pre) file)) = Inr (header_of crc r)"
    using parse_frame [OF assms(1), of crc rest] fl by simp
  have "drop FRAME_HEADER_BYTES (frame_of crc r) = er_payload r"
    by (simp add: frame_of_def FRAME_HEADER_BYTES_def FRAME_MAGIC_def)
  then show "take (length (er_payload r)) (drop (length pre + FRAME_HEADER_BYTES) file) = er_payload r"
    using fl by simp
  show "FRAME_HEADER_BYTES + length (er_payload r) \<le> length file - length pre" using fl by simp
qed

lemma scan_step:
  assumes "record_ok r" and "file = pre @ frame_of crc r @ rest" and "length file < 2 ^ 64"
  shows "scan_from crc file cp (length pre) b =
    scan_from crc file cp (length pre + length (frame_of crc r)) (b \<or> length pre + length (frame_of crc r) = cp)"
proof -
  note f = frame_at [OF assms(1,2)]
  have fe: "frame_end_of (length pre) (length (er_payload r)) = Inr (length pre + length (frame_of crc r))"
    using f(3) assms(3) by (simp add: frame_end_of_def FRAME_HEADER_BYTES_def)
  have "\<not> length file \<le> length pre" "\<not> length file - length pre < FRAME_HEADER_BYTES"
    "\<not> length file < length pre + length (frame_of crc r)"
    using f(3) by (auto simp: FRAME_HEADER_BYTES_def)
  with f fe show ?thesis
    by (subst scan_from.simps) (simp add: header_of_def)
qed

lemma boundary_step:
  "(b \<or> (\<exists>i. 0 < i \<and> i \<le> length (r # rs) \<and> off + length (frames crc (take i (r # rs))) = cp)) =
   ((b \<or> off + length (frame_of crc r) = cp) \<or>
    (\<exists>i. 0 < i \<and> i \<le> length rs \<and> off + length (frame_of crc r) + length (frames crc (take i rs)) = cp))"
  (is "(b \<or> ?all) = ((b \<or> ?one) \<or> ?more)")
proof -
  have "?all" if "?one" using that by (intro exI [of _ 1]) simp
  moreover have "?all" if more: "?more"
  proof -
    from more obtain i where "0 < i" "i \<le> length rs"
      "off + length (frame_of crc r) + length (frames crc (take i rs)) = cp" by blast
    then show ?thesis by (intro exI [of _ "Suc i"]) simp
  qed
  moreover have "?one \<or> ?more" if all: "?all"
  proof -
    from all obtain i where i: "0 < i" "i \<le> length (r # rs)"
      "off + length (frames crc (take i (r # rs))) = cp" by blast
    then obtain j where j: "i = Suc j" by (cases i) auto
    show ?thesis
    proof (cases "j = 0")
      case True
      with i j show ?thesis by simp
    next
      case False
      with i j show ?thesis by (intro disjI2 exI [of _ j]) simp
    qed
  qed
  ultimately show ?thesis by blast
qed

lemma scan_frames:
  assumes "\<forall>r \<in> set rs. record_ok r" and "file = pre @ frames crc rs @ rest" and "length file < 2 ^ 64"
  shows "scan_from crc file cp (length pre) b =
    scan_from crc file cp (length pre + length (frames crc rs))
      (b \<or> (\<exists>i. 0 < i \<and> i \<le> length rs \<and> length pre + length (frames crc (take i rs)) = cp))"
  using assms
proof (induction rs arbitrary: pre b)
  case (Cons r rs)
  have step: "scan_from crc file cp (length pre) b =
      scan_from crc file cp (length (pre @ frame_of crc r)) (b \<or> length (pre @ frame_of crc r) = cp)"
    using scan_step [of r "file" pre crc "frames crc rs @ rest" cp b] Cons.prems by simp
  moreover have "scan_from crc file cp (length (pre @ frame_of crc r)) (b \<or> length (pre @ frame_of crc r) = cp) =
      scan_from crc file cp (length (pre @ frame_of crc r) + length (frames crc rs))
        ((b \<or> length (pre @ frame_of crc r) = cp) \<or>
         (\<exists>i. 0 < i \<and> i \<le> length rs \<and> length (pre @ frame_of crc r) + length (frames crc (take i rs)) = cp))"
    by (rule Cons.IH) (use Cons.prems in auto)
  ultimately show ?case unfolding step boundary_step by (simp add: add.assoc)
qed simp

lemma scan_torn:
  assumes "file = pre @ take k (frame_of crc r)" and "k < length (frame_of crc r)" and "record_ok r"
    and "length pre + length (frame_of crc r) < 2 ^ 64"
  shows "scan_from crc file cp (length pre) b =
    Inr (pre, \<lparr>sc_end_offset = length pre, sc_checkpoint_is_boundary = b\<rparr>)"
proof (cases "k < FRAME_HEADER_BYTES")
  case True
  then show ?thesis using assms by (subst scan_from.simps) auto
next
  case False
  then have "take FRAME_HEADER_BYTES (drop (length pre) file) = take FRAME_HEADER_BYTES (frame_of crc r)"
    using assms by (simp add: min_def)
  then have h: "parse_header (take FRAME_HEADER_BYTES (drop (length pre) file)) = Inr (header_of crc r)"
    using parse_frame [OF assms(3), of crc "[]"] by simp
  have fe: "frame_end_of (length pre) (length (er_payload r)) = Inr (length pre + length (frame_of crc r))"
    using assms(4) by (simp add: frame_end_of_def FRAME_HEADER_BYTES_def)
  have "\<not> length file \<le> length pre" "\<not> length file - length pre < FRAME_HEADER_BYTES"
    "length file < length pre + length (frame_of crc r)"
    using False assms by (auto simp: FRAME_HEADER_BYTES_def min_def)
  moreover have "take (length pre) file = pre" using assms(1) by simp
  ultimately show ?thesis using h fe by (subst scan_from.simps) (simp add: header_of_def)
qed

lemma boundaries_iff:
  "cp \<in> boundaries crc rs \<longleftrightarrow> cp = 0 \<or> (\<exists>i. 0 < i \<and> i \<le> length rs \<and> length (frames crc (take i rs)) = cp)"
proof -
  have "cp \<in> boundaries crc rs \<longleftrightarrow> (\<exists>i \<le> length rs. length (frames crc (take i rs)) = cp)"
    by (auto simp: boundaries_def)
  also have "\<dots> \<longleftrightarrow> cp = 0 \<or> (\<exists>i. 0 < i \<and> i \<le> length rs \<and> length (frames crc (take i rs)) = cp)"
    by (metis bot_nat_0.not_eq_extremum frames_simps(1) le0 list.size(3) take0)
  finally show ?thesis .
qed

lemma scan_prefix:
  assumes "\<forall>r \<in> set rs. record_ok r" and "length (frames crc rs @ rest) < 2 ^ 64"
  shows "scan_and_repair crc (frames crc rs @ rest) cp =
    scan_from crc (frames crc rs @ rest) cp (length (frames crc rs)) (cp \<in> boundaries crc rs)"
  using scan_frames [OF assms(1), of "frames crc rs @ rest" "[]" crc rest cp "cp = 0"] assms(2)
  by (simp add: scan_and_repair_def boundaries_iff)

lemma scan_repairs:
  assumes "\<forall>r \<in> set rs. record_ok r" and "record_ok r" and "k < length (frame_of crc r)"
    and "length (frames crc rs) + length (frame_of crc r) < 2 ^ 64"
  shows "scan_and_repair crc (frames crc rs @ take k (frame_of crc r)) cp =
    Inr (frames crc rs, \<lparr>sc_end_offset = length (frames crc rs), sc_checkpoint_is_boundary = cp \<in> boundaries crc rs\<rparr>)"
proof -
  have len: "length (frames crc rs @ take k (frame_of crc r)) < 2 ^ 64" using assms(3,4) by simp
  show ?thesis unfolding scan_prefix [OF assms(1) len] by (rule scan_torn [OF refl assms(3,2,4)])
qed

text \<open>Damage inside a frame that is complete in the file.\<close>

lemma scan_reports_header:
  assumes "\<forall>r \<in> set rs. record_ok r" and "length (frames crc rs @ h @ rest) < 2 ^ 64"
    and "length h = FRAME_HEADER_BYTES" and "parse_header h = Inl err"
  shows "scan_and_repair crc (frames crc rs @ h @ rest) cp = Inl err"
  unfolding scan_prefix [OF assms(1,2)]
  using assms(3,4) by (subst scan_from.simps) (simp add: FRAME_HEADER_BYTES_def)

lemma scan_reports_payload:
  assumes "\<forall>r \<in> set rs. record_ok r" and "record_ok r"
    and "length (frames crc rs @ take FRAME_HEADER_BYTES (frame_of crc r) @ q @ rest) < 2 ^ 64"
    and "length q = length (er_payload r)" and "crc q \<noteq> crc (er_payload r)"
  shows "scan_and_repair crc (frames crc rs @ take FRAME_HEADER_BYTES (frame_of crc r) @ q @ rest) cp =
    Inl (CorruptSpool ''request-log spool frame checksum mismatch'')"
proof -
  let ?h = "take FRAME_HEADER_BYTES (frame_of crc r)"
  have h: "parse_header ?h = Inr (header_of crc r)" "length ?h = FRAME_HEADER_BYTES"
    using parse_frame [OF assms(2), of crc "[]"] by simp_all
  have "frame_end_of (length (frames crc rs)) (length q) = Inr (length (frames crc rs) + FRAME_HEADER_BYTES + length q)"
    using assms(3) h(2) by (simp add: frame_end_of_def)
  then show ?thesis
    unfolding scan_prefix [OF assms(1,3)]
    using h assms(4,5) by (subst scan_from.simps) (simp add: header_of_def FRAME_HEADER_BYTES_def)
qed

section \<open>What the reader returns\<close>

lemma read_step:
  assumes "record_ok r" and "file = pre @ frame_of crc r @ rest" and "length file < 2 ^ 64"
    and "length records < n" and "length pre + length (frame_of crc r) \<le> fin"
  shows "read_records crc file fin n (length pre) records =
    read_records crc file fin n (length pre + length (frame_of crc r)) (records @ [r])"
proof -
  note f = frame_at [OF assms(1,2)]
  have fe: "frame_end_of (length pre) (length (er_payload r)) = Inr (length pre + length (frame_of crc r))"
    using f(3) assms(3) by (simp add: frame_end_of_def FRAME_HEADER_BYTES_def)
  have "length pre < fin" "\<not> length file - length pre < FRAME_HEADER_BYTES"
    "\<not> fin < length pre + length (frame_of crc r)" "\<not> length file < length pre + length (frame_of crc r)"
    using f(3) assms(5) by (auto simp: FRAME_HEADER_BYTES_def)
  with f fe assms(4) show ?thesis
    by (subst read_records.simps) (simp add: header_of_def Let_def, cases r, simp)
qed

lemma read_all:
  assumes "\<forall>r \<in> set rs. record_ok r" and "file = pre @ frames crc rs @ rest" and "length file < 2 ^ 64"
    and "fin = length pre + length (frames crc rs)"
  shows "read_records crc file fin n (length pre) acc =
    Inr (acc @ take (n - length acc) rs, length pre + length (frames crc (take (n - length acc) rs)))"
  using assms
proof (induction rs arbitrary: pre acc)
  case Nil
  then show ?case by (subst read_records.simps) simp
next
  case (Cons r rs)
  show ?case
  proof (cases "length acc < n")
    case False
    then show ?thesis by (subst read_records.simps) simp
  next
    case True
    have "read_records crc file fin n (length pre) acc =
        read_records crc file fin n (length (pre @ frame_of crc r)) (acc @ [r])"
      using read_step [of r "file" pre crc "frames crc rs @ rest" acc n fin] Cons.prems True by simp
    also have "\<dots> = Inr ((acc @ [r]) @ take (n - length (acc @ [r])) rs,
        length (pre @ frame_of crc r) + length (frames crc (take (n - length (acc @ [r])) rs)))"
      by (rule Cons.IH) (use Cons.prems in auto)
    finally have "read_records crc file fin n (length pre) acc =
      Inr ((acc @ [r]) @ take (n - length (acc @ [r])) rs,
        length (pre @ frame_of crc r) + length (frames crc (take (n - length (acc @ [r])) rs)))" .
    moreover obtain k where "n - length acc = Suc k" "n - length (acc @ [r]) = k"
      using True by (metis Suc_diff_Suc length_append_singleton)
    ultimately show ?thesis by simp
  qed
qed

section \<open>Every scanned file is a sequence of frames\<close>

lemma to_from_le_bytes:
  assumes "length bs = n" and "LENGTH('a) = 8 * n"
  shows "to_le_bytes n (from_le_bytes bs :: 'a::len word) = bs"
proof (rule nth_equalityI)
  show "length (to_le_bytes n (from_le_bytes bs :: 'a word)) = length bs" using assms(1) by simp
  fix i assume "i < length (to_le_bytes n (from_le_bytes bs :: 'a word))"
  then have i: "i < n" by simp
  show "to_le_bytes n (from_le_bytes bs :: 'a word) ! i = bs ! i"
  proof (rule bit_word_eqI)
    fix k assume k: "k < LENGTH(8)"
    then have "(8 * i + k) div 8 = i" "(8 * i + k) mod 8 = k" "8 * i + k < 8 * n" using i by auto
    then show "bit (to_le_bytes n (from_le_bytes bs :: 'a word) ! i) k = bit (bs ! i) k"
      using i k assms by (simp add: to_le_bytes_def bit_ucast_iff bit_drop_bit_eq bit_from_le_bytes)
  qed
qed

lemma to_from_be_bytes:
  "length bs = n \<Longrightarrow> LENGTH('a) = 8 * n \<Longrightarrow> to_be_bytes n (from_be_bytes bs :: 'a::len word) = bs"
  by (simp add: to_be_bytes_def from_be_bytes_def to_from_le_bytes)

lemma split_header:
  "length h = 32 \<Longrightarrow> h = take 4 h @ take 2 (drop 4 h) @ take 2 (drop 6 h) @ take 4 (drop 8 h) @ take 4 (drop 12 h) @ take 16 (drop 16 h)"
proof -
  assume "length h = 32"
  then have "take 16 (drop 16 h) = drop 16 h" by simp
  moreover have "take 4 (drop 12 h) @ drop 16 h = drop 12 h" using append_take_drop_id [of 4 "drop 12 h"] by simp
  moreover have "take 4 (drop 8 h) @ drop 12 h = drop 8 h" using append_take_drop_id [of 4 "drop 8 h"] by simp
  moreover have "take 2 (drop 6 h) @ drop 8 h = drop 6 h" using append_take_drop_id [of 2 "drop 6 h"] by simp
  moreover have "take 2 (drop 4 h) @ drop 6 h = drop 4 h" using append_take_drop_id [of 2 "drop 4 h"] by simp
  ultimately show ?thesis by simp
qed

lemma parse_header_inverse:
  assumes h: "length h = 32" and p: "parse_header h = Inr p" and payload: "length q = ph_payload_len p" "crc q = ph_checksum p"
  defines "r \<equiv> \<lparr>er_request_log_id = ph_request_log_id p, er_schema_version = ph_schema_version p, er_payload = q\<rparr>"
  shows "h @ q = frame_of crc r" and "record_ok r"
proof -
  from p have m: "take 4 h = FRAME_MAGIC" and z: "(from_le_bytes (take 2 (drop 6 h)) :: u16) = 0"
    and l: "unat (from_le_bytes (take 4 (drop 8 h)) :: u32) \<le> MAX_PAYLOAD_BYTES"
    and p': "p = \<lparr>ph_schema_version = from_le_bytes (take 2 (drop 4 h)),
      ph_payload_len = unat (from_le_bytes (take 4 (drop 8 h)) :: u32),
      ph_checksum = from_le_bytes (take 4 (drop 12 h)), ph_request_log_id = from_be_bytes (take 16 (drop 16 h))\<rparr>"
    by (auto simp: parse_header_def Let_def split: if_splits)
  show "record_ok r" using l payload(1) by (simp add: r_def record_ok_def p')
  have "to_le_bytes 2 (0 :: u16) = take 2 (drop 6 h)"
    using to_from_le_bytes [of "take 2 (drop 6 h)" 2, where ?'a = 16] h z by simp
  moreover have "to_le_bytes 2 (er_schema_version r) = take 2 (drop 4 h)"
    using to_from_le_bytes [of "take 2 (drop 4 h)" 2, where ?'a = 16] h by (simp add: r_def p')
  moreover have "to_le_bytes 4 (of_nat (length (er_payload r)) :: u32) = take 4 (drop 8 h)"
    using to_from_le_bytes [of "take 4 (drop 8 h)" 4, where ?'a = 32] h payload(1) by (simp add: r_def p')
  moreover have "to_le_bytes 4 (crc (er_payload r)) = take 4 (drop 12 h)"
    using to_from_le_bytes [of "take 4 (drop 12 h)" 4, where ?'a = 32] h payload(2) by (simp add: r_def p')
  moreover have "to_be_bytes 16 (er_request_log_id r) = take 16 (drop 16 h)"
    using to_from_be_bytes [of "take 16 (drop 16 h)" 16, where ?'a = 128] h by (simp add: r_def p')
  ultimately have "frame_of crc r = h @ er_payload r"
    unfolding frame_of_def using split_header [OF h] m by (metis append.assoc)
  then show "h @ q = frame_of crc r" by (simp add: r_def)
qed

text \<open>What the scan takes for the remains of an interrupted append: the bytes end before a header does, or before the
  payload whose length the header states.\<close>

definition cut_short :: "u8 list \<Rightarrow> bool" where
  "cut_short tail \<longleftrightarrow> length tail < FRAME_HEADER_BYTES \<or>
     (\<exists>h. parse_header (take FRAME_HEADER_BYTES tail) = Inr h \<and> length tail < FRAME_HEADER_BYTES + ph_payload_len h)"

lemma scan_sound_aux:
  assumes "scan_from crc file cp offset b = Inr (file', res)" and "offset \<le> length file"
  shows "\<exists>rs tail. drop offset file = frames crc rs @ tail \<and> file' = take offset file @ frames crc rs \<and>
    (\<forall>r \<in> set rs. record_ok r) \<and> cut_short tail \<and> sc_end_offset res = length file' \<and>
    (sc_checkpoint_is_boundary res \<longleftrightarrow>
       b \<or> (\<exists>i. 0 < i \<and> i \<le> length rs \<and> offset + length (frames crc (take i rs)) = cp))"
  using assms
proof (induction crc "file" cp offset b rule: scan_from.induct)
  case (1 crc "file" cp offset b)
  show ?case
  proof (cases "length file \<le> offset")
    case True
    with 1(2,3) show ?thesis
      by (subst (asm) scan_from.simps) (intro exI [of _ "[]"] exI [of _ "[]"], auto simp: cut_short_def FRAME_HEADER_BYTES_def)
  next
    case more: False
    show ?thesis
    proof (cases "length file - offset < FRAME_HEADER_BYTES")
      case True
      with 1(2) more show ?thesis
        by (subst (asm) scan_from.simps) (intro exI [of _ "[]"] exI [of _ "drop offset file"], auto simp: cut_short_def)
    next
      case False
      let ?h = "take FRAME_HEADER_BYTES (drop offset file)"
      from 1(2) more False obtain p where p: "parse_header ?h = Inr p"
        by (subst (asm) scan_from.simps) (auto split: sum.splits)
      from 1(2) more False p obtain fe where fe: "frame_end_of offset (ph_payload_len p) = Inr fe"
        by (subst (asm) scan_from.simps) (auto split: sum.splits)
      show ?thesis
      proof (cases "length file < fe")
        case True
        with 1(2) more False p fe frame_end_of_Inr [OF fe] show ?thesis
          by (subst (asm) scan_from.simps) (intro exI [of _ "[]"] exI [of _ "drop offset file"], auto simp: cut_short_def)
      next
        case fits: False
        let ?q = "take (ph_payload_len p) (drop (offset + FRAME_HEADER_BYTES) file)"
        from 1(2) more False p fe fits have sum: "crc ?q = ph_checksum p"
          and rec: "scan_from crc file cp fe (b \<or> fe = cp) = Inr (file', res)"
          by (subst (asm) scan_from.simps, simp split: if_splits)+
        have le: "fe \<le> length file" using fits by simp
        have nm: "\<not> crc ?q \<noteq> ph_checksum p" using sum by simp
        from 1(1) [OF more False p fe fits nm rec le] obtain rs tail where
          IH: "drop fe file = frames crc rs @ tail" "file' = take fe file @ frames crc rs"
            "\<forall>r \<in> set rs. record_ok r" "cut_short tail" "sc_end_offset res = length file'"
            "sc_checkpoint_is_boundary res \<longleftrightarrow>
               (b \<or> fe = cp) \<or> (\<exists>i. 0 < i \<and> i \<le> length rs \<and> fe + length (frames crc (take i rs)) = cp)"
          by (elim exE conjE)
        note fe' = frame_end_of_Inr [OF fe]
        let ?r = "\<lparr>er_request_log_id = ph_request_log_id p, er_schema_version = ph_schema_version p, er_payload = ?q\<rparr>"
        have len: "length ?h = 32" "length ?q = ph_payload_len p"
          using False fits fe' by (auto simp: FRAME_HEADER_BYTES_def)
        note inv = parse_header_inverse [where crc = crc, OF len(1) p len(2) sum]
        have fr: "take (fe - offset) (drop offset file) = frame_of crc ?r"
        proof -
          have "fe - offset = FRAME_HEADER_BYTES + ph_payload_len p" using fe' by simp
          then have "take (fe - offset) (drop offset file) = ?h @ ?q"
            by (simp add: take_add add.commute)
          then show ?thesis using inv(1) by simp
        qed
        have split: "drop offset file = frame_of crc ?r @ drop fe file"
          using fr fe' append_take_drop_id [of "fe - offset" "drop offset file"] by (simp add: ac_simps)
        have tk: "take fe file = take offset file @ frame_of crc ?r"
          using fr fe' take_add [of offset "fe - offset" "file"] by (simp add: add.assoc)
        have lenr: "length (frame_of crc ?r) = fe - offset" using fe' len by simp
        have end': "offset + length (frame_of crc ?r) = fe" using fe' len by simp
        note bd = boundary_step [of b ?r rs offset crc cp, unfolded end']
        show ?thesis
          using IH inv(2) split tk unfolding bd
          by (intro exI [of _ "?r # rs"] exI [of _ tail], unfold bd) simp
      qed
    qed
  qed
qed


lemma frames_read_back:
  assumes "\<forall>r \<in> set rs. record_ok r" and "length (frames crc (pre @ rs)) < 2 ^ 64" and "length (frames crc (pre @ rs) @ rest) < 2 ^ 64"
  shows "read_batch crc (frames crc (pre @ rs) @ rest) (length (frames crc (pre @ rs))) (length (frames crc pre)) n =
    Inr \<lparr>rb_records = take n rs, rb_start_offset = length (frames crc pre),
         rb_end_offset = length (frames crc (pre @ take n rs))\<rparr>"
proof (cases "n = 0 \<or> rs = []")
  case True
  then show ?thesis by (auto simp: read_batch_def)
next
  case False
  then have "0 < length (frames crc rs)" by (cases rs) (simp_all add: FRAME_HEADER_BYTES_def)
  with False read_all [OF assms(1), of "frames crc (pre @ rs) @ rest" "frames crc pre" crc rest
      "length (frames crc (pre @ rs))" n "[]"] assms(3)
  show ?thesis by (simp add: read_batch_def)
qed

lemma journal_codec:
  assumes "serde_round_trip J" and "journal_encode J e = Inr r"
  shows "journal_decode J r = Inr e" and "er_request_log_id r = jo_event_id J e" and "er_schema_version r = 8"
proof -
  from assms(2) obtain p where p: "jo_to_vec J e = Some p"
    and r: "r = \<lparr>er_request_log_id = jo_event_id J e, er_schema_version = 8, er_payload = p\<rparr>"
    by (auto simp: journal_encode_def REQUEST_LOG_SCHEMA_VERSION_def split: option.splits)
  from assms(1) p obtain v where "jo_value_from_slice J p = Some v" "jo_get J v ''upstream_credential'' \<noteq> None"
    "jo_event_from_value J v = Some e" unfolding serde_round_trip_def by blast
  then show "journal_decode J r = Inr e"
    by (simp add: r journal_decode_def decode_versioned_def REQUEST_LOG_SCHEMA_VERSION_def or_deserialize_def
        sum_bind_def word_sless_alt)
  show "er_request_log_id r = jo_event_id J e" "er_schema_version r = 8" by (simp_all add: r)
qed

text \<open>C16. What is appended is read back: the events whose records were appended after a boundary are read from
  that boundary in the order of their appends, up to the batch size, each decodes to the event that
  was encoded, and the offset of the batch is the boundary after the records returned.\<close>

theorem journal_round_trip:
  assumes "serde_round_trip J" and "list_all2 (\<lambda>e r. journal_encode J e = Inr r) es rs"
    and "\<forall>r \<in> set rs. length (er_payload r) \<le> MAX_PAYLOAD_BYTES"
    and "length (frames crc (pre @ rs) @ rest) < 2 ^ 64"
  shows "\<exists>b. read_batch crc (frames crc (pre @ rs) @ rest) (length (frames crc (pre @ rs))) (length (frames crc pre)) n =
      Inr b \<and>
    map (journal_decode J) (rb_records b) = map Inr (take n es) \<and> rb_start_offset b = length (frames crc pre) \<and>
    rb_end_offset b = length (frames crc (pre @ take n rs))"
proof -
  have ok: "\<forall>r \<in> set rs. record_ok r" using assms(3) by (simp add: record_ok_def)
  have "map (journal_decode J) rs = map Inr es"
    using assms(2) by (induction rule: list_all2_induct) (simp_all add: journal_codec(1) [OF assms(1)])
  then have "map (journal_decode J) (take n rs) = map Inr (take n es)" by (simp add: take_map [symmetric])
  then show ?thesis using frames_read_back [OF ok _ assms(4), of n] assms(4) by simp
qed

text \<open>C17. Recovery after a crash. Whatever file a scan accepts, the result is a prefix of the file that is a sequence of
  well-formed frames, and what is removed behind it ends before the frame its header announces; a checkpoint is
  recognised exactly when it is a frame boundary. A journal whose last append was interrupted at any byte is cut back
  to its complete frames. Damage to a complete frame is reported instead if it makes the header unreadable (magic,
  reserved bits, a length above the limit) or changes the checksum of the payload; a length field that was damaged to
  point past the end of the file is taken for an interrupted append.\<close>

theorem scan_recovers_frames:
  "(scan_and_repair crc file cp = Inr (file', res) \<longrightarrow>
     (\<exists>rs tail. file = frames crc rs @ tail \<and> file' = frames crc rs \<and> (\<forall>r \<in> set rs. record_ok r) \<and> cut_short tail \<and>
        sc_end_offset res = length file' \<and> sc_checkpoint_is_boundary res = (cp \<in> boundaries crc rs))) \<and>
   ((\<forall>r \<in> set rs. record_ok r) \<and> record_ok r \<and> k < length (frame_of crc r) \<and>
     length (frames crc rs) + length (frame_of crc r) < 2 ^ 64 \<longrightarrow>
     scan_and_repair crc (frames crc rs @ take k (frame_of crc r)) cp =
       Inr (frames crc rs, \<lparr>sc_end_offset = length (frames crc rs), sc_checkpoint_is_boundary = cp \<in> boundaries crc rs\<rparr>)) \<and>
   ((\<forall>r \<in> set rs. record_ok r) \<and> length h = FRAME_HEADER_BYTES \<and> parse_header h = Inl err \<and>
     length (frames crc rs @ h @ rest) < 2 ^ 64 \<longrightarrow>
     scan_and_repair crc (frames crc rs @ h @ rest) cp = Inl err) \<and>
   ((\<forall>r \<in> set rs. record_ok r) \<and> record_ok r \<and> length q = length (er_payload r) \<and> crc q \<noteq> crc (er_payload r) \<and>
     length (frames crc rs @ take FRAME_HEADER_BYTES (frame_of crc r) @ q @ rest) < 2 ^ 64 \<longrightarrow>
     scan_and_repair crc (frames crc rs @ take FRAME_HEADER_BYTES (frame_of crc r) @ q @ rest) cp =
       Inl (CorruptSpool ''request-log spool frame checksum mismatch''))"
proof (intro conjI impI)
  assume "scan_and_repair crc file cp = Inr (file', res)"
  then show "\<exists>rs tail. file = frames crc rs @ tail \<and> file' = frames crc rs \<and> (\<forall>r \<in> set rs. record_ok r) \<and> cut_short tail \<and>
      sc_end_offset res = length file' \<and> sc_checkpoint_is_boundary res = (cp \<in> boundaries crc rs)"
    using scan_sound_aux [of crc "file" cp 0 "cp = 0" file' res] by (auto simp: scan_and_repair_def boundaries_iff)
qed (use scan_repairs scan_reports_header scan_reports_payload in blast)+

section \<open>Witnesses\<close>

definition sample_journal :: "(string, string) journal_ops" where
  "sample_journal =
     \<lparr>jo_to_vec = (\<lambda>e. Some (map (\<lambda>c. of_nat (of_char c)) e)),
      jo_event_from_slice = (\<lambda>p. Some (map (\<lambda>b. char_of (unat b)) p)),
      jo_value_from_slice = (\<lambda>p. Some (map (\<lambda>b. char_of (unat b)) p)),
      jo_event_from_value = Some, jo_format_from_value = (\<lambda>_. None), jo_streamed_from_slice = (\<lambda>_. None),
      jo_get = (\<lambda>v _. Some v), jo_as_str = Some, jo_is_object = (\<lambda>_. True), jo_insert = (\<lambda>_ _ v. v),
      jo_event_id = (\<lambda>e. of_nat (length e)), jo_without_credential = id\<rparr>"

lemma sample_serde: "serde_round_trip sample_journal"
proof -
  have "char_of (unat (of_nat (of_char c) :: u8)) = c" for c
    by (simp add: unat_of_nat)
  then show ?thesis by (simp add: serde_round_trip_def sample_journal_def comp_def)
qed

definition sample_record :: encoded_request_log where
  "sample_record = \<lparr>er_request_log_id = 2, er_schema_version = 8, er_payload = map (\<lambda>c. of_nat (of_char c)) ''hi''\<rparr>"

lemma sample_record_facts: "length (er_payload sample_record) = 2" "record_ok sample_record"
  by (simp_all add: sample_record_def record_ok_def MAX_PAYLOAD_BYTES_def)

theorem journal_round_trip_witness:
  "\<exists>b. read_batch (\<lambda>_. 7) (frames (\<lambda>_. 7) ([sample_record] @ [sample_record])) (2 * 34) 34 5 = Inr b \<and>
    map (journal_decode sample_journal) (rb_records b) = [Inr ''hi'']"
proof -
  let ?crc = "\<lambda>_ :: u8 list. 7 :: u32"
  have enc: "list_all2 (\<lambda>e r. journal_encode sample_journal e = Inr r) [''hi''] [sample_record]"
    unfolding list_all2_Cons journal_encode_def sample_journal_def sample_record_def REQUEST_LOG_SCHEMA_VERSION_def
    by (simp del: list.map)
  have small: "\<forall>r \<in> set [sample_record]. length (er_payload r) \<le> MAX_PAYLOAD_BYTES"
    by (simp add: sample_record_facts MAX_PAYLOAD_BYTES_def)
  have len: "length (frames ?crc [sample_record]) = 34" "length (frames ?crc ([sample_record] @ [sample_record])) = 2 * 34"
    by (simp_all add: sample_record_facts FRAME_HEADER_BYTES_def)
  have "length (frames ?crc ([sample_record] @ [sample_record]) @ []) < 2 ^ 64"
    by (simp add: sample_record_facts FRAME_HEADER_BYTES_def)
  from journal_round_trip [OF sample_serde enc small this, of 5] show ?thesis
    unfolding len append_Nil2 by (elim exE conjE) (rule exI, rule conjI, assumption, simp)
qed

theorem scan_recovers_frames_witness:
  "scan_and_repair (\<lambda>_. 7) (frames (\<lambda>_. 7) [sample_record] @ take 33 (frame_of (\<lambda>_. 7) sample_record)) 34 =
    Inr (frames (\<lambda>_. 7) [sample_record], \<lparr>sc_end_offset = 34, sc_checkpoint_is_boundary = True\<rparr>)"
proof -
  have "(34 :: nat) \<in> boundaries (\<lambda>_. 7) [sample_record]"
    unfolding boundaries_iff by (rule disjI2, rule exI [of _ 1]) (simp add: sample_record_facts FRAME_HEADER_BYTES_def)
  with scan_recovers_frames [of "\<lambda>_. 7" _ 34 _ _ "[sample_record]" sample_record 33] show ?thesis
    by (simp add: sample_record_facts FRAME_HEADER_BYTES_def)
qed

section \<open>A damaged length field\<close>

text \<open>One changed byte in the length field of the first frame, and the scan drops both complete frames of a journal
  without an error.\<close>

lemma damaged_length_cuts_journal:
  "scan_and_repair crc ((frames crc [sample_record, sample_record])[8 := 200]) 0 =
    Inr ([], \<lparr>sc_end_offset = 0, sc_checkpoint_is_boundary = True\<rparr>)"
proof -
  let ?f = "(frames crc [sample_record, sample_record])[8 := 200]"
  have fr: "frame_of crc sample_record = [65, 73, 71, 76] @ [8, 0] @ [0, 0] @ [2, 0, 0, 0] @
      to_le_bytes 4 (crc (er_payload sample_record)) @ to_be_bytes 16 (2 :: uuid) @ er_payload sample_record"
    by (simp add: frame_of_def sample_record_def FRAME_MAGIC_def to_le_bytes_def upt_rec)
  have f: "?f = [65, 73, 71, 76] @ [8, 0] @ [0, 0] @ [200, 0, 0, 0] @
      to_le_bytes 4 (crc (er_payload sample_record)) @ to_be_bytes 16 (2 :: uuid) @ er_payload sample_record @
      frame_of crc sample_record"
    unfolding frames_simps fr by simp
  have p: "\<exists>h. parse_header (take FRAME_HEADER_BYTES ?f) = Inr h \<and> ph_payload_len h = 200"
    unfolding f by (simp add: parse_header_def FRAME_HEADER_BYTES_def FRAME_MAGIC_def MAX_PAYLOAD_BYTES_def Let_def)
  have l: "length ?f = 68" by (simp add: sample_record_facts FRAME_HEADER_BYTES_def)
  from p obtain h where "parse_header (take FRAME_HEADER_BYTES ?f) = Inr h" "ph_payload_len h = 200" by blast
  with l show ?thesis
    unfolding scan_and_repair_def by (subst scan_from.simps) (simp add: frame_end_of_def FRAME_HEADER_BYTES_def)
qed

end
