(* ===== verification/Request_Spool.thy ===== *)
theory Request_Spool
  imports Request_Journal
begin

text \<open>
  The durable spool of terminal request-log events, \<^verbatim>\<open>src/request_log_spool.rs\<close> and
  \<^verbatim>\<open>src/request_log_admission.rs\<close>, with the ingestion loop of
  \<^verbatim>\<open>src/workers/durable_request_log.rs\<close> as its consumer.

  The state is the disk and what the process keeps in memory. The disk has the journal file with the
  length of the prefix that has been synchronised (\<open>dk_durable\<close>), the checkpoint file, and per
  admitted request an intent file and a preallocated slot for its terminal event. Every
  operation that writes takes as an argument which of its system calls fails and how much a failing write
  has written, so the error paths and the points where the process may die are the branches of the model.
  The checkpoint file is replaced by a rename that is not synchronised, so the disk also keeps the
  contents it had since its directory was last synchronised (\<open>dk_checkpoint_older\<close>).

  Offsets and sizes are natural numbers with the saturating and checked operations of the code at
  \<open>2 ^ 64\<close>. The journal codec and the checksum are the parameters of
  \<open>Request_Journal\<close>. The advisory lock, file permissions, a poisoned mutex, foreign files in the
  admissions directory and failing reads are not modelled.
\<close>

section \<open>The disk\<close>

record disk =
  dk_events :: "u8 list"
  dk_durable :: nat
  dk_checkpoint :: "u8 list option"
  dk_checkpoint_older :: "u8 list option list"
  dk_slots :: "(uuid, u8 list) hmap"
  dk_intents :: "(uuid, u8 list) hmap"

definition sat64 :: "nat \<Rightarrow> nat" where
  "sat64 n = min n (2 ^ 64 - 1)"

definition HEADER_BYTES :: nat where
  "HEADER_BYTES = 16"

definition MAX_INTENT_BYTES :: nat where
  "MAX_INTENT_BYTES = 16384"

definition RESERVATION_BYTES :: nat where
  "RESERVATION_BYTES = HEADER_BYTES + MAX_PAYLOAD_BYTES + MAX_INTENT_BYTES"

definition overwrite :: "nat \<Rightarrow> u8 list \<Rightarrow> u8 list \<Rightarrow> u8 list" where
  "overwrite offset bytes content =
     take offset (content @ replicate (offset - length content) 0) @ bytes @ drop (offset + length bytes) content"

definition read_checkpoint :: "disk \<Rightarrow> spool_error + nat" where
  "read_checkpoint dk =
     (case dk_checkpoint dk of
        None \<Rightarrow> Inr 0
      | Some bytes \<Rightarrow>
          if length bytes \<noteq> 8 then Inl (CorruptSpool ''request-log spool checkpoint has an invalid length'')
          else Inr (unat (from_le_bytes bytes :: u64)))"

definition persist_checkpoint :: "nat \<Rightarrow> disk \<Rightarrow> disk" where
  "persist_checkpoint offset dk =
     dk\<lparr>dk_checkpoint := Some (to_le_bytes 8 (of_nat offset :: u64)),
        dk_checkpoint_older := dk_checkpoint dk # dk_checkpoint_older dk\<rparr>"

definition sync_directory :: "disk \<Rightarrow> disk" where
  "sync_directory dk = dk\<lparr>dk_checkpoint_older := []\<rparr>"

section \<open>Terminal slots\<close>

datatype save_io = SaveOk | SaveOpenFails | SavePayloadFails nat | SaveHeaderFails nat | SaveSyncFails

definition slot_header :: "(u8 list \<Rightarrow> u32) \<Rightarrow> encoded_request_log \<Rightarrow> u8 list" where
  "slot_header crc r =
     [65, 73, 71, 65] @ to_le_bytes 2 (er_schema_version r) @ to_le_bytes 2 (0 :: u16) @
     to_le_bytes 4 (of_nat (length (er_payload r)) :: u32) @ to_le_bytes 4 (crc (er_payload r))"

definition set_slot :: "uuid \<Rightarrow> u8 list \<Rightarrow> disk \<Rightarrow> disk" where
  "set_slot i content dk = dk\<lparr>dk_slots := hm_insert i content (dk_slots dk)\<rparr>"

definition save_terminal ::
  "('v, 'e) journal_ops \<Rightarrow> (u8 list \<Rightarrow> u32) \<Rightarrow> save_io \<Rightarrow> 'e \<Rightarrow> disk \<Rightarrow> disk \<times> (spool_error + unit)" where
  "save_terminal J crc io e dk =
     (case journal_encode J e of
        Inl err \<Rightarrow> (dk, Inl (CodecError err))
      | Inr r \<Rightarrow>
          if MAX_PAYLOAD_BYTES < length (er_payload r) then (dk, Inl (PayloadTooLarge (length (er_payload r))))
          else
            (case (hm_get (dk_slots dk) (jo_event_id J e), io) of
               (None, _) \<Rightarrow> (dk, Inl IoError)
             | (Some _, SaveOpenFails) \<Rightarrow> (dk, Inl IoError)
             | (Some c, SavePayloadFails k) \<Rightarrow>
                 (set_slot (jo_event_id J e) (overwrite HEADER_BYTES (take k (er_payload r)) c) dk, Inl IoError)
             | (Some c, SaveHeaderFails k) \<Rightarrow>
                 (set_slot (jo_event_id J e)
                    (overwrite 0 (take k (slot_header crc r)) (overwrite HEADER_BYTES (er_payload r) c)) dk, Inl IoError)
             | (Some c, SaveSyncFails) \<Rightarrow>
                 (set_slot (jo_event_id J e)
                    (overwrite 0 (slot_header crc r) (overwrite HEADER_BYTES (er_payload r) c)) dk, Inl IoError)
             | (Some c, SaveOk) \<Rightarrow>
                 (set_slot (jo_event_id J e)
                    (overwrite 0 (slot_header crc r) (overwrite HEADER_BYTES (er_payload r) c)) dk, Inr ())))"

definition read_terminal ::
  "('v, 'e) journal_ops \<Rightarrow> (u8 list \<Rightarrow> u32) \<Rightarrow> disk \<Rightarrow> uuid \<Rightarrow> spool_error + 'e option" where
  "read_terminal J crc dk i =
     (case hm_get (dk_slots dk) i of
        None \<Rightarrow> Inr None
      | Some c \<Rightarrow>
          if length c < HEADER_BYTES \<or> take 4 c \<noteq> [65, 73, 71, 65] then Inr None
          else
            (let len = unat (from_le_bytes (take 4 (drop 8 c)) :: u32)
             in if MAX_PAYLOAD_BYTES < len \<or> take 2 (drop 6 c) \<noteq> [0, 0] then Inr None
                else
                  (let payload = take len (drop HEADER_BYTES c)
                   in if length payload < len \<or> crc payload \<noteq> from_le_bytes (take 4 (drop 12 c)) then Inr None
                      else
                        (case journal_decode J \<lparr>er_request_log_id = i,
                                er_schema_version = from_le_bytes (take 2 (drop 4 c)), er_payload = payload\<rparr> of
                           Inl err \<Rightarrow> Inl (CodecError err)
                         | Inr e \<Rightarrow>
                             if jo_event_id J e \<noteq> i then Inl (CorruptSpool ''admission terminal UUID mismatch'')
                             else Inr (Some e)))))"

datatype retire_io = RetireOk | RetireIntentKept | RetireIntentSyncFails | RetireSlotKept | RetireSlotSyncFails

definition remove_intent :: "uuid \<Rightarrow> disk \<Rightarrow> disk" where
  "remove_intent i dk = dk\<lparr>dk_intents := hm_remove i (dk_intents dk)\<rparr>"

definition remove_slot :: "uuid \<Rightarrow> disk \<Rightarrow> disk" where
  "remove_slot i dk = dk\<lparr>dk_slots := hm_remove i (dk_slots dk)\<rparr>"

definition retire :: "retire_io \<Rightarrow> uuid \<Rightarrow> disk \<Rightarrow> disk \<times> (spool_error + unit)" where
  "retire io i dk =
     (case io of
        RetireIntentKept \<Rightarrow> (dk, Inl IoError)
      | RetireIntentSyncFails \<Rightarrow> (remove_intent i dk, Inl IoError)
      | RetireSlotKept \<Rightarrow> (remove_intent i dk, Inl IoError)
      | RetireSlotSyncFails \<Rightarrow> (remove_slot i (remove_intent i dk), Inl IoError)
      | RetireOk \<Rightarrow> (remove_slot i (remove_intent i dk), Inr ()))"

definition strip_zeros :: "u8 list \<Rightarrow> u8 list" where
  "strip_zeros bs = rev (dropWhile (\<lambda>b. b = 0) (rev bs))"

definition file_charge :: "u8 list option \<Rightarrow> nat \<Rightarrow> nat" where
  "file_charge f retained = (case f of None \<Rightarrow> retained | Some c \<Rightarrow> sat64 (retained + max (length c) 4096))"

definition retain_unknown :: "uuid \<Rightarrow> disk \<times> nat \<Rightarrow> spool_error + (disk \<times> nat)" where
  "retain_unknown i s =
     (case s of (dk, retained) \<Rightarrow>
        let charge = (\<lambda>dk. Inr (dk, file_charge (hm_get (dk_slots dk) i) (file_charge (hm_get (dk_intents dk) i) retained)))
        in (case hm_get (dk_slots dk) i of
              None \<Rightarrow> charge dk
            | Some c \<Rightarrow>
                if HEADER_BYTES + MAX_PAYLOAD_BYTES < length c then
                  Inl (CorruptSpool ''admission slot exceeds size limit'')
                else charge (set_slot i (strip_zeros c) dk)))"

text \<open>Opening the store: the disk it leaves, and the bytes retained for reconciliation, the identifiers that
  stay reserved and the terminal events to replay, or the error.\<close>

fun admissions_scan ::
  "('v, 'e) journal_ops \<Rightarrow> (u8 list \<Rightarrow> u32) \<Rightarrow> uuid list \<Rightarrow> disk \<Rightarrow> nat \<Rightarrow> uuid set \<Rightarrow> 'e list \<Rightarrow>
   disk \<times> (spool_error + (nat \<times> uuid set \<times> 'e list))" where
  "admissions_scan J crc [] dk retained ids recovered = (dk, Inr (retained, ids, recovered))"
| "admissions_scan J crc (i # is) dk retained ids recovered =
     (case read_terminal J crc dk i of
        Inl err \<Rightarrow> (dk, Inl err)
      | Inr (Some e) \<Rightarrow> admissions_scan J crc is dk retained ids (recovered @ [e])
      | Inr None \<Rightarrow>
          (case retain_unknown i (dk, retained) of
             Inl err \<Rightarrow> (dk, Inl err)
           | Inr (dk', retained') \<Rightarrow> admissions_scan J crc is dk' retained' (ids - {i}) recovered))"

definition admission_ids :: "disk \<Rightarrow> uuid set" where
  "admission_ids dk = fst ` set (dk_slots dk) \<union> fst ` set (dk_intents dk)"

definition admissions_open ::
  "('v, 'e) journal_ops \<Rightarrow> (u8 list \<Rightarrow> u32) \<Rightarrow> disk \<Rightarrow> disk \<times> (spool_error + (nat \<times> uuid set \<times> 'e list))" where
  "admissions_open J crc dk =
     admissions_scan J crc (sorted_list_of_set (admission_ids dk)) (sync_directory dk) 0 (admission_ids dk) []"

section \<open>The spool\<close>

record spool =
  sp_disk :: disk
  sp_writer_end :: nat
  sp_failed :: bool
  sp_ids :: "uuid set"
  sp_retained_bytes :: nat
  sp_end_offset :: nat
  sp_checkpoint_offset :: nat
  sp_synced_offset :: nat
  sp_compaction_threshold_bytes :: nat
  sp_max_bytes :: nat
  sp_min_free_bytes :: nat
  sp_capacity_pressure :: bool

definition reserved_bytes :: "spool \<Rightarrow> nat" where
  "reserved_bytes sp = sat64 (sat64 (card (sp_ids sp) * (2 * RESERVATION_BYTES)) + sp_retained_bytes sp)"

definition terminal_headroom :: "spool \<Rightarrow> nat" where
  "terminal_headroom sp = sat64 (card (sp_ids sp) * RESERVATION_BYTES)"

datatype reserve_io = ReserveOk | ReserveSlotFails | ReserveAllocateFails | ReserveIntentFails | ReserveIntentTorn nat | ReserveSyncFails

definition fail :: "spool \<Rightarrow> spool" where
  "fail sp = sp\<lparr>sp_failed := True\<rparr>"

text \<open>\<^verbatim>\<open>AdmissionStore::reserve\<close>; \<open>intent\<close> is the identifier and its JSON text.\<close>

definition reserve :: "reserve_io \<Rightarrow> uuid \<times> u8 list option \<Rightarrow> spool \<Rightarrow> spool \<times> (spool_error + unit)" where
  "reserve io intent sp =
     (case intent of
        (i, None) \<Rightarrow> (sp, Inl (CorruptSpool ''cannot encode request-log intent''))
      | (i, Some bytes) \<Rightarrow>
          if MAX_INTENT_BYTES < length bytes then (sp, Inl (PayloadTooLarge (length bytes)))
          else if i \<in> sp_ids sp then (sp, Inl (CorruptSpool ''duplicate request-log admission UUID''))
          else
            (let sp1 = sp\<lparr>sp_ids := insert i (sp_ids sp)\<rparr>; dk = sp_disk sp
             in if hm_get (dk_slots dk) i \<noteq> None \<or> io = ReserveSlotFails then (sp1, Inl IoError)
                else if io = ReserveAllocateFails then (sp1\<lparr>sp_disk := set_slot i [] dk\<rparr>, Inl IoError)
                else
                  (let dk1 = set_slot i (replicate (HEADER_BYTES + MAX_PAYLOAD_BYTES) 0) dk;
                       write = (\<lambda>b. dk1\<lparr>dk_intents := hm_insert i b (dk_intents dk1)\<rparr>)
                   in if hm_get (dk_intents dk) i \<noteq> None \<or> io = ReserveIntentFails then
                        (sp1\<lparr>sp_disk := dk1\<rparr>, Inl IoError)
                      else
                        (case io of
                           ReserveIntentTorn k \<Rightarrow> (sp1\<lparr>sp_disk := write (take k bytes)\<rparr>, Inl IoError)
                         | ReserveSyncFails \<Rightarrow> (sp1\<lparr>sp_disk := write bytes\<rparr>, Inl IoError)
                         | _ \<Rightarrow> (sp1\<lparr>sp_disk := write bytes\<rparr>, Inr ())))))"

text \<open>\<open>free\<close> is what the file system reports as available space, \<open>None\<close> if asking fails.\<close>

definition spool_admit ::
  "nat option \<Rightarrow> reserve_io \<Rightarrow> uuid \<times> u8 list option \<Rightarrow> spool \<Rightarrow> spool \<times> (spool_error + unit)" where
  "spool_admit free io intent sp =
     (if sp_failed sp then (sp, Inl UnavailableAfterWriteFailure)
      else
        (let used = sat64 (sp_writer_end sp + reserved_bytes sp);
             refuse = (sp\<lparr>sp_capacity_pressure := True\<rparr>, Inl CapacityError);
             admit = (case reserve io intent sp of
                        (sp', Inl err) \<Rightarrow> (fail sp', Inl err)
                      | (sp', Inr u) \<Rightarrow> (sp', Inr u))
         in if sp_max_bytes sp < sat64 (used + 2 * RESERVATION_BYTES) then refuse
            else
              (case free of
                 None \<Rightarrow> (sp, Inl IoError)
               | Some space \<Rightarrow>
                   if space < sat64 (sat64 (sp_min_free_bytes sp + terminal_headroom sp) + 2 * RESERVATION_BYTES)
                   then refuse else admit)))"

record append_io =
  ai_save :: save_io
  ai_write :: "nat option"
  ai_sync :: bool
  ai_retire :: retire_io

definition write_events :: "u8 list \<Rightarrow> disk \<Rightarrow> disk" where
  "write_events bytes dk = dk\<lparr>dk_events := dk_events dk @ bytes\<rparr>"

definition sync_events :: "disk \<Rightarrow> disk" where
  "sync_events dk = dk\<lparr>dk_durable := length (dk_events dk)\<rparr>"

text \<open>Everything after the terminal slot has been saved: the frame, its synchronisation and the
  retirement of the admission.\<close>

definition append_frame ::
  "append_io \<Rightarrow> bool \<Rightarrow> uuid \<Rightarrow> u8 list \<Rightarrow> spool \<Rightarrow> spool \<times> (spool_error + nat)" where
  "append_frame io reserved i frame sp =
     (if sp_failed sp then (sp, Inl UnavailableAfterWriteFailure)
      else if \<not> reserved \<and>
              sp_max_bytes sp < sat64 (sat64 (sp_writer_end sp + reserved_bytes sp) + length frame)
      then (sp, Inl CapacityError)
      else
        (case ai_write io of
           Some k \<Rightarrow> (fail (sp\<lparr>sp_disk := write_events (take k frame) (sp_disk sp)\<rparr>), Inl IoError)
         | None \<Rightarrow>
             (let sp1 = sp\<lparr>sp_disk := write_events frame (sp_disk sp)\<rparr>
              in if 2 ^ 64 \<le> sp_writer_end sp + length frame then (sp1, Inl OffsetOverflow)
                 else
                   (let sp2 = sp1\<lparr>sp_writer_end := sp_writer_end sp + length frame\<rparr>
                    in if reserved \<and> \<not> ai_sync io then (fail sp2, Inl IoError)
                       else
                         (let sp3 = (if reserved then sp2\<lparr>sp_disk := sync_events (sp_disk sp2)\<rparr> else sp2);
                              sp4 = sp3\<lparr>sp_end_offset := sp_writer_end sp3\<rparr>
                          in if \<not> reserved then (sp4, Inr (length frame))
                             else
                               (case retire (ai_retire io) i (sp_disk sp4) of
                                  (dk, Inl err) \<Rightarrow> (fail (sp4\<lparr>sp_disk := dk\<rparr>), Inl err)
                                | (dk, Inr _) \<Rightarrow>
                                    (sp4\<lparr>sp_disk := dk, sp_ids := sp_ids sp4 - {i}\<rparr>, Inr (length frame))))))))"

definition spool_append ::
  "('v, 'e) journal_ops \<Rightarrow> (u8 list \<Rightarrow> u32) \<Rightarrow> append_io \<Rightarrow> 'e \<Rightarrow> spool \<Rightarrow> spool \<times> (spool_error + nat)" where
  "spool_append J crc io e sp =
     (case journal_encode J e of
        Inl err \<Rightarrow> (sp, Inl (CodecError err))
      | Inr r \<Rightarrow>
          (case encode_frame crc r of
             Inl err \<Rightarrow> (sp, Inl err)
           | Inr frame \<Rightarrow>
               if jo_event_id J e \<in> sp_ids sp then
                 (case save_terminal J crc (ai_save io) e (sp_disk sp) of
                    (dk, Inl err) \<Rightarrow> (fail (sp\<lparr>sp_disk := dk\<rparr>), Inl err)
                  | (dk, Inr _) \<Rightarrow> append_frame io True (jo_event_id J e) frame (sp\<lparr>sp_disk := dk\<rparr>))
               else append_frame io False (jo_event_id J e) frame sp))"

definition spool_checkpoint :: "bool \<Rightarrow> nat \<Rightarrow> spool \<Rightarrow> spool \<times> (spool_error + unit)" where
  "spool_checkpoint persisted offset sp =
     (if offset < sp_checkpoint_offset sp \<or> sp_end_offset sp < offset then
        (sp, Inl (InvalidCheckpoint offset (sp_end_offset sp)))
      else if \<not> persisted then (sp, Inl IoError)
      else (sp\<lparr>sp_disk := persist_checkpoint offset (sp_disk sp), sp_checkpoint_offset := offset\<rparr>, Inr ()))"

definition spool_sync_data :: "bool \<Rightarrow> spool \<Rightarrow> spool \<times> (spool_error + unit)" where
  "spool_sync_data synced sp =
     (let target = sp_end_offset sp
      in if target \<le> sp_synced_offset sp then (sp, Inr ())
         else if target \<le> sp_checkpoint_offset sp then (sp\<lparr>sp_synced_offset := target\<rparr>, Inr ())
         else if \<not> synced then (fail sp, Inl IoError)
         else (sp\<lparr>sp_disk := sync_events (sp_disk sp), sp_synced_offset := target\<rparr>, Inr ()))"

datatype compact_io =
  CompactOk | CompactSyncFails | CompactCheckpointFails | CompactDirectoryFails | CompactTruncateFails | CompactFinalSyncFails

text \<open>The outcomes of a compaction, by the call that fails. A loss of power that undoes the truncation before it was
  synchronised leaves the disk of \<open>CompactTruncateFails\<close>, so it is an outcome of its own. A truncation
  that was not synchronised and is undone only after a later process has written to the file again is not covered.\<close>

definition compact_disk :: "compact_io \<Rightarrow> disk \<Rightarrow> disk \<times> bool" where
  "compact_disk io dk =
     (let synced = sync_events dk;
          zeroed = persist_checkpoint 0 synced;
          settled = sync_directory zeroed;
          truncated = settled\<lparr>dk_events := [], dk_durable := 0\<rparr>
      in (case io of
            CompactSyncFails \<Rightarrow> (dk, False)
          | CompactCheckpointFails \<Rightarrow> (synced, False)
          | CompactDirectoryFails \<Rightarrow> (zeroed, False)
          | CompactTruncateFails \<Rightarrow> (settled, False)
          | CompactFinalSyncFails \<Rightarrow> (truncated, False)
          | CompactOk \<Rightarrow> (truncated, True)))"

definition compact_if_drained :: "compact_io \<Rightarrow> spool \<Rightarrow> spool \<times> (spool_error + bool)" where
  "compact_if_drained io sp =
     (let due = (\<lambda>end. \<not> (\<not> sp_capacity_pressure sp \<and> end < sp_compaction_threshold_bytes sp))
      in if sp_checkpoint_offset sp \<noteq> sp_end_offset sp \<or> sp_end_offset sp = 0 \<or> \<not> due (sp_end_offset sp)
         then (sp, Inr False)
         else if sp_failed sp then (sp, Inl UnavailableAfterWriteFailure)
         else if sp_checkpoint_offset sp \<noteq> sp_writer_end sp \<or> \<not> due (sp_writer_end sp) then (sp, Inr False)
         else
           (case compact_disk io (sp_disk sp) of
              (dk, False) \<Rightarrow> (fail (sp\<lparr>sp_disk := dk\<rparr>), Inl IoError)
            | (dk, True) \<Rightarrow>
                (sp\<lparr>sp_disk := dk, sp_writer_end := 0, sp_checkpoint_offset := 0, sp_end_offset := 0,
                    sp_synced_offset := 0, sp_capacity_pressure := False\<rparr>, Inr True)))"

definition pending_bytes :: "spool \<Rightarrow> nat" where
  "pending_bytes sp = sp_end_offset sp - sp_checkpoint_offset sp"

section \<open>Opening the spool\<close>

fun replay_recovered ::
  "('v, 'e) journal_ops \<Rightarrow> (u8 list \<Rightarrow> u32) \<Rightarrow> append_io list \<Rightarrow> 'e list \<Rightarrow> spool \<Rightarrow> spool \<times> (spool_error + unit)" where
  "replay_recovered J crc ios [] sp = (sp, Inr ())"
| "replay_recovered J crc ios (e # es) sp =
     (case spool_append J crc (case ios of [] \<Rightarrow> \<lparr>ai_save = SaveOk, ai_write = None, ai_sync = True, ai_retire = RetireOk\<rparr>
                                | io # _ \<Rightarrow> io) e sp of
        (sp', Inl err) \<Rightarrow> (sp', Inl err)
      | (sp', Inr _) \<Rightarrow> replay_recovered J crc (tl ios) es sp')"

text \<open>The disk an attempt leaves, and the spool or the error. The repaired journal is synchronised.\<close>

definition opened :: "disk \<Rightarrow> nat \<Rightarrow> nat \<Rightarrow> nat \<Rightarrow> uuid set \<Rightarrow> nat \<Rightarrow> nat \<Rightarrow> nat \<Rightarrow> spool" where
  "opened dk end_offset cp retained ids threshold max_bytes min_free =
     \<lparr>sp_disk = dk, sp_writer_end = end_offset, sp_failed = False, sp_ids = ids, sp_retained_bytes = retained,
      sp_end_offset = end_offset, sp_checkpoint_offset = cp, sp_synced_offset = end_offset,
      sp_compaction_threshold_bytes = threshold, sp_max_bytes = max_bytes, sp_min_free_bytes = min_free,
      sp_capacity_pressure = False\<rparr>"

definition open_with_limits ::
  "('v, 'e) journal_ops \<Rightarrow> (u8 list \<Rightarrow> u32) \<Rightarrow> append_io list \<Rightarrow> nat \<Rightarrow> nat \<Rightarrow> nat \<Rightarrow> disk \<Rightarrow>
   disk \<times> (spool_error + spool)" where
  "open_with_limits J crc ios threshold max_bytes min_free dk =
     (case read_checkpoint dk of
        Inl err \<Rightarrow> (dk, Inl err)
      | Inr cp \<Rightarrow>
          (case scan_and_repair crc (dk_events dk) cp of
             Inl err \<Rightarrow> (dk, Inl err)
           | Inr (file', scan) \<Rightarrow>
               (let dk1 = (if file' = dk_events dk then dk
                           else dk\<lparr>dk_events := file', dk_durable := length file'\<rparr>)
                in if \<not> sc_checkpoint_is_boundary scan then (dk1, Inl (InvalidCheckpoint cp (sc_end_offset scan)))
                   else
                     (case admissions_open J crc dk1 of
                        (dk2, Inl err) \<Rightarrow> (dk2, Inl err)
                      | (dk2, Inr (retained, ids, recovered)) \<Rightarrow>
                          (case replay_recovered J crc ios recovered
                                  (opened dk2 (sc_end_offset scan) cp retained ids threshold max_bytes min_free) of
                             (sp, Inl err) \<Rightarrow> (sp_disk sp, Inl err)
                           | (sp, Inr _) \<Rightarrow> (sp_disk sp, Inr sp))))))"

section \<open>Ingestion\<close>

text \<open>The ingestion worker runs beside the appends, so its round is a machine with one step per call:
  reading a batch and handing it to the database, the checkpoint, the compaction. The reader stands at the
  checkpoint whenever a round begins: it is reset there after a failure and otherwise has moved on with the
  checkpoint. \<open>accepted\<close> is whether the database reported that it copied every row; the records it then holds
  are the second result.\<close>

datatype ingest_phase = Reading | Accepted nat | Compacting | Stopped

definition ingest_step ::
  "(u8 list \<Rightarrow> u32) \<Rightarrow> nat \<Rightarrow> bool \<Rightarrow> bool \<Rightarrow> compact_io \<Rightarrow> ingest_phase \<times> spool \<Rightarrow>
   (ingest_phase \<times> spool) \<times> encoded_request_log list" where
  "ingest_step crc batch_size accepted persisted cio s =
     (case s of
        (Reading, sp) \<Rightarrow>
          (case read_batch crc (dk_events (sp_disk sp)) (sp_end_offset sp) (sp_checkpoint_offset sp) batch_size of
             Inl err \<Rightarrow> ((Stopped, sp), [])
           | Inr batch \<Rightarrow>
               if rb_records batch = [] then ((Compacting, sp), [])
               else if accepted then ((Accepted (rb_end_offset batch), sp), rb_records batch)
               else ((Reading, sp), []))
      | (Accepted offset, sp) \<Rightarrow>
          (case spool_checkpoint persisted offset sp of
             (sp', Inl err) \<Rightarrow> ((Reading, sp'), [])
           | (sp', Inr _) \<Rightarrow> ((Compacting, sp'), []))
      | (Compacting, sp) \<Rightarrow> ((Reading, fst (compact_if_drained cio sp)), [])
      | (Stopped, sp) \<Rightarrow> ((Stopped, sp), []))"

section \<open>Capacity\<close>

text \<open>What the journal, a terminal slot for every admitted request and the files retained for reconciliation take up.
  Until a failure, the journal and two reservations for every admitted request stay within a bound that is at least
  the configured size, and whatever fails the journal and the slots do.\<close>

definition spool_usage :: "spool \<Rightarrow> nat" where
  "spool_usage sp = length (dk_events (sp_disk sp)) + card (sp_ids sp) * RESERVATION_BYTES + sp_retained_bytes sp"

definition capacity_ok :: "nat \<Rightarrow> spool \<Rightarrow> bool" where
  "capacity_ok B sp \<longleftrightarrow>
     finite (sp_ids sp) \<and> sp_max_bytes sp \<le> B \<and> B < 2 ^ 64 - 1 \<and>
     (\<not> sp_failed sp \<longrightarrow> sp_writer_end sp = length (dk_events (sp_disk sp)) \<and>
        length (dk_events (sp_disk sp)) + card (sp_ids sp) * (2 * RESERVATION_BYTES) + sp_retained_bytes sp \<le> B) \<and>
     length (dk_events (sp_disk sp)) + card (sp_ids sp) * RESERVATION_BYTES + sp_retained_bytes sp \<le> B"

lemma sat64_le: "sat64 n \<le> m \<Longrightarrow> m < 2 ^ 64 - 1 \<Longrightarrow> n \<le> m"
  by (simp add: sat64_def min_def split: if_splits)

lemma sat64_sum_le:
  assumes "sat64 (sat64 (a + sat64 (sat64 b + c)) + d) \<le> m" and "m < 2 ^ 64 - 1"
  shows "a + b + c + d \<le> m"
proof -
  have 1: "sat64 (a + sat64 (sat64 b + c)) + d \<le> m" using sat64_le [OF assms] .
  then have 2: "a + sat64 (sat64 b + c) \<le> m" using sat64_le assms(2) by (metis add_leD1)
  then have 3: "sat64 b + c \<le> m" using sat64_le assms(2) by (metis add_leD2)
  then have "b \<le> m" using sat64_le assms(2) by (metis add_leD1)
  then have "sat64 b = b" "sat64 (sat64 b + c) = sat64 b + c" "sat64 (a + sat64 (sat64 b + c)) = a + sat64 (sat64 b + c)"
    using 2 3 assms(2) by (simp_all add: sat64_def)
  then show ?thesis using 1 by simp
qed

lemma reserve_capacity:
  assumes "reserve io intent sp = (sp', res)"
  shows "sp_ids sp' = sp_ids sp \<or> sp_ids sp' = insert (fst intent) (sp_ids sp)"
    and "dk_events (sp_disk sp') = dk_events (sp_disk sp)" and "sp_writer_end sp' = sp_writer_end sp"
    and "sp_retained_bytes sp' = sp_retained_bytes sp" and "sp_max_bytes sp' = sp_max_bytes sp" and "sp_failed sp' = sp_failed sp"
  using assms
  by (auto simp: reserve_def Let_def set_slot_def split: prod.splits option.splits if_splits reserve_io.splits)

lemma capacity_okI:
  assumes "finite (sp_ids sp)" "sp_max_bytes sp \<le> B" "B < 2 ^ 64 - 1" "sp_writer_end sp = length (dk_events (sp_disk sp))"
    "length (dk_events (sp_disk sp)) + card (sp_ids sp) * (2 * RESERVATION_BYTES) + sp_retained_bytes sp \<le> B"
  shows "capacity_ok B sp"
proof -
  have "card (sp_ids sp) * RESERVATION_BYTES \<le> card (sp_ids sp) * (2 * RESERVATION_BYTES)" by simp
  then have "length (dk_events (sp_disk sp)) + card (sp_ids sp) * RESERVATION_BYTES + sp_retained_bytes sp \<le> B"
    using assms(5) by linarith
  with assms show ?thesis unfolding capacity_ok_def by blast
qed

lemma capacity_fail: "capacity_ok B sp \<Longrightarrow> capacity_ok B (fail sp)"
  by (simp add: capacity_ok_def fail_def)

lemma admit_outcomes:
  "(case free of None \<Rightarrow> (sp, Inl IoError) | Some space \<Rightarrow>
      if short space then (sp2, Inl CapacityError)
      else (case r1 of Inl err \<Rightarrow> (sp3, Inl err) | Inr u \<Rightarrow> (sp1, Inr u))) = (sp', res :: spool_error + unit) \<Longrightarrow>
   (sp' = sp \<or> sp' = sp2) \<and> res \<noteq> Inr () \<or> sp' = sp1 \<or> sp' = sp3"
  by (auto split: option.splits sum.splits if_splits)

lemma spool_admit_cases:
  assumes ad: "spool_admit free io intent sp = (sp', res)"
  obtains (same) "sp' = sp" "res \<noteq> Inr ()" | (press) "sp' = sp\<lparr>sp_capacity_pressure := True\<rparr>" "res \<noteq> Inr ()"
    | (res) sp1 r1 where "reserve io intent sp = (sp1, r1)" "sp' = sp1 \<or> sp' = fail sp1" "\<not> sp_failed sp"
        "sat64 (sat64 (sp_writer_end sp + reserved_bytes sp) + 2 * RESERVATION_BYTES) \<le> sp_max_bytes sp"
proof (cases "sp_failed sp \<or> sp_max_bytes sp < sat64 (sat64 (sp_writer_end sp + reserved_bytes sp) + 2 * RESERVATION_BYTES)")
  case True
  then have "(sp' = sp \<or> sp' = sp\<lparr>sp_capacity_pressure := True\<rparr>) \<and> res \<noteq> Inr ()"
    using ad unfolding spool_admit_def Let_def by (cases "sp_failed sp") auto
  then show thesis using same press by blast
next
  case False
  then have nf: "\<not> sp_failed sp"
    and le: "sat64 (sat64 (sp_writer_end sp + reserved_bytes sp) + 2 * RESERVATION_BYTES) \<le> sp_max_bytes sp" by simp_all
  obtain sp1 r1 where rs: "reserve io intent sp = (sp1, r1)" by fastforce
  have no: "(sp_max_bytes sp < sat64 (sat64 (sp_writer_end sp + reserved_bytes sp) + 2 * RESERVATION_BYTES)) = False"
    "sp_failed sp = False" using nf le by simp_all
  define short where "short space \<longleftrightarrow>
    space < sat64 (sat64 (sp_min_free_bytes sp + terminal_headroom sp) + 2 * RESERVATION_BYTES)" for space
  have "(case free of None \<Rightarrow> (sp, Inl IoError) | Some space \<Rightarrow>
      if short space then (sp\<lparr>sp_capacity_pressure := True\<rparr>, Inl CapacityError)
      else (case r1 of Inl err \<Rightarrow> (fail sp1, Inl err) | Inr u \<Rightarrow> (sp1, Inr u))) = (sp', res)"
    using ad unfolding spool_admit_def Let_def no if_False rs prod.case short_def .
  from admit_outcomes [OF this] show thesis using same press res [OF rs _ nf le] by blast
qed

text \<open>The room that admission checks for, and what a reservation takes of it.\<close>

lemma admit_room:
  assumes ok: "capacity_ok B sp" and rs: "reserve io intent sp = (sp1, r1)" and nf: "\<not> sp_failed sp"
    and le: "sat64 (sat64 (sp_writer_end sp + reserved_bytes sp) + 2 * RESERVATION_BYTES) \<le> sp_max_bytes sp"
  shows "finite (sp_ids sp1)" and "sp_writer_end sp1 = length (dk_events (sp_disk sp1))" and "sp_max_bytes sp1 = sp_max_bytes sp"
    and "length (dk_events (sp_disk sp1)) + card (sp_ids sp1) * (2 * RESERVATION_BYTES) + sp_retained_bytes sp1 \<le> sp_max_bytes sp"
proof -
  note r = reserve_capacity [OF rs]
  have m: "sp_max_bytes sp \<le> B" "B < 2 ^ 64 - 1" "finite (sp_ids sp)" "sp_writer_end sp = length (dk_events (sp_disk sp))"
    using ok nf by (simp_all add: capacity_ok_def)
  from m(1,2) have "sp_max_bytes sp < 2 ^ 64 - 1" by linarith
  from sat64_sum_le [OF le [unfolded reserved_bytes_def] this]
  have room: "sp_writer_end sp + card (sp_ids sp) * (2 * RESERVATION_BYTES) + sp_retained_bytes sp + 2 * RESERVATION_BYTES \<le> sp_max_bytes sp" .
  have "card (sp_ids sp1) \<le> Suc (card (sp_ids sp))" using r(1) m(3) by (auto simp: card_insert_if)
  then have "card (sp_ids sp1) * (2 * RESERVATION_BYTES) \<le> Suc (card (sp_ids sp)) * (2 * RESERVATION_BYTES)" by (rule mult_le_mono1)
  then show "length (dk_events (sp_disk sp1)) + card (sp_ids sp1) * (2 * RESERVATION_BYTES) + sp_retained_bytes sp1 \<le> sp_max_bytes sp"
    using r room m(4) by simp
  show "finite (sp_ids sp1)" "sp_writer_end sp1 = length (dk_events (sp_disk sp1))" "sp_max_bytes sp1 = sp_max_bytes sp"
    using r m by auto
qed

lemma admit_capacity:
  assumes ok: "capacity_ok B sp" and ad: "spool_admit free io intent sp = (sp', res)"
  shows "capacity_ok B sp'"
  using ad
proof (cases rule: spool_admit_cases)
  case (res sp1 r1)
  note room = admit_room [OF ok res(1,3,4)]
  have "sp_max_bytes sp \<le> B" "B < 2 ^ 64 - 1" using ok by (simp_all add: capacity_ok_def)
  then have "capacity_ok B sp1" using room by (intro capacity_okI) auto
  then show ?thesis using res(2) capacity_fail by auto
qed (use ok in \<open>simp_all add: capacity_ok_def\<close>)

lemma admit_within:
  assumes ok: "capacity_ok B sp" and ad: "spool_admit free io intent sp = (sp', Inr ())"
  shows "spool_usage sp' \<le> sp_max_bytes sp"
  using ad
proof (cases rule: spool_admit_cases)
  case (res sp1 r1)
  have "card (sp_ids sp1) * RESERVATION_BYTES \<le> card (sp_ids sp1) * (2 * RESERVATION_BYTES)" by simp
  then have "spool_usage sp1 \<le> sp_max_bytes sp"
    using admit_room(4) [OF ok res(1,3,4)] unfolding spool_usage_def by linarith
  then show ?thesis using res(2) by (auto simp: spool_usage_def fail_def)
qed simp_all

lemma frame_fits: "encode_frame crc r = Inr frame \<Longrightarrow> length frame \<le> RESERVATION_BYTES"
  by (auto simp: encode_frame_def RESERVATION_BYTES_def HEADER_BYTES_def MAX_INTENT_BYTES_def FRAME_HEADER_BYTES_def split: if_splits)

lemma retire_events: "retire io i dk = (dk', res) \<Longrightarrow> dk_events dk' = dk_events dk"
  by (auto simp: retire_def remove_intent_def remove_slot_def split: retire_io.splits)

lemma save_events: "save_terminal J crc io e dk = (dk', res) \<Longrightarrow> dk_events dk' = dk_events dk"
  by (auto simp: save_terminal_def set_slot_def split: sum.splits if_splits option.splits save_io.splits)

lemma capacity_disk: "capacity_ok B sp \<Longrightarrow> dk_events dk = dk_events (sp_disk sp) \<Longrightarrow> capacity_ok B (sp\<lparr>sp_disk := dk\<rparr>)"
  by (simp add: capacity_ok_def)

text \<open>Room for one more frame, with or without its reservation.\<close>

definition room_for :: "nat \<Rightarrow> bool \<Rightarrow> uuid \<Rightarrow> nat \<Rightarrow> spool \<Rightarrow> bool" where
  "room_for B reserved i n sp \<longleftrightarrow>
     length (dk_events (sp_disk sp)) + n + card (sp_ids sp) * RESERVATION_BYTES + sp_retained_bytes sp \<le> B \<and>
     length (dk_events (sp_disk sp)) + n + card (if reserved then sp_ids sp - {i} else sp_ids sp) * (2 * RESERVATION_BYTES) +
       sp_retained_bytes sp \<le> B"

lemma append_room:
  assumes ok: "capacity_ok B sp" and nf: "\<not> sp_failed sp" and fr: "n \<le> RESERVATION_BYTES"
    and res: "reserved \<Longrightarrow> i \<in> sp_ids sp"
    and chk: "\<not> reserved \<Longrightarrow> sat64 (sat64 (sp_writer_end sp + reserved_bytes sp) + n) \<le> sp_max_bytes sp"
  shows "room_for B reserved i n sp"
proof -
  have c: "finite (sp_ids sp)" "sp_max_bytes sp \<le> B" "B < 2 ^ 64 - 1" "sp_writer_end sp = length (dk_events (sp_disk sp))"
    "length (dk_events (sp_disk sp)) + card (sp_ids sp) * (2 * RESERVATION_BYTES) + sp_retained_bytes sp \<le> B"
    using ok nf unfolding capacity_ok_def by blast+
  have m: "sp_max_bytes sp < 2 ^ 64 - 1" using c(2,3) by linarith
  show ?thesis
  proof (cases reserved)
    case True
    then have "card (sp_ids sp) = Suc (card (sp_ids sp - {i}))" using res c(1) by (metis card_Suc_Diff1)
    then have "card (sp_ids sp) * RESERVATION_BYTES = card (sp_ids sp - {i}) * RESERVATION_BYTES + RESERVATION_BYTES"
      by simp
    then show ?thesis using c(5) fr True unfolding room_for_def by simp
  next
    case False
    from sat64_sum_le [OF chk [OF False, unfolded reserved_bytes_def] m] c(2,4) False show ?thesis
      unfolding room_for_def by simp
  qed
qed

lemma append_frame_capacity:
  assumes ok: "capacity_ok B sp" and fr: "length frame \<le> RESERVATION_BYTES"
    and af: "append_frame io reserved i frame sp = (sp', res)" and m: "reserved \<longleftrightarrow> i \<in> sp_ids sp"
  shows "capacity_ok B sp'" and "reserved \<Longrightarrow> res \<noteq> Inl CapacityError"
proof -
  have c: "finite (sp_ids sp)" "sp_max_bytes sp \<le> B" "B < 2 ^ 64 - 1" using ok by (simp_all add: capacity_ok_def)
  have "capacity_ok B sp' \<and> (reserved \<longrightarrow> res \<noteq> Inl CapacityError)"
  proof (cases "sp_failed sp \<or> \<not> reserved \<and> sp_max_bytes sp < sat64 (sat64 (sp_writer_end sp + reserved_bytes sp) + length frame)")
    case True
    then show ?thesis using af ok by (auto simp: append_frame_def split: if_splits)
  next
    case False
    then have nf: "\<not> sp_failed sp" by simp
    have w: "sp_writer_end sp = length (dk_events (sp_disk sp))" using ok nf by (simp add: capacity_ok_def)
    have room: "room_for B reserved i (length frame) sp"
      by (rule append_room [OF ok nf fr]) (use False m in auto)
    have torn: "capacity_ok B (fail (sp\<lparr>sp_disk := write_events (take k frame) (sp_disk sp)\<rparr>))" for k
      using room c by (auto simp: capacity_ok_def room_for_def fail_def write_events_def min_def)
    have failed: "capacity_ok B sp2" if "sp_failed sp2" "sp_ids sp2 = sp_ids sp" "sp_max_bytes sp2 = sp_max_bytes sp"
      "sp_retained_bytes sp2 = sp_retained_bytes sp" "dk_events (sp_disk sp2) = dk_events (sp_disk sp) @ frame" for sp2
      using room c that by (simp add: capacity_ok_def room_for_def)
    have fits: "capacity_ok B sp2" if "sp_ids sp2 = (if reserved then sp_ids sp - {i} else sp_ids sp)" "sp_max_bytes sp2 = sp_max_bytes sp"
      "sp_retained_bytes sp2 = sp_retained_bytes sp" "dk_events (sp_disk sp2) = dk_events (sp_disk sp) @ frame"
      "sp_writer_end sp2 = length (dk_events (sp_disk sp)) + length frame" for sp2
      using room c that by (intro capacity_okI) (simp_all add: room_for_def)
    have small: "sp_writer_end sp + length frame < 2 ^ 64" using room c(3) w unfolding room_for_def by linarith
    show ?thesis
    proof (cases "ai_write io")
      case (Some k)
      then have "sp' = fail (sp\<lparr>sp_disk := write_events (take k frame) (sp_disk sp)\<rparr>)" "res = Inl IoError"
        using af False by (auto simp: append_frame_def)
      then show ?thesis using torn by simp
    next
      case None
      show ?thesis
      proof (cases "reserved \<and> ai_sync io")
        case sy: True
        let ?sp = "sp\<lparr>sp_disk := sync_events (write_events frame (sp_disk sp)), sp_writer_end := sp_writer_end sp + length frame,
          sp_end_offset := sp_writer_end sp + length frame\<rparr>"
        obtain dk r where rt: "retire (ai_retire io) i (sync_events (write_events frame (sp_disk sp))) = (dk, r)" by fastforce
        have ev: "dk_events dk = dk_events (sp_disk sp) @ frame" using retire_events [OF rt] by (simp add: sync_events_def write_events_def)
        show ?thesis
        proof (cases r)
          case (Inl err)
          then have "sp' = fail (?sp\<lparr>sp_disk := dk\<rparr>)" "res = Inl err"
            using af False None sy small rt by (auto simp: append_frame_def Let_def not_le)
          moreover have "err \<noteq> CapacityError" using rt Inl by (auto simp: retire_def split: retire_io.splits)
          ultimately show ?thesis using failed [of sp'] ev by (simp add: fail_def)
        next
          case (Inr u)
          then have "sp' = ?sp\<lparr>sp_disk := dk, sp_ids := sp_ids sp - {i}\<rparr>" "res = Inr (length frame)"
            using af False None sy small rt by (auto simp: append_frame_def Let_def not_le)
          then show ?thesis using fits [of sp'] ev sy w by simp
        qed
      next
        case ns: False
        show ?thesis
        proof (cases reserved)
          case True
          then have "sp' = fail (sp\<lparr>sp_disk := write_events frame (sp_disk sp), sp_writer_end := sp_writer_end sp + length frame\<rparr>)"
            "res = Inl IoError" using af False None ns small by (auto simp: append_frame_def Let_def not_le)
          then show ?thesis using failed [of sp'] by (simp add: fail_def write_events_def)
        next
          case nr: False
          then have "sp' = sp\<lparr>sp_disk := write_events frame (sp_disk sp), sp_writer_end := sp_writer_end sp + length frame,
            sp_end_offset := sp_writer_end sp + length frame\<rparr>"
            using af False None small by (auto simp: append_frame_def Let_def not_le)
          then show ?thesis using fits [of sp'] nr w by (simp add: write_events_def)
        qed
      qed
    qed
  qed
  then show "capacity_ok B sp'" "reserved \<Longrightarrow> res \<noteq> Inl CapacityError" by blast+
qed

lemma append_capacity:
  assumes ok: "capacity_ok B sp" and ap: "spool_append J crc io e sp = (sp', res)"
  shows "capacity_ok B sp'" and "jo_event_id J e \<in> sp_ids sp \<Longrightarrow> res \<noteq> Inl CapacityError"
proof -
  let ?i = "jo_event_id J e"
  have "capacity_ok B sp' \<and> (?i \<in> sp_ids sp \<longrightarrow> res \<noteq> Inl CapacityError)"
  proof (cases "\<exists>r frame. journal_encode J e = Inr r \<and> encode_frame crc r = Inr frame")
    case False
    then show ?thesis using ap ok by (auto simp: spool_append_def encode_frame_def split: sum.splits if_splits)
  next
    case True
    then obtain r frame where r: "journal_encode J e = Inr r" "encode_frame crc r = Inr frame" by blast
    note fr = frame_fits [OF r(2)]
    show ?thesis
    proof (cases "?i \<in> sp_ids sp")
      case False
      then have af: "append_frame io False ?i frame sp = (sp', res)" using ap r by (simp add: spool_append_def)
      then show ?thesis using append_frame_capacity [OF ok fr af] False by simp
    next
      case m: True
      obtain dk sv where sv: "save_terminal J crc (ai_save io) e (sp_disk sp) = (dk, sv)" by fastforce
      have ok': "capacity_ok B (sp\<lparr>sp_disk := dk\<rparr>)" by (rule capacity_disk [OF ok save_events [OF sv]])
      show ?thesis
      proof (cases sv)
        case (Inl err)
        then have "sp' = fail (sp\<lparr>sp_disk := dk\<rparr>)" "res = Inl err" using ap r m sv by (simp_all add: spool_append_def)
        moreover have "err \<noteq> CapacityError"
          using sv Inl by (auto simp: save_terminal_def split: sum.splits if_splits option.splits save_io.splits)
        ultimately show ?thesis using capacity_fail [OF ok'] by simp
      next
        case (Inr u)
        then have af: "append_frame io True ?i frame (sp\<lparr>sp_disk := dk\<rparr>) = (sp', res)"
          using ap r m sv by (simp add: spool_append_def)
        then show ?thesis using append_frame_capacity [OF ok' fr af] m by simp
      qed
    qed
  qed
  then show "capacity_ok B sp'" "?i \<in> sp_ids sp \<Longrightarrow> res \<noteq> Inl CapacityError" by blast+
qed

lemma compact_capacity:
  assumes ok: "capacity_ok B sp" and cp: "compact_if_drained cio sp = (sp', res)"
  shows "capacity_ok B sp'"
proof (cases "sp' = sp")
  case True
  then show ?thesis using ok by simp
next
  case False
  obtain dk b where dk: "compact_disk cio (sp_disk sp) = (dk, b)" by fastforce
  have c: "finite (sp_ids sp)" "sp_max_bytes sp \<le> B" "B < 2 ^ 64 - 1"
    "length (dk_events (sp_disk sp)) + card (sp_ids sp) * RESERVATION_BYTES + sp_retained_bytes sp \<le> B"
    using ok unfolding capacity_ok_def by blast+
  have ev: "dk_events dk = dk_events (sp_disk sp) \<or> dk_events dk = []" and empty: "b \<Longrightarrow> dk_events dk = []"
    using dk by (auto simp: compact_disk_def Let_def sync_events_def persist_checkpoint_def sync_directory_def split: compact_io.splits)
  have nf: "\<not> sp_failed sp" using cp False by (auto simp: compact_if_drained_def Let_def split: if_splits)
  show ?thesis
  proof (cases b)
    case b: False
    then have "sp' = fail (sp\<lparr>sp_disk := dk\<rparr>)"
      using cp False dk nf by (auto simp: compact_if_drained_def Let_def split: if_splits)
    then show ?thesis using c ev by (auto simp: capacity_ok_def fail_def)
  next
    case True
    then have sp': "sp' = sp\<lparr>sp_disk := dk, sp_writer_end := 0, sp_checkpoint_offset := 0, sp_end_offset := 0,
        sp_synced_offset := 0, sp_capacity_pressure := False\<rparr>"
      using cp False dk nf by (auto simp: compact_if_drained_def Let_def split: if_splits)
    have "card (sp_ids sp) * (2 * RESERVATION_BYTES) + sp_retained_bytes sp \<le> B"
      using ok nf unfolding capacity_ok_def by simp
    then show ?thesis using c empty [OF True] by (intro capacity_okI) (simp_all add: sp')
  qed
qed

lemma checkpoint_capacity: "capacity_ok B sp \<Longrightarrow> spool_checkpoint p off sp = (sp', res) \<Longrightarrow> capacity_ok B sp'"
  by (auto simp: spool_checkpoint_def capacity_ok_def persist_checkpoint_def split: if_splits)

lemma sync_capacity: "capacity_ok B sp \<Longrightarrow> spool_sync_data ok sp = (sp', res) \<Longrightarrow> capacity_ok B sp'"
  by (auto simp: spool_sync_data_def Let_def capacity_ok_def sync_events_def fail_def split: if_splits)

lemma ingest_capacity:
  assumes ok: "capacity_ok B sp" and st: "ingest_step crc n accepted persisted cio (ph, sp) = ((ph', sp'), rs)"
  shows "capacity_ok B sp'"
proof (cases ph)
  case Reading
  then have "sp' = sp" using st by (auto simp: ingest_step_def split: sum.splits if_splits)
  then show ?thesis using ok by simp
next
  case (Accepted off)
  obtain sp1 r where c: "spool_checkpoint persisted off sp = (sp1, r)" by fastforce
  then have "sp' = sp1" using st Accepted by (cases r) (simp_all add: ingest_step_def)
  then show ?thesis using checkpoint_capacity [OF ok c] by simp
next
  case Compacting
  then have "sp' = fst (compact_if_drained cio sp)" using st by (simp add: ingest_step_def)
  then show ?thesis using compact_capacity [OF ok] by (metis prod.collapse)
next
  case Stopped
  then show ?thesis using st ok by (simp add: ingest_step_def)
qed

section \<open>The spool that opening returns\<close>

text \<open>Every recovered event has been appended and its admission retired, so no request is admitted.\<close>

lemma append_success:
  assumes "spool_append J crc io e sp = (sp', Inr n)"
  shows "\<not> sp_failed sp'" and "sp_ids sp' = sp_ids sp - {jo_event_id J e}"
    and "sp_max_bytes sp' = sp_max_bytes sp" 
    and "sp_writer_end sp = length (dk_events (sp_disk sp)) \<Longrightarrow> sp_writer_end sp' = length (dk_events (sp_disk sp'))"
proof -
  have fr: "\<not> sp_failed sp' \<and> sp_ids sp' = sp_ids sp1 - {i} \<and> sp_max_bytes sp' = sp_max_bytes sp1 \<and>
      (sp_writer_end sp1 = length (dk_events (sp_disk sp1)) \<longrightarrow> sp_writer_end sp' = length (dk_events (sp_disk sp')))"
    if "append_frame io reserved i frame sp1 = (sp', Inr n)" "reserved \<longleftrightarrow> i \<in> sp_ids sp1" for reserved i frame sp1
    using that by (auto simp: append_frame_def Let_def write_events_def sync_events_def
        split: if_splits option.splits prod.splits sum.splits dest!: retire_events)
  from assms obtain r frame where r: "journal_encode J e = Inr r" "encode_frame crc r = Inr frame"
    by (auto simp: spool_append_def split: sum.splits)
  show "\<not> sp_failed sp'" "sp_ids sp' = sp_ids sp - {jo_event_id J e}" "sp_max_bytes sp' = sp_max_bytes sp"
    "sp_writer_end sp = length (dk_events (sp_disk sp)) \<Longrightarrow> sp_writer_end sp' = length (dk_events (sp_disk sp'))"
    using assms r fr [of "jo_event_id J e \<in> sp_ids sp" "jo_event_id J e" frame]
    by (auto simp: spool_append_def split: if_splits prod.splits sum.splits dest!: save_events)
qed

lemma replay_success:
  assumes "replay_recovered J crc ios es sp = (sp', Inr u)" and "sp_writer_end sp = length (dk_events (sp_disk sp))" and "\<not> sp_failed sp"
  shows "\<not> sp_failed sp' \<and> sp_ids sp' = sp_ids sp - jo_event_id J ` set es \<and> sp_max_bytes sp' = sp_max_bytes sp \<and>
    sp_writer_end sp' = length (dk_events (sp_disk sp'))"
  using assms
proof (induction J crc ios es sp rule: replay_recovered.induct)
  case (2 J crc ios e es sp)
  obtain io where io: "(case ios of [] \<Rightarrow> \<lparr>ai_save = SaveOk, ai_write = None, ai_sync = True, ai_retire = RetireOk\<rparr> | io # _ \<Rightarrow> io) = io" by blast
  obtain sp1 res where a: "spool_append J crc io e sp = (sp1, res)" by fastforce
  with 2(2) io obtain n where n: "res = Inr n" by (cases res) simp_all
  note f = append_success [OF a [unfolded n]]
  have "replay_recovered J crc (tl ios) es sp1 = (sp', Inr u)" using 2(2) io a n by simp
  from 2(1) [OF _ _ this] io a n f 2(3) show ?case by auto
qed simp

lemma admissions_scan_events:
  "admissions_scan J crc is dk retained ids recovered = (dk', Inr (retained', ids', recovered')) \<Longrightarrow>
   dk_events dk' = dk_events dk \<and> set recovered \<subseteq> set recovered' \<and> ids' - jo_event_id J ` set recovered' \<subseteq> ids - set is"
proof (induction J crc "is" dk retained ids recovered rule: admissions_scan.induct)
  case (2 J crc i "is" dk retained ids recovered)
  show ?case
  proof (cases "read_terminal J crc dk i")
    case (Inl err)
    with 2(3) show ?thesis by simp
  next
    case (Inr res)
    show ?thesis
    proof (cases res)
      case (Some e)
      then have "jo_event_id J e = i" using Inr by (auto simp: read_terminal_def Let_def split: option.splits if_splits sum.splits)
      with 2(2) [OF Inr Some] 2(3) Inr Some show ?thesis by auto
    next
      case None
      with 2(3) Inr obtain dk1 ret1 where u: "retain_unknown i (dk, retained) = Inr (dk1, ret1)"
        by (auto split: sum.splits)
      then have "dk_events dk1 = dk_events dk" by (auto simp: retain_unknown_def Let_def set_slot_def split: option.splits if_splits)
      with 2(1) [OF Inr None u refl] 2(3) Inr None u show ?thesis by auto
    qed
  qed
qed auto

lemma open_state:
  assumes "open_with_limits J crc ios threshold max_bytes min_free dk = (dk', Inr sp)"
  shows "\<not> sp_failed sp" and "sp_ids sp = {}" and "sp_max_bytes sp = max_bytes"
    and "sp_writer_end sp = length (dk_events (sp_disk sp))"
proof -
  from assms obtain cp where cp: "read_checkpoint dk = Inr cp" by (auto simp: open_with_limits_def split: sum.splits)
  with assms obtain file' scan where scan: "scan_and_repair crc (dk_events dk) cp = Inr (file', scan)"
    by (auto simp: open_with_limits_def split: sum.splits prod.splits)
  let ?dk1 = "if file' = dk_events dk then dk else dk\<lparr>dk_events := file', dk_durable := length file'\<rparr>"
  obtain dk2 a where a: "admissions_open J crc ?dk1 = (dk2, a)" by fastforce
  from assms cp scan a obtain q where q: "a = Inr q"
    by (cases a) (auto simp: open_with_limits_def Let_def split: if_splits)
  obtain retained ids recovered where q': "q = (retained, ids, recovered)" by (metis prod_cases3)
  let ?sp = "opened dk2 (sc_end_offset scan) cp retained ids threshold max_bytes min_free"
  obtain sp1 res where r: "replay_recovered J crc ios recovered ?sp = (sp1, res)" by fastforce
  from assms cp scan a q q' r have res: "\<exists>u. res = Inr u" "sp1 = sp"
    by (cases res; auto simp: open_with_limits_def Let_def split: if_splits)+
  have fin: "finite (admission_ids ?dk1)" by (simp add: admission_ids_def)
  from admissions_scan_events [OF a [unfolded admissions_open_def q q']] fin
  have ev: "dk_events dk2 = dk_events ?dk1" and ids: "ids \<subseteq> jo_event_id J ` set recovered"
    by (auto simp: sync_directory_def)
  have "sc_end_offset scan = length file'"
    using scan_sound_aux [of crc "dk_events dk" cp 0 "cp = 0" file' scan] scan by (auto simp: scan_and_repair_def)
  then have w: "sp_writer_end ?sp = length (dk_events (sp_disk ?sp))" using ev by (simp add: opened_def)
  from res obtain u where "res = Inr u" by blast
  from replay_success [OF r [unfolded this res(2)] w] ids
  show "\<not> sp_failed sp" "sp_ids sp = {}" "sp_max_bytes sp = max_bytes" "sp_writer_end sp = length (dk_events (sp_disk sp))"
    by (auto simp: opened_def)
qed

lemma open_capacity:
  assumes "open_with_limits J crc ios threshold max_bytes min_free dk = (dk', Inr sp)"
    and "max_bytes < 2 ^ 64 - 1" and "spool_usage sp < 2 ^ 64 - 1"
  shows "capacity_ok (max max_bytes (spool_usage sp)) sp"
  by (rule capacity_okI) (use open_state [OF assms(1)] assms(2,3) in \<open>simp_all add: spool_usage_def\<close>)

end
