(* ===== verification/Spool_Recovery.thy ===== *)
theory Spool_Recovery
  imports Request_Spool
begin

text \<open>
  What survives: the invariant of the durable spool of \<open>Request_Spool\<close> over every interleaving of
  admissions, appends, synchronisation and ingestion, with process crashes, power loss and restarts
  between them, and the two theorems it gives: a terminal event that was saved for an admitted request is never
  lost, and a restart that succeeds delivers it.
\<close>

section \<open>The frames within a prefix of the journal\<close>

definition partial_frame :: "(u8 list \<Rightarrow> u32) \<Rightarrow> u8 list \<Rightarrow> bool" where
  "partial_frame crc tail \<longleftrightarrow> (\<exists>r k. record_ok r \<and> k < length (frame_of crc r) \<and> tail = take k (frame_of crc r))"

fun before :: "(u8 list \<Rightarrow> u32) \<Rightarrow> nat \<Rightarrow> encoded_request_log list \<Rightarrow> encoded_request_log list" where
  "before crc n [] = []"
| "before crc n (r # rs) =
     (if length (frame_of crc r) \<le> n then r # before crc (n - length (frame_of crc r)) rs else [])"

lemma partial_frame_Nil: "partial_frame crc []"
  unfolding partial_frame_def
  by (intro exI [of _ "\<lparr>er_request_log_id = 0, er_schema_version = 0, er_payload = []\<rparr>"] exI [of _ 0])
    (simp add: record_ok_def FRAME_HEADER_BYTES_def)

lemma partial_frame_take: "record_ok r \<Longrightarrow> k < length (frame_of crc r) \<Longrightarrow> partial_frame crc (take k (frame_of crc r))"
  unfolding partial_frame_def by blast

lemma partial_frame_prefix:
  assumes "partial_frame crc tail"
  shows "partial_frame crc (take n tail)"
proof -
  from assms obtain r k where r: "record_ok r" "k < length (frame_of crc r)" "tail = take k (frame_of crc r)"
    unfolding partial_frame_def by blast
  then have "take n tail = take (min n k) (frame_of crc r)" by simp
  then show ?thesis using r partial_frame_take [of r "min n k" crc] by (simp add: min_less_iff_disj)
qed

lemma before_0 [simp]: "before crc 0 rs = []"
  by (cases rs) (simp_all add: FRAME_HEADER_BYTES_def)

lemma before_all: "length (frames crc rs) \<le> n \<Longrightarrow> before crc n rs = rs"
  by (induction rs arbitrary: n) (auto simp del: length_frame)

lemma before_append:
  "n < length (frames crc rs) \<Longrightarrow> before crc n (rs @ rs') = before crc n rs"
  by (induction rs arbitrary: n) (auto simp del: length_frame)

lemma before_append_ge:
  "length (frames crc rs) \<le> n \<Longrightarrow> before crc n (rs @ rs') = rs @ before crc (n - length (frames crc rs)) rs'"
  by (induction rs arbitrary: n) (auto simp del: length_frame)

lemma before_snoc:
  "n < length (frames crc rs) + length (frame_of crc r) \<Longrightarrow> before crc n (rs @ [r]) = before crc n rs"
  using before_append [of n crc rs "[r]"] before_append_ge [of crc rs n "[r]"] before_all [of crc rs n]
  by (cases "n < length (frames crc rs)") (auto simp del: length_frame)

lemma before_subset: "set (before crc n rs) \<subseteq> set rs"
  by (induction crc n rs rule: before.induct) (auto simp del: length_frame)

lemma before_mono: "n \<le> n' \<Longrightarrow> set (before crc n rs) \<subseteq> set (before crc n' rs)"
  by (induction rs arbitrary: n n') (auto simp del: length_frame dest: diff_le_mono)

lemma before_prefix: "set (before crc n (before crc n' rs)) \<subseteq> set (before crc n rs)"
  by (induction rs arbitrary: n n') (auto simp del: length_frame)

lemma before_before: "n \<le> n' \<Longrightarrow> before crc n (before crc n' rs) = before crc n rs"
  by (induction rs arbitrary: n n') (auto simp del: length_frame)

text \<open>Cutting a journal anywhere leaves its whole frames and a partial one.\<close>

lemma take_frames:
  assumes "\<forall>r \<in> set rs. record_ok r" and "partial_frame crc tail"
  shows "\<exists>tail'. take n (frames crc rs @ tail) = frames crc (before crc n rs) @ tail' \<and> partial_frame crc tail'"
  using assms
proof (induction rs arbitrary: n)
  case Nil
  then show ?case using partial_frame_prefix by auto
next
  case (Cons r rs)
  show ?case
  proof (cases "length (frame_of crc r) \<le> n")
    case True
    with Cons.IH [of "n - length (frame_of crc r)"] Cons.prems show ?thesis by (auto simp del: length_frame)
  next
    case False
    then have "take n (frames crc (r # rs) @ tail) = take n (frame_of crc r)" by (simp del: length_frame)
    with False Cons.prems partial_frame_take [of r n crc] show ?thesis by (auto simp del: length_frame)
  qed
qed

lemma scan_journal:
  assumes ok: "\<forall>r \<in> set rs. record_ok r" and tl: "partial_frame crc tail"
    and len: "length (frames crc rs @ tail) < 2 ^ 63"
  shows "scan_and_repair crc (frames crc rs @ tail) cp =
    Inr (frames crc rs, \<lparr>sc_end_offset = length (frames crc rs), sc_checkpoint_is_boundary = cp \<in> boundaries crc rs\<rparr>)"
proof -
  from tl obtain r k where r: "record_ok r" "k < length (frame_of crc r)" "tail = take k (frame_of crc r)"
    unfolding partial_frame_def by blast
  have "length (frame_of crc r) \<le> 2 ^ 63" using r(1) by (simp add: record_ok_def MAX_PAYLOAD_BYTES_def FRAME_HEADER_BYTES_def)
  then have "length (frames crc rs) + length (frame_of crc r) < 2 ^ 64" using len by simp
  then show ?thesis
    using scan_repairs [of rs r k crc cp] ok r by (simp add: scan_and_repair_def boundaries_iff)
qed

section \<open>Slots\<close>

definition slot_holds :: "(u8 list \<Rightarrow> u32) \<Rightarrow> disk \<Rightarrow> encoded_request_log \<Rightarrow> bool" where
  "slot_holds crc dk r \<longleftrightarrow>
     (\<exists>rest. hm_get (dk_slots dk) (er_request_log_id r) = Some (slot_header crc r @ er_payload r @ rest))"

lemma length_slot_header [simp]: "length (slot_header crc r) = HEADER_BYTES"
  by (simp add: slot_header_def HEADER_BYTES_def)

lemma slot_header_parts:
  "take 4 (slot_header crc r @ xs) = [65, 73, 71, 65]"
  "take 2 (drop 4 (slot_header crc r @ xs)) = to_le_bytes 2 (er_schema_version r)"
  "take 2 (drop 6 (slot_header crc r @ xs)) = to_le_bytes 2 (0 :: u16)"
  "take 4 (drop 8 (slot_header crc r @ xs)) = to_le_bytes 4 (of_nat (length (er_payload r)) :: u32)"
  "take 4 (drop 12 (slot_header crc r @ xs)) = to_le_bytes 4 (crc (er_payload r))"
  by (simp_all add: slot_header_def)

lemma slot_read_back:
  assumes J: "serde_round_trip J" and enc: "journal_encode J e = Inr r" and ok: "record_ok r"
    and held: "slot_holds crc dk r"
  shows "read_terminal J crc dk (jo_event_id J e) = Inr (Some e)"
proof -
  note codec = journal_codec [OF J enc]
  from held codec(2) obtain rest where c: "hm_get (dk_slots dk) (jo_event_id J e) = Some (slot_header crc r @ er_payload r @ rest)"
    unfolding slot_holds_def by auto
  have "length (er_payload r) < 2 ^ 32" using ok by (simp add: record_ok_def MAX_PAYLOAD_BYTES_def)
  then have len: "unat (of_nat (length (er_payload r)) :: u32) = length (er_payload r)"
    by (simp add: unat_of_nat take_bit_nat_eq_self)
  have zero: "to_le_bytes 2 (0 :: u16) = [0, 0]" by (simp add: to_le_bytes_def numeral_2_eq_2)
  have payload: "take (length (er_payload r)) (drop HEADER_BYTES (slot_header crc r @ er_payload r @ rest)) = er_payload r"
    by simp
  have rec: "\<lparr>er_request_log_id = jo_event_id J e, er_schema_version = er_schema_version r, er_payload = er_payload r\<rparr> = r"
    using codec(2) by simp
  show ?thesis
    unfolding read_terminal_def c option.case slot_header_parts
    using ok codec(1)
    by (simp add: from_to_le_bytes len zero payload rec record_ok_def Let_def)
qed

lemma overwrite_same:
  assumes "c = a @ b @ d" "length a = n"
  shows "overwrite n (take k b) c = c"
proof -
  have "drop (n + length (take k b)) c = drop k b @ d" using assms
    by (cases "k \<le> length b") (simp_all add: min_def)
  then show ?thesis using assms by (simp add: overwrite_def)
qed

lemma overwrite_slot:
  "\<exists>rest. overwrite 0 (slot_header crc r) (overwrite HEADER_BYTES (er_payload r) c) = slot_header crc r @ er_payload r @ rest"
  by (rule exI [of _ "drop (HEADER_BYTES + length (er_payload r)) c"]) (simp add: overwrite_def)

lemma slot_holds_set:
  "slot_holds crc (set_slot i c dk) r \<longleftrightarrow>
     (if er_request_log_id r = i then \<exists>rest. c = slot_header crc r @ er_payload r @ rest else slot_holds crc dk r)"
  by (auto simp: slot_holds_def set_slot_def hm_get_insert)

text \<open>Saving a terminal event touches nothing but its slot; once it has succeeded the slot holds the
  record, and saving the same event again, however far it gets, leaves it there.\<close>

lemma save_frame:
  assumes "save_terminal J crc io e dk = (dk', res)"
  shows "dk' = dk \<or> (\<exists>c. dk' = set_slot (jo_event_id J e) c dk)"
  using assms by (auto simp: save_terminal_def split: sum.splits if_splits option.splits save_io.splits)

lemma save_secures:
  assumes "save_terminal J crc io e dk = (dk', Inr u)"
  shows "\<exists>r. journal_encode J e = Inr r \<and> record_ok r \<and> slot_holds crc dk' r"
proof -
  from assms obtain r where r: "journal_encode J e = Inr r"
    by (auto simp: save_terminal_def split: sum.splits)
  then have id: "er_request_log_id r = jo_event_id J e" by (auto simp: journal_encode_def split: option.splits)
  from assms r obtain c where "length (er_payload r) \<le> MAX_PAYLOAD_BYTES"
    "dk' = set_slot (jo_event_id J e) (overwrite 0 (slot_header crc r) (overwrite HEADER_BYTES (er_payload r) c)) dk"
    by (auto simp: save_terminal_def split: sum.splits if_splits option.splits save_io.splits)
  with r id overwrite_slot [of crc r c] show ?thesis by (auto simp: slot_holds_set record_ok_def)
qed

lemma save_keeps:
  assumes sv: "save_terminal J crc io e dk = (dk', res)" and held: "slot_holds crc dk r"
    and one: "er_request_log_id r = jo_event_id J e \<Longrightarrow> journal_encode J e = Inr r"
  shows "slot_holds crc dk' r"
proof (cases "er_request_log_id r = jo_event_id J e")
  case False
  with save_frame [OF sv] held show ?thesis by (auto simp: slot_holds_set)
next
  case True
  note enc = one [OF True]
  from held True obtain rest where c: "hm_get (dk_slots dk) (jo_event_id J e) = Some (slot_header crc r @ er_payload r @ rest)"
    unfolding slot_holds_def by auto
  let ?c = "slot_header crc r @ er_payload r @ rest"
  have p: "overwrite HEADER_BYTES (take k (er_payload r)) ?c = ?c" for k
    by (rule overwrite_same [where a = "slot_header crc r" and d = rest]) simp_all
  have h: "overwrite 0 (take k (slot_header crc r)) ?c = ?c" for k
    by (rule overwrite_same [where a = "[]" and d = "er_payload r @ rest"]) simp_all
  have p': "overwrite HEADER_BYTES (er_payload r) ?c = ?c" using p [of "length (er_payload r)"] by simp
  have h': "overwrite 0 (slot_header crc r) ?c = ?c" using h [of HEADER_BYTES] by simp
  from sv enc c have "dk' = dk \<or> dk' = set_slot (jo_event_id J e) ?c dk"
    by (auto simp: save_terminal_def p h p' h' split: if_splits save_io.splits)
  with held True show ?thesis by (auto simp: slot_holds_set)
qed

section \<open>Processes, crashes and power loss\<close>

text \<open>The gateway is down, with what is on its disk, or up, with its spool and the phase of its ingestion
  worker. Beside it stand three sets no code reads: the identifiers whose admission was granted, the records of the
  admitted requests whose terminal slot was saved, and the records the database has accepted.\<close>

datatype node = Down disk | Up ingest_phase spool

record world =
  wd_node :: node
  wd_admitted :: "uuid set"
  wd_secured :: "encoded_request_log set"
  wd_committed :: "encoded_request_log set"

definition secured_by ::
  "('v, 'e) journal_ops \<Rightarrow> (u8 list \<Rightarrow> u32) \<Rightarrow> append_io \<Rightarrow> 'e \<Rightarrow> uuid set \<Rightarrow> spool \<Rightarrow> encoded_request_log set" where
  "secured_by J crc io e admitted sp =
     (if jo_event_id J e \<in> sp_ids sp \<inter> admitted \<and> snd (save_terminal J crc (ai_save io) e (sp_disk sp)) = Inr ()
      then {r. journal_encode J e = Inr r} else {})"

text \<open>What a loss of power may leave: a prefix of the journal no shorter than the synchronised one, one
  of the checkpoint files since the directory was synchronised or one whose bytes never reached the disk,
  and any content of the slots and intents except that a saved terminal slot stays.\<close>

definition torn_checkpoint :: "u8 list option \<Rightarrow> bool" where
  "torn_checkpoint b \<longleftrightarrow> (case b of None \<Rightarrow> False | Some bs \<Rightarrow> length bs \<noteq> 8 \<or> set bs \<subseteq> {0})"

definition checkpoints :: "disk \<Rightarrow> u8 list option set" where
  "checkpoints dk = insert (dk_checkpoint dk) (set (dk_checkpoint_older dk))"

definition survives :: "(u8 list \<Rightarrow> u32) \<Rightarrow> encoded_request_log set \<Rightarrow> disk \<Rightarrow> disk \<Rightarrow> bool" where
  "survives crc S dk dk' \<longleftrightarrow>
     (\<exists>n. dk_durable dk \<le> n \<and> n \<le> length (dk_events dk) \<and> dk_events dk' = take n (dk_events dk) \<and> dk_durable dk' = n) \<and>
     (dk_checkpoint dk' \<in> checkpoints dk \<or> torn_checkpoint (dk_checkpoint dk')) \<and> dk_checkpoint_older dk' = [] \<and>
     (\<forall>r \<in> S. slot_holds crc dk r \<longrightarrow> slot_holds crc dk' r)"

fun disk_of :: "node \<Rightarrow> disk" where
  "disk_of (Down dk) = dk"
| "disk_of (Up ph sp) = sp_disk sp"

text \<open>The steps. The file system holds files of less than \<open>2 ^ 63\<close> bytes, and a request has one terminal
  event.\<close>

inductive spool_step :: "('v, 'e) journal_ops \<Rightarrow> (u8 list \<Rightarrow> u32) \<Rightarrow> world \<Rightarrow> world \<Rightarrow> bool"
  for J :: "('v, 'e) journal_ops" and crc :: "u8 list \<Rightarrow> u32"
where
  admit: "spool_admit free io intent sp = (sp', res) \<Longrightarrow>
    spool_step J crc \<lparr>wd_node = Up ph sp, wd_admitted = A, wd_secured = S, wd_committed = C\<rparr>
      \<lparr>wd_node = Up ph sp', wd_admitted = (if res = Inr () then insert (fst intent) A else A),
       wd_secured = S, wd_committed = C\<rparr>"
| append: "spool_append J crc io e sp = (sp', res) \<Longrightarrow> length (dk_events (sp_disk sp')) < 2 ^ 63 \<Longrightarrow>
    \<forall>r \<in> S. er_request_log_id r = jo_event_id J e \<longrightarrow> journal_encode J e = Inr r \<Longrightarrow>
    spool_step J crc \<lparr>wd_node = Up ph sp, wd_admitted = A, wd_secured = S, wd_committed = C\<rparr>
      \<lparr>wd_node = Up ph sp', wd_admitted = A, wd_secured = S \<union> secured_by J crc io e A sp, wd_committed = C\<rparr>"
| sync: "spool_sync_data ok sp = (sp', res) \<Longrightarrow>
    spool_step J crc \<lparr>wd_node = Up ph sp, wd_admitted = A, wd_secured = S, wd_committed = C\<rparr>
      \<lparr>wd_node = Up ph sp', wd_admitted = A, wd_secured = S, wd_committed = C\<rparr>"
| ingest: "ingest_step crc n accepted persisted cio (ph, sp) = ((ph', sp'), rs) \<Longrightarrow>
    spool_step J crc \<lparr>wd_node = Up ph sp, wd_admitted = A, wd_secured = S, wd_committed = C\<rparr>
      \<lparr>wd_node = Up ph' sp', wd_admitted = A, wd_secured = S, wd_committed = C \<union> set rs\<rparr>"
| crash: "spool_step J crc \<lparr>wd_node = Up ph sp, wd_admitted = A, wd_secured = S, wd_committed = C\<rparr>
      \<lparr>wd_node = Down (sp_disk sp), wd_admitted = A, wd_secured = S, wd_committed = C\<rparr>"
| power_loss: "survives crc S (disk_of nd) dk' \<Longrightarrow>
    spool_step J crc \<lparr>wd_node = nd, wd_admitted = A, wd_secured = S, wd_committed = C\<rparr>
      \<lparr>wd_node = Down dk', wd_admitted = A, wd_secured = S, wd_committed = C\<rparr>"
| restart: "open_with_limits J crc ios threshold max_bytes min_free dk = (dk', res) \<Longrightarrow>
    length (dk_events dk') < 2 ^ 63 \<Longrightarrow>
    spool_step J crc \<lparr>wd_node = Down dk, wd_admitted = A, wd_secured = S, wd_committed = C\<rparr>
      \<lparr>wd_node = (case res of Inl err \<Rightarrow> Down dk' | Inr sp \<Rightarrow> Up Reading sp),
       wd_admitted = A, wd_secured = S, wd_committed = C\<rparr>"

definition empty_disk :: disk where
  "empty_disk = \<lparr>dk_events = [], dk_durable = 0, dk_checkpoint = None, dk_checkpoint_older = [], dk_slots = [], dk_intents = []\<rparr>"

definition initial_world :: world where
  "initial_world = \<lparr>wd_node = Down empty_disk, wd_admitted = {}, wd_secured = {}, wd_committed = {}\<rparr>"

section \<open>The invariant\<close>

definition checkpoint_value :: "u8 list option \<Rightarrow> nat option" where
  "checkpoint_value b =
     (case b of None \<Rightarrow> Some 0 | Some bs \<Rightarrow> if length bs \<noteq> 8 then None else Some (unat (from_le_bytes bs :: u64)))"

definition journal_is :: "(u8 list \<Rightarrow> u32) \<Rightarrow> disk \<Rightarrow> encoded_request_log list \<Rightarrow> u8 list \<Rightarrow> bool" where
  "journal_is crc dk rs tail \<longleftrightarrow>
     dk_events dk = frames crc rs @ tail \<and> (\<forall>r \<in> set rs. record_ok r) \<and> partial_frame crc tail \<and>
     length (dk_events dk) < 2 ^ 63 \<and> dk_durable dk \<le> length (dk_events dk)"

definition checkpoints_safe :: "(u8 list \<Rightarrow> u32) \<Rightarrow> disk \<Rightarrow> encoded_request_log list \<Rightarrow> encoded_request_log set \<Rightarrow> bool" where
  "checkpoints_safe crc dk rs C \<longleftrightarrow>
     (\<forall>b \<in> checkpoints dk. \<forall>cp. checkpoint_value b = Some cp \<longrightarrow> set (before crc cp rs) \<subseteq> C)"

definition checkpoints_within :: "disk \<Rightarrow> nat \<Rightarrow> bool" where
  "checkpoints_within dk n \<longleftrightarrow> (\<forall>b \<in> checkpoints dk. \<forall>cp. checkpoint_value b = Some cp \<longrightarrow> cp \<le> n)"

definition kept ::
  "(u8 list \<Rightarrow> u32) \<Rightarrow> disk \<Rightarrow> encoded_request_log list \<Rightarrow> encoded_request_log set \<Rightarrow> encoded_request_log \<Rightarrow> bool" where
  "kept crc dk rs C r \<longleftrightarrow> r \<in> C \<or> slot_holds crc dk r \<or> r \<in> set (before crc (dk_durable dk) rs)"

definition secured_ok :: "('v, 'e) journal_ops \<Rightarrow> encoded_request_log set \<Rightarrow> bool" where
  "secured_ok J S \<longleftrightarrow>
     (\<forall>r \<in> S. record_ok r \<and> (\<exists>e. journal_encode J e = Inr r))"

definition disk_inv ::
  "(u8 list \<Rightarrow> u32) \<Rightarrow> encoded_request_log set \<Rightarrow> encoded_request_log set \<Rightarrow> disk \<Rightarrow> encoded_request_log list \<Rightarrow> u8 list \<Rightarrow> bool" where
  "disk_inv crc S C dk rs tail \<longleftrightarrow>
     journal_is crc dk rs tail \<and> checkpoints_safe crc dk rs C \<and> (\<forall>r \<in> S. kept crc dk rs C r)"

text \<open>A running spool: its journal and offsets agree, or a compaction failed after truncating the file.\<close>

definition offsets_ok ::
  "(u8 list \<Rightarrow> u32) \<Rightarrow> encoded_request_log set \<Rightarrow> ingest_phase \<Rightarrow> spool \<Rightarrow> encoded_request_log list \<Rightarrow> u8 list \<Rightarrow> bool" where
  "offsets_ok crc C ph sp rs tail \<longleftrightarrow>
     (\<exists>old todo rest. rs = old @ todo @ rest \<and> sp_checkpoint_offset sp = length (frames crc old) \<and>
        sp_end_offset sp = length (frames crc (old @ todo)) \<and> set old \<subseteq> C \<and>
        (\<not> sp_failed sp \<longrightarrow> rest = [] \<and> tail = [] \<and> sp_writer_end sp = sp_end_offset sp) \<and>
        (\<forall>off. ph = Accepted off \<longrightarrow>
           (\<exists>acc later. todo = acc @ later \<and> off = length (frames crc (old @ acc)) \<and> set acc \<subseteq> C))) \<and>
     checkpoints_within (sp_disk sp) (sp_end_offset sp)"

definition emptied :: "ingest_phase \<Rightarrow> spool \<Rightarrow> bool" where
  "emptied ph sp \<longleftrightarrow> sp_failed sp \<and> dk_events (sp_disk sp) = [] \<and> sp_checkpoint_offset sp = sp_end_offset sp \<and>
     (\<forall>off. ph \<noteq> Accepted off) \<and> checkpoints_within (sp_disk sp) 0"

definition up_inv ::
  "(u8 list \<Rightarrow> u32) \<Rightarrow> encoded_request_log set \<Rightarrow> encoded_request_log set \<Rightarrow> ingest_phase \<Rightarrow> spool \<Rightarrow> bool" where
  "up_inv crc S C ph sp \<longleftrightarrow>
     (\<exists>rs tail. disk_inv crc S C (sp_disk sp) rs tail \<and> (offsets_ok crc C ph sp rs tail \<or> emptied ph sp))"

fun node_inv ::
  "(u8 list \<Rightarrow> u32) \<Rightarrow> encoded_request_log set \<Rightarrow> encoded_request_log set \<Rightarrow> node \<Rightarrow> bool" where
  "node_inv crc S C (Down dk) = (\<exists>rs tail. disk_inv crc S C dk rs tail)"
| "node_inv crc S C (Up ph sp) = up_inv crc S C ph sp"

definition world_inv :: "('v, 'e) journal_ops \<Rightarrow> (u8 list \<Rightarrow> u32) \<Rightarrow> world \<Rightarrow> bool" where
  "world_inv J crc w \<longleftrightarrow> secured_ok J (wd_secured w) \<and> node_inv crc (wd_secured w) (wd_committed w) (wd_node w)"

subsection \<open>Changes that keep the disk invariant\<close>

text \<open>Slots and intents may change as long as the secured ones stay.\<close>

lemma disk_inv_slots:
  assumes "disk_inv crc S C dk rs tail"
    and "dk_events dk' = dk_events dk" "dk_durable dk' = dk_durable dk" "checkpoints dk' \<subseteq> checkpoints dk"
    and "\<And>r. r \<in> S \<Longrightarrow> slot_holds crc dk r \<Longrightarrow> kept crc dk' rs C r"
  shows "disk_inv crc S C dk' rs tail"
proof -
  have "kept crc dk' rs C r" if "r \<in> S" for r
    using that assms(1,3,5) unfolding disk_inv_def kept_def by metis
  moreover have "journal_is crc dk' rs tail"
    using assms(1-3) unfolding disk_inv_def journal_is_def by auto
  moreover have "checkpoints_safe crc dk' rs C"
    using assms(1,4) unfolding disk_inv_def checkpoints_safe_def by blast
  ultimately show ?thesis unfolding disk_inv_def by blast
qed

lemma journal_is_append:
  assumes "journal_is crc dk rs []" and "record_ok r" and "length (dk_events dk) + length (frame_of crc r) < 2 ^ 63"
  shows "journal_is crc (write_events (frame_of crc r) dk) (rs @ [r]) []"
  using assms unfolding journal_is_def write_events_def by (auto simp: partial_frame_Nil)

lemma journal_is_torn:
  assumes "journal_is crc dk rs []" and "record_ok r" and "k < length (frame_of crc r)"
    and "length (dk_events dk) + k < 2 ^ 63"
  shows "journal_is crc (write_events (take k (frame_of crc r)) dk) rs (take k (frame_of crc r))"
  using assms unfolding journal_is_def write_events_def by (auto simp: partial_frame_take)

lemma write_events_simps [simp]:
  "checkpoints (write_events b dk) = checkpoints dk" "slot_holds crc (write_events b dk) r = slot_holds crc dk r"
  "dk_durable (write_events b dk) = dk_durable dk" "dk_events (write_events b dk) = dk_events dk @ b"
  by (simp_all add: write_events_def checkpoints_def slot_holds_def)

lemma sync_events_simps [simp]:
  "checkpoints (sync_events dk) = checkpoints dk" "slot_holds crc (sync_events dk) r = slot_holds crc dk r"
  "dk_durable (sync_events dk) = length (dk_events dk)" "dk_events (sync_events dk) = dk_events dk"
  by (simp_all add: sync_events_def checkpoints_def slot_holds_def)

lemma within_sync [simp]: "checkpoints_within (sync_events dk) n = checkpoints_within dk n"
  by (simp add: checkpoints_within_def)

lemma disk_inv_append:
  assumes inv: "disk_inv crc S C dk rs []" and r: "record_ok r"
    and len: "length (dk_events dk) + length (frame_of crc r) < 2 ^ 63"
    and within: "checkpoints_within dk (length (frames crc rs))"
  shows "disk_inv crc S C (write_events (frame_of crc r) dk) (rs @ [r]) []"
proof -
  have ev: "dk_events dk = frames crc rs" and dur: "dk_durable dk \<le> length (frames crc rs)"
    using inv by (auto simp: disk_inv_def journal_is_def)
  have same: "before crc n (rs @ [r]) = before crc n rs" if "n \<le> length (frames crc rs)" for n
    using that by (intro before_snoc) (simp add: FRAME_HEADER_BYTES_def)
  show ?thesis
    using inv journal_is_append [of crc dk rs r] r len within same same [OF dur]
    unfolding disk_inv_def checkpoints_safe_def checkpoints_within_def kept_def by (auto 4 4)
qed

lemma disk_inv_torn:
  assumes "disk_inv crc S C dk rs []" and "record_ok r" and "k < length (frame_of crc r)"
    and "length (dk_events dk) + k < 2 ^ 63"
  shows "disk_inv crc S C (write_events (take k (frame_of crc r)) dk) rs (take k (frame_of crc r))"
  using assms journal_is_torn [of crc dk rs r k]
  unfolding disk_inv_def checkpoints_safe_def kept_def by auto

lemma disk_inv_sync:
  assumes "disk_inv crc S C dk rs tail"
  shows "disk_inv crc S C (sync_events dk) rs tail"
proof -
  have "dk_durable dk \<le> length (dk_events dk)" using assms unfolding disk_inv_def journal_is_def by blast
  then have "set (before crc (dk_durable dk) rs) \<subseteq> set (before crc (length (dk_events dk)) rs)" by (rule before_mono)
  then show ?thesis
    using assms unfolding disk_inv_def checkpoints_safe_def kept_def journal_is_def by auto
qed

lemma disk_inv_commit:
  assumes "disk_inv crc S C dk rs tail" and "C \<subseteq> C'"
  shows "disk_inv crc S C' dk rs tail"
  using assms unfolding disk_inv_def checkpoints_safe_def kept_def by blast

lemma checkpoint_value_persisted: "n < 2 ^ 64 \<Longrightarrow> checkpoint_value (Some (to_le_bytes 8 (of_nat n :: u64))) = Some n"
  by (simp add: checkpoint_value_def from_to_le_bytes unat_of_nat take_bit_nat_eq_self)

lemma persist_simps [simp]:
  "dk_events (persist_checkpoint n dk) = dk_events dk" "dk_durable (persist_checkpoint n dk) = dk_durable dk"
  "slot_holds crc (persist_checkpoint n dk) r = slot_holds crc dk r"
  "checkpoints (persist_checkpoint n dk) = insert (Some (to_le_bytes 8 (of_nat n :: u64))) (checkpoints dk)"
  "dk_checkpoint (persist_checkpoint n dk) = Some (to_le_bytes 8 (of_nat n :: u64))"
  by (auto simp: persist_checkpoint_def checkpoints_def slot_holds_def)

lemma disk_inv_persist:
  assumes "disk_inv crc S C dk rs tail" and "n < 2 ^ 64" and "set (before crc n rs) \<subseteq> C"
  shows "disk_inv crc S C (persist_checkpoint n dk) rs tail"
  using assms checkpoint_value_persisted [OF assms(2)]
  unfolding disk_inv_def checkpoints_safe_def kept_def journal_is_def by auto

lemma within_persist:
  "n < 2 ^ 64 \<Longrightarrow> checkpoints_within (persist_checkpoint n dk) m \<longleftrightarrow> n \<le> m \<and> checkpoints_within dk m"
  using checkpoint_value_persisted [of n] by (auto simp: checkpoints_within_def)

lemma sync_directory_simps [simp]:
  "dk_events (sync_directory dk) = dk_events dk" "dk_durable (sync_directory dk) = dk_durable dk"
  "slot_holds crc (sync_directory dk) r = slot_holds crc dk r" "checkpoints (sync_directory dk) = {dk_checkpoint dk}"
  "dk_checkpoint (sync_directory dk) = dk_checkpoint dk"
  by (simp_all add: sync_directory_def checkpoints_def slot_holds_def)

section \<open>The steps of a running spool keep the invariant\<close>

text \<open>A step that leaves the journal, the checkpoints and the offsets alone.\<close>

definition same_log :: "spool \<Rightarrow> spool \<Rightarrow> bool" where
  "same_log sp sp' \<longleftrightarrow>
     dk_events (sp_disk sp') = dk_events (sp_disk sp) \<and> dk_durable (sp_disk sp') = dk_durable (sp_disk sp) \<and>
     checkpoints (sp_disk sp') = checkpoints (sp_disk sp) \<and> sp_writer_end sp' = sp_writer_end sp \<and>
     sp_end_offset sp' = sp_end_offset sp \<and> sp_checkpoint_offset sp' = sp_checkpoint_offset sp \<and>
     (sp_failed sp \<longrightarrow> sp_failed sp')"

lemma offsets_ok_same:
  assumes "same_log sp sp'" and "offsets_ok crc C ph sp rs tail"
  shows "offsets_ok crc C ph sp' rs tail"
  using assms unfolding same_log_def offsets_ok_def checkpoints_within_def by (auto 0 3)

lemma emptied_same: "same_log sp sp' \<Longrightarrow> emptied ph sp \<Longrightarrow> emptied ph sp'"
  unfolding same_log_def emptied_def checkpoints_within_def by simp

lemma up_inv_same:
  assumes "up_inv crc S C ph sp" and "same_log sp sp'"
    and "\<And>r. r \<in> S \<Longrightarrow> slot_holds crc (sp_disk sp) r \<Longrightarrow> slot_holds crc (sp_disk sp') r"
  shows "up_inv crc S C ph sp'"
proof -
  from assms(1) obtain rs tail where inv: "disk_inv crc S C (sp_disk sp) rs tail"
    and off: "offsets_ok crc C ph sp rs tail \<or> emptied ph sp" unfolding up_inv_def by blast
  have "disk_inv crc S C (sp_disk sp') rs tail"
    by (rule disk_inv_slots [OF inv]) (use assms(2,3) in \<open>auto simp: same_log_def kept_def\<close>)
  then show ?thesis unfolding up_inv_def using off offsets_ok_same [OF assms(2)] emptied_same [OF assms(2)] by blast
qed

subsection \<open>Admission\<close>

lemma set_slot_simps [simp]:
  "dk_events (set_slot i c dk) = dk_events dk" "dk_durable (set_slot i c dk) = dk_durable dk"
  "checkpoints (set_slot i c dk) = checkpoints dk" "dk_intents (set_slot i c dk) = dk_intents dk"
  by (simp_all add: set_slot_def checkpoints_def)

lemma intents_simps [simp]:
  "checkpoints (dk\<lparr>dk_intents := m\<rparr>) = checkpoints dk" "slot_holds crc (dk\<lparr>dk_intents := m\<rparr>) r = slot_holds crc dk r"
  by (simp_all add: checkpoints_def slot_holds_def)

lemma slot_holds_fresh: "hm_get (dk_slots dk) i = None \<Longrightarrow> slot_holds crc dk r \<Longrightarrow> slot_holds crc (set_slot i c dk) r"
  by (auto simp: slot_holds_def set_slot_def hm_get_insert)

lemma reserve_log:
  assumes "reserve io intent sp = (sp', res)"
  shows "same_log sp sp'" and "slot_holds crc (sp_disk sp) r \<Longrightarrow> slot_holds crc (sp_disk sp') r"
  using assms slot_holds_fresh [of "sp_disk sp" "fst intent" crc r]
  by (auto simp: reserve_def same_log_def Let_def split: prod.splits option.splits if_splits reserve_io.splits)

lemma fail_simps [simp]: "sp_disk (fail sp) = sp_disk sp" "same_log sp' (fail sp) \<longleftrightarrow> same_log sp' (sp\<lparr>sp_failed := True\<rparr>)"
  by (simp_all add: fail_def)

lemma same_log_failed: "same_log sp sp' \<Longrightarrow> same_log sp (fail sp')"
  by (simp add: same_log_def fail_def)

lemma same_log_refl: "same_log sp sp" "same_log sp (sp\<lparr>sp_capacity_pressure := b\<rparr>)" "same_log sp (sp\<lparr>sp_synced_offset := n\<rparr>)"
  by (simp_all add: same_log_def)

lemma admit_log:
  assumes "spool_admit free io intent sp = (sp', res)"
  shows "same_log sp sp'" and "slot_holds crc (sp_disk sp) r \<Longrightarrow> slot_holds crc (sp_disk sp') r"
proof -
  consider (same) "sp' = sp" | (press) "sp' = sp\<lparr>sp_capacity_pressure := True\<rparr>"
    | (res) sp1 r1 where "reserve io intent sp = (sp1, r1)" "sp' = sp1 \<or> sp' = fail sp1"
    using assms by (auto simp: spool_admit_def Let_def split: if_splits option.splits prod.splits sum.splits)
  then have "same_log sp sp' \<and> (slot_holds crc (sp_disk sp) r \<longrightarrow> slot_holds crc (sp_disk sp') r)"
  proof cases
    case res
    then show ?thesis using reserve_log [OF res(1)] same_log_failed by auto
  qed (simp_all add: same_log_refl)
  then show "same_log sp sp'" "slot_holds crc (sp_disk sp) r \<Longrightarrow> slot_holds crc (sp_disk sp') r" by blast+
qed

subsection \<open>Appending\<close>

lemma retire_log:
  assumes "retire io i dk = (dk', res)"
  shows "dk_events dk' = dk_events dk" "dk_durable dk' = dk_durable dk" "checkpoints dk' = checkpoints dk"
    and "j \<noteq> i \<Longrightarrow> hm_get (dk_slots dk') j = hm_get (dk_slots dk) j"
    and "res = Inr u \<Longrightarrow> hm_get (dk_slots dk') i = None"
  using assms
  by (auto simp: retire_def remove_intent_def remove_slot_def checkpoints_def hm_get_remove split: retire_io.splits)

lemma slot_holds_cong:
  "hm_get (dk_slots dk') (er_request_log_id r) = hm_get (dk_slots dk) (er_request_log_id r) \<Longrightarrow>
   slot_holds crc dk' r = slot_holds crc dk r"
  by (simp add: slot_holds_def)

lemma disk_inv_retire:
  assumes inv: "disk_inv crc S C dk rs tail" and rt: "retire io i dk = (dk', res)"
    and dur: "\<And>r. r \<in> S \<Longrightarrow> er_request_log_id r = i \<Longrightarrow> r \<in> C \<or> r \<in> set (before crc (dk_durable dk) rs)"
  shows "disk_inv crc S C dk' rs tail"
proof (rule disk_inv_slots [OF inv])
  note l = retire_log [OF rt]
  show "dk_events dk' = dk_events dk" "dk_durable dk' = dk_durable dk" "checkpoints dk' \<subseteq> checkpoints dk" using l by auto
  fix r assume r: "r \<in> S" "slot_holds crc dk r"
  show "kept crc dk' rs C r"
  proof (cases "er_request_log_id r = i")
    case True
    then show ?thesis using dur [OF r(1)] l(2) by (auto simp: kept_def)
  next
    case False
    then show ?thesis using r(2) slot_holds_cong [OF l(4)] by (auto simp: kept_def)
  qed
qed

text \<open>The journal of a spool that has not failed ends at its published end.\<close>

lemma running_log:
  assumes "disk_inv crc S C (sp_disk sp) rs tail" and "offsets_ok crc C ph sp rs tail \<or> emptied ph sp"
    and "\<not> sp_failed sp"
  obtains old todo where "rs = old @ todo" "tail = []" "sp_checkpoint_offset sp = length (frames crc old)"
    "sp_end_offset sp = length (frames crc rs)" "sp_writer_end sp = length (frames crc rs)" "set old \<subseteq> C"
    "dk_events (sp_disk sp) = frames crc rs" "checkpoints_within (sp_disk sp) (length (frames crc rs))"
    "\<And>off. ph = Accepted off \<Longrightarrow>
       \<exists>acc later. todo = acc @ later \<and> off = length (frames crc (old @ acc)) \<and> set acc \<subseteq> C"
proof -
  have off: "offsets_ok crc C ph sp rs tail" using assms(2,3) by (auto simp: emptied_def)
  then obtain old todo rest where o: "rs = old @ todo @ rest" "sp_checkpoint_offset sp = length (frames crc old)"
    "sp_end_offset sp = length (frames crc (old @ todo))" "set old \<subseteq> C"
    "rest = []" "tail = []" "sp_writer_end sp = sp_end_offset sp"
    "\<forall>off. ph = Accepted off \<longrightarrow> (\<exists>acc later. todo = acc @ later \<and> off = length (frames crc (old @ acc)) \<and> set acc \<subseteq> C)"
    using assms(3) unfolding offsets_ok_def by (elim conjE exE) metis
  have "checkpoints_within (sp_disk sp) (length (frames crc rs))" using off o by (simp add: offsets_ok_def)
  moreover have "dk_events (sp_disk sp) = frames crc rs"
    using assms(1) o(6) by (simp add: disk_inv_def journal_is_def)
  ultimately show thesis using that [of old todo] o by simp
qed

lemma offsets_okI:
  assumes "rs = old @ todo @ rest" "sp_checkpoint_offset sp = length (frames crc old)"
    "sp_end_offset sp = length (frames crc (old @ todo))" "set old \<subseteq> C"
    "\<not> sp_failed sp \<Longrightarrow> rest = [] \<and> tail = [] \<and> sp_writer_end sp = sp_end_offset sp"
    "\<And>off. ph = Accepted off \<Longrightarrow>
       \<exists>acc later. todo = acc @ later \<and> off = length (frames crc (old @ acc)) \<and> set acc \<subseteq> C"
    "checkpoints_within (sp_disk sp) (sp_end_offset sp)"
  shows "offsets_ok crc C ph sp rs tail"
  unfolding offsets_ok_def
  by (rule conjI, rule exI [of _ old], rule exI [of _ todo], rule exI [of _ rest]) (use assms in auto)

lemma up_inv_failed: "up_inv crc S C ph sp \<Longrightarrow> up_inv crc S C ph (fail sp)"
  by (rule up_inv_same) (simp_all add: same_log_def fail_def)

text \<open>A write that fails leaves part of the frame, or all of it, after the published end.\<close>

lemma append_torn:
  assumes inv: "up_inv crc S C ph sp" and r: "record_ok r" and nf: "\<not> sp_failed sp"
    and sp': "sp' = fail (sp\<lparr>sp_disk := write_events (take k (frame_of crc r)) (sp_disk sp)\<rparr>)"
    and len: "length (dk_events (sp_disk sp')) < 2 ^ 63"
  shows "up_inv crc S C ph sp'"
proof -
  from inv obtain rs tail where d: "disk_inv crc S C (sp_disk sp) rs tail"
    and o: "offsets_ok crc C ph sp rs tail \<or> emptied ph sp" unfolding up_inv_def by blast
  from running_log [OF d o nf] obtain old todo where
    l: "rs = old @ todo" "tail = []" "sp_checkpoint_offset sp = length (frames crc old)"
      "sp_end_offset sp = length (frames crc rs)" "sp_writer_end sp = length (frames crc rs)" "set old \<subseteq> C"
      "dk_events (sp_disk sp) = frames crc rs" "checkpoints_within (sp_disk sp) (length (frames crc rs))"
    and a: "\<And>off. ph = Accepted off \<Longrightarrow>
       \<exists>acc later. todo = acc @ later \<and> off = length (frames crc (old @ acc)) \<and> set acc \<subseteq> C" by metis
  have w: "checkpoints_within (sp_disk sp') (sp_end_offset sp')"
    using l(4,8) sp' by (simp add: fail_def checkpoints_within_def)
  have fl: "sp_failed sp'" and cp: "sp_checkpoint_offset sp' = sp_checkpoint_offset sp"
    and en: "sp_end_offset sp' = sp_end_offset sp" using sp' by (simp_all add: fail_def)
  have dk: "sp_disk sp' = write_events (take k (frame_of crc r)) (sp_disk sp)" by (simp add: sp')
  show ?thesis
  proof (cases "k < length (frame_of crc r)")
    case True
    then have "length (dk_events (sp_disk sp)) + k < 2 ^ 63" using len dk by simp
    from disk_inv_torn [OF d [unfolded l(2)] r True this]
    have "disk_inv crc S C (sp_disk sp') rs (take k (frame_of crc r))" unfolding dk .
    moreover have "offsets_ok crc C ph sp' rs (take k (frame_of crc r))"
      by (rule offsets_okI [of rs old todo "[]"]) (use l a w fl cp en in auto)
    ultimately show ?thesis unfolding up_inv_def by blast
  next
    case False
    then have "take k (frame_of crc r) = frame_of crc r" by simp
    with dk have dk': "sp_disk sp' = write_events (frame_of crc r) (sp_disk sp)" by simp
    have "length (dk_events (sp_disk sp)) + length (frame_of crc r) < 2 ^ 63" using len dk' by simp
    from disk_inv_append [OF d [unfolded l(2)] r this l(8)]
    have "disk_inv crc S C (sp_disk sp') (rs @ [r]) []" unfolding dk' .
    moreover have "offsets_ok crc C ph sp' (rs @ [r]) []"
      by (rule offsets_okI [of _ old todo "[r]"]) (use l a w fl cp en in auto)
    ultimately show ?thesis unfolding up_inv_def by blast
  qed
qed

text \<open>A frame that is written, and synchronised for an admitted request, is published.\<close>

definition published :: "bool \<Rightarrow> u8 list \<Rightarrow> spool \<Rightarrow> spool" where
  "published reserved frame sp =
     sp\<lparr>sp_disk := (if reserved then sync_events (write_events frame (sp_disk sp)) else write_events frame (sp_disk sp)),
        sp_writer_end := sp_writer_end sp + length frame, sp_end_offset := sp_writer_end sp + length frame\<rparr>"

lemma published_inv:
  assumes inv: "up_inv crc S C ph sp" and r: "record_ok r" and nf: "\<not> sp_failed sp"
    and sp': "sp' = published reserved (frame_of crc r) sp"
    and len: "length (dk_events (sp_disk sp')) < 2 ^ 63"
  shows "up_inv crc S C ph sp'" and "\<exists>rs. disk_inv crc S C (sp_disk sp') rs [] \<and> offsets_ok crc C ph sp' rs [] \<and>
      (reserved \<longrightarrow> r \<in> set (before crc (dk_durable (sp_disk sp')) rs))"
proof -
  from inv obtain rs tail where d: "disk_inv crc S C (sp_disk sp) rs tail"
    and o: "offsets_ok crc C ph sp rs tail \<or> emptied ph sp" unfolding up_inv_def by blast
  from running_log [OF d o nf] obtain old todo where
    l: "rs = old @ todo" "tail = []" "sp_checkpoint_offset sp = length (frames crc old)"
      "sp_end_offset sp = length (frames crc rs)" "sp_writer_end sp = length (frames crc rs)" "set old \<subseteq> C"
      "dk_events (sp_disk sp) = frames crc rs" "checkpoints_within (sp_disk sp) (length (frames crc rs))"
    and a: "\<And>off. ph = Accepted off \<Longrightarrow>
       \<exists>acc later. todo = acc @ later \<and> off = length (frames crc (old @ acc)) \<and> set acc \<subseteq> C" by metis
  let ?w = "write_events (frame_of crc r) (sp_disk sp)"
  have ev: "dk_events (sp_disk sp') = frames crc (rs @ [r])" using l(7) by (simp add: sp' published_def)
  have "length (dk_events (sp_disk sp)) + length (frame_of crc r) < 2 ^ 63" using len ev l(7) by simp
  from disk_inv_append [OF d [unfolded l(2)] r this l(8)] have dw: "disk_inv crc S C ?w (rs @ [r]) []" .
  have dk: "disk_inv crc S C (sp_disk sp') (rs @ [r]) []"
    using dw disk_inv_sync [OF dw] by (simp add: sp' published_def)
  have "checkpoints (sp_disk sp') = checkpoints (sp_disk sp)" by (simp add: sp' published_def)
  moreover have en: "sp_end_offset sp' = length (frames crc (rs @ [r]))" using l(5) by (simp add: sp' published_def)
  ultimately have w: "checkpoints_within (sp_disk sp') (sp_end_offset sp')"
    using l(8) by (auto simp: checkpoints_within_def intro: trans_le_add1)
  have off: "offsets_ok crc C ph sp' (rs @ [r]) []"
  proof (rule offsets_okI [of _ old "todo @ [r]" "[]", OF _ _ _ l(6) _ _ w])
    show "\<exists>acc later. todo @ [r] = acc @ later \<and> off = length (frames crc (old @ acc)) \<and> set acc \<subseteq> C"
      if ph: "ph = Accepted off" for off
    proof -
      from a [OF ph] obtain acc later where "todo = acc @ later" "off = length (frames crc (old @ acc))" "set acc \<subseteq> C"
        by blast
      then show ?thesis by (intro exI [of _ acc] exI [of _ "later @ [r]"]) simp
    qed
  qed (use l en in \<open>simp_all add: sp' published_def\<close>)
  have "r \<in> set (before crc (dk_durable (sp_disk sp')) (rs @ [r]))" if reserved
  proof -
    have "dk_durable (sp_disk sp') = length (frames crc (rs @ [r]))" using that ev by (simp add: sp' published_def)
    then show ?thesis using before_all [of crc "rs @ [r]"] by (metis in_set_conv_decomp order_refl)
  qed
  with dk off show "\<exists>rs. disk_inv crc S C (sp_disk sp') rs [] \<and> offsets_ok crc C ph sp' rs [] \<and>
      (reserved \<longrightarrow> r \<in> set (before crc (dk_durable (sp_disk sp')) rs))" by blast
  from dk off show "up_inv crc S C ph sp'" unfolding up_inv_def by blast
qed

lemma offsets_ok_disk:
  assumes "offsets_ok crc C ph sp rs tail" and "checkpoints dk = checkpoints (sp_disk sp)"
  shows "offsets_ok crc C ph (sp\<lparr>sp_disk := dk\<rparr>) rs tail" "offsets_ok crc C ph (sp\<lparr>sp_disk := dk, sp_ids := ids\<rparr>) rs tail"
    "offsets_ok crc C ph (fail (sp\<lparr>sp_disk := dk\<rparr>)) rs tail"
  using assms unfolding offsets_ok_def checkpoints_within_def fail_def by (simp_all, blast+)

lemma retired_inv:
  assumes inv: "up_inv crc S C ph sp" and r: "record_ok r" and nf: "\<not> sp_failed sp"
    and sp1: "sp1 = published True (frame_of crc r) sp" and len: "length (dk_events (sp_disk sp1)) < 2 ^ 63"
    and rt: "retire io i (sp_disk sp1) = (dk, res)"
    and one: "\<And>r'. r' \<in> S \<Longrightarrow> er_request_log_id r' = i \<Longrightarrow> slot_holds crc (sp_disk sp) r' \<Longrightarrow> r' = r"
  shows "up_inv crc S C ph (fail (sp1\<lparr>sp_disk := dk\<rparr>))" and "up_inv crc S C ph (sp1\<lparr>sp_disk := dk, sp_ids := ids\<rparr>)"
proof -
  from published_inv(2) [OF inv r nf sp1 len] obtain rs where d: "disk_inv crc S C (sp_disk sp1) rs []"
    and o: "offsets_ok crc C ph sp1 rs []" and b: "r \<in> set (before crc (dk_durable (sp_disk sp1)) rs)" by blast
  have sl: "slot_holds crc (sp_disk sp1) r' = slot_holds crc (sp_disk sp) r'" for r'
    by (simp add: sp1 published_def)
  have "disk_inv crc S C dk rs []"
  proof (rule disk_inv_retire [OF d rt])
    fix r' assume r': "r' \<in> S" "er_request_log_id r' = i"
    from d r'(1) have "kept crc (sp_disk sp1) rs C r'" by (simp add: disk_inv_def)
    then show "r' \<in> C \<or> r' \<in> set (before crc (dk_durable (sp_disk sp1)) rs)"
      using one [OF r'] b sl by (auto simp: kept_def)
  qed
  then show "up_inv crc S C ph (fail (sp1\<lparr>sp_disk := dk\<rparr>))" "up_inv crc S C ph (sp1\<lparr>sp_disk := dk, sp_ids := ids\<rparr>)"
    using offsets_ok_disk [OF o retire_log(3) [OF rt]] unfolding up_inv_def by (auto simp: fail_def)
qed

text \<open>The branches of an append after the slot.\<close>

lemma append_frame_cases:
  assumes "append_frame io reserved i frame sp = (sp', res)"
    and "\<not> sp_failed sp \<longrightarrow> sp_writer_end sp + length frame < 2 ^ 64"
  obtains (refused) err where "sp' = sp" "res = Inl err"
  | (torn) k where "\<not> sp_failed sp" "sp' = fail (sp\<lparr>sp_disk := write_events (take k frame) (sp_disk sp)\<rparr>)" "res = Inl IoError"
  | (unsynced) "\<not> sp_failed sp" "reserved" "res = Inl IoError"
      "sp' = fail (sp\<lparr>sp_disk := write_events frame (sp_disk sp), sp_writer_end := sp_writer_end sp + length frame\<rparr>)"
  | (unreserved) "\<not> sp_failed sp" "\<not> reserved" "sp' = published False frame sp" "res = Inr (length frame)"
  | (kept) dk err where "\<not> sp_failed sp" "reserved" "retire (ai_retire io) i (sp_disk (published True frame sp)) = (dk, Inl err)"
      "sp' = fail ((published True frame sp)\<lparr>sp_disk := dk\<rparr>)" "res = Inl err"
  | (retired) dk u where "\<not> sp_failed sp" "reserved" "retire (ai_retire io) i (sp_disk (published True frame sp)) = (dk, Inr u)"
      "sp' = (published True frame sp)\<lparr>sp_disk := dk, sp_ids := sp_ids sp - {i}\<rparr>" "res = Inr (length frame)"
proof (cases "sp_failed sp \<or> \<not> reserved \<and> sp_max_bytes sp < sat64 (sat64 (sp_writer_end sp + reserved_bytes sp) + length frame)")
  case True
  then show thesis using assms(1) refused by (auto simp: append_frame_def split: if_splits)
next
  case False
  then have nf: "\<not> sp_failed sp" by simp
  with assms(2) have small: "\<not> 2 ^ 64 \<le> sp_writer_end sp + length frame" by auto
  show thesis
  proof (cases "ai_write io")
    case (Some k)
    then show thesis using assms(1) False torn [of k] by (auto simp: append_frame_def)
  next
    case None
    have P: "(sp\<lparr>sp_disk := sync_events (write_events frame (sp_disk sp)),
          sp_writer_end := sp_writer_end sp + length frame, sp_end_offset := sp_writer_end sp + length frame\<rparr>) = published True frame sp"
      "(sp\<lparr>sp_disk := write_events frame (sp_disk sp),
          sp_writer_end := sp_writer_end sp + length frame, sp_end_offset := sp_writer_end sp + length frame\<rparr>) = published False frame sp"
      by (simp_all add: published_def)
    have ids: "sp_ids (published True frame sp) = sp_ids sp" by (simp add: published_def)
    show thesis
    proof (cases reserved)
      case unres: False
      then show thesis using assms(1) False None small nf unreserved
        by (simp add: append_frame_def P Let_def not_le)
    next
      case True
      show thesis
      proof (cases "ai_sync io")
        case False
        then show thesis using assms(1) True None small nf unsynced by (simp add: append_frame_def Let_def not_le)
      next
        case sy: True
        obtain dk rr where rt: "retire (ai_retire io) i (sp_disk (published True frame sp)) = (dk, rr)" by fastforce
        then have rt': "retire (ai_retire io) i (sync_events (write_events frame (sp_disk sp))) = (dk, rr)"
          by (simp add: published_def)
        show thesis using assms(1) True None small nf sy kept [OF nf True] retired [OF nf True] rt rt' ids
          by (cases rr) (auto simp: append_frame_def published_def Let_def not_le)
      qed
    qed
  qed
qed

lemma up_inv_writer: "up_inv crc S C ph sp \<Longrightarrow> sp_failed sp \<Longrightarrow> up_inv crc S C ph (sp\<lparr>sp_writer_end := n\<rparr>)"
  unfolding up_inv_def offsets_ok_def emptied_def by simp

lemma up_inv_secured:
  "up_inv crc S C ph sp \<Longrightarrow> (\<And>r. r \<in> T \<Longrightarrow> slot_holds crc (sp_disk sp) r) \<Longrightarrow> up_inv crc (S \<union> T) C ph sp"
  unfolding up_inv_def disk_inv_def kept_def by blast

lemma up_inv_small:
  assumes "up_inv crc S C ph sp" and "\<not> sp_failed sp"
  shows "sp_writer_end sp < 2 ^ 63" and "sp_writer_end sp = length (dk_events (sp_disk sp))"
proof -
  from assms(1) obtain rs tail where d: "disk_inv crc S C (sp_disk sp) rs tail"
    and o: "offsets_ok crc C ph sp rs tail \<or> emptied ph sp" unfolding up_inv_def by blast
  from running_log [OF d o assms(2)]
  have eq: "sp_writer_end sp = length (frames crc rs)" "dk_events (sp_disk sp) = frames crc rs" by metis+
  then show "sp_writer_end sp = length (dk_events (sp_disk sp))" by simp
  with d show "sp_writer_end sp < 2 ^ 63" unfolding disk_inv_def journal_is_def by auto
qed

lemma record_frame_small: "record_ok r \<Longrightarrow> length (frame_of crc r) < 2 ^ 63"
  by (simp add: record_ok_def MAX_PAYLOAD_BYTES_def FRAME_HEADER_BYTES_def)

lemma append_frame_inv:
  assumes inv: "up_inv crc S C ph sp" and r: "record_ok r"
    and af: "append_frame io reserved i (frame_of crc r) sp = (sp', res)"
    and len: "length (dk_events (sp_disk sp')) < 2 ^ 63"
    and one: "\<And>r'. reserved \<Longrightarrow> r' \<in> S \<Longrightarrow> er_request_log_id r' = i \<Longrightarrow> slot_holds crc (sp_disk sp) r' \<Longrightarrow> r' = r"
  shows "up_inv crc S C ph sp'"
proof -
  have small: "\<not> sp_failed sp \<longrightarrow> sp_writer_end sp + length (frame_of crc r) < 2 ^ 64"
    using up_inv_small(1) [OF inv] record_frame_small [OF r, of crc] by (auto simp del: length_frame)
  from af small show ?thesis
  proof (cases rule: append_frame_cases)
    case refused
    then show ?thesis using inv by simp
  next
    case (torn k)
    then show ?thesis using append_torn [OF inv r torn(1) torn(2) len] by simp
  next
    case unsynced
    let ?w = "fail (sp\<lparr>sp_disk := write_events (take (length (frame_of crc r)) (frame_of crc r)) (sp_disk sp)\<rparr>)"
    have "length (dk_events (sp_disk ?w)) < 2 ^ 63" using len unsynced(4) by simp
    note w = up_inv_writer [OF append_torn [OF inv r unsynced(1) refl this], of "sp_writer_end sp + length (frame_of crc r)"]
    have "sp' = ?w\<lparr>sp_writer_end := sp_writer_end sp + length (frame_of crc r)\<rparr>" using unsynced(4) by (simp add: fail_def)
    then show ?thesis using w by (simp add: fail_def)
  next
    case unreserved
    then show ?thesis using published_inv(1) [OF inv r unreserved(1) unreserved(3) len] by simp
  next
    case (kept dk err)
    have l: "length (dk_events (sp_disk (published True (frame_of crc r) sp))) < 2 ^ 63"
      using len retire_log(1) [OF kept(3)] kept(4) by simp
    from retired_inv(1) [OF inv r kept(1) refl l kept(3) one [OF kept(2)]] show ?thesis using kept(4) by simp
  next
    case (retired dk u)
    have l: "length (dk_events (sp_disk (published True (frame_of crc r) sp))) < 2 ^ 63"
      using len retire_log(1) [OF retired(3)] retired(4) by simp
    from retired_inv(2) [OF inv r retired(1) refl l retired(3) one [OF retired(2)]] show ?thesis using retired(4) by simp
  qed
qed

lemma slot_holds_unique:
  assumes J: "serde_round_trip J" and "journal_encode J e = Inr r" "record_ok r" "journal_encode J e' = Inr r'" "record_ok r'"
    and "slot_holds crc dk r" "slot_holds crc dk r'" "er_request_log_id r = er_request_log_id r'"
  shows "r' = r"
proof -
  have id: "jo_event_id J e' = jo_event_id J e"
    using journal_codec(2) [OF J assms(2)] journal_codec(2) [OF J assms(4)] assms(8) by metis
  have "(Inr (Some e) :: spool_error + 'b option) = Inr (Some e')"
    by (rule trans [OF slot_read_back [OF J assms(2,3,6), symmetric] slot_read_back [OF J assms(4,5,7), unfolded id]])
  then have "e = e'" by (rule Inr_inject [THEN option.inject [THEN iffD1]])
  with assms(2) have "journal_encode J e' = Inr r" by (rule back_subst)
  with assms(4) show ?thesis by (rule Inr_inject [OF trans [OF sym]])
qed

lemma save_log:
  assumes "save_terminal J crc io e dk = (dk', res)"
  shows "dk_events dk' = dk_events dk" "dk_durable dk' = dk_durable dk" "checkpoints dk' = checkpoints dk"
    "j \<noteq> jo_event_id J e \<Longrightarrow> hm_get (dk_slots dk') j = hm_get (dk_slots dk) j"
  using save_frame [OF assms] by (auto simp: set_slot_def checkpoints_def hm_get_insert)

lemma append_cases:
  assumes ap: "spool_append J crc io e sp = (sp', res)"
  obtains (none) "sp' = sp" "secured_by J crc io e A sp = {}"
    | (plain) r where "journal_encode J e = Inr r" "record_ok r" "jo_event_id J e \<notin> sp_ids sp"
        "append_frame io False (jo_event_id J e) (frame_of crc r) sp = (sp', res)"
    | (bad) dk err where "save_terminal J crc (ai_save io) e (sp_disk sp) = (dk, Inl err)" "sp' = fail (sp\<lparr>sp_disk := dk\<rparr>)"
    | (good) r dk u where "journal_encode J e = Inr r" "record_ok r" "save_terminal J crc (ai_save io) e (sp_disk sp) = (dk, Inr u)"
        "append_frame io True (jo_event_id J e) (frame_of crc r) (sp\<lparr>sp_disk := dk\<rparr>) = (sp', res)"
proof (cases "journal_encode J e")
  case (Inl err)
  then have "secured_by J crc io e A sp = {}" by (simp add: secured_by_def)
  then show thesis using none ap Inl by (simp add: spool_append_def)
next
  case (Inr r)
  show thesis
  proof (cases "record_ok r")
    case False
    then have "snd (save_terminal J crc (ai_save io) e (sp_disk sp)) \<noteq> Inr ()" "encode_frame crc r = Inl (PayloadTooLarge (length (er_payload r)))"
      using Inr by (simp_all add: save_terminal_def record_ok_def encode_frame_def)
    then show thesis using none ap Inr by (simp add: spool_append_def secured_by_def)
  next
    case True
    then have fr: "encode_frame crc r = Inr (frame_of crc r)" by (simp add: record_ok_def encode_frame_def)
    show thesis
    proof (cases "jo_event_id J e \<in> sp_ids sp")
      case False
      then show thesis using plain [OF Inr True False] ap Inr fr by (simp add: spool_append_def)
    next
      case m: True
      obtain dk sv where sv: "save_terminal J crc (ai_save io) e (sp_disk sp) = (dk, sv)" by fastforce
      show thesis
      proof (cases sv)
        case (Inl err)
        then show thesis using bad sv ap m \<open>journal_encode J e = Inr r\<close> fr by (simp add: spool_append_def)
      next
        case (Inr u)
        then show thesis using good [OF \<open>journal_encode J e = Inr r\<close> True] sv ap m \<open>journal_encode J e = Inr r\<close> fr
          by (simp add: spool_append_def)
      qed
    qed
  qed
qed

lemma append_inv:
  assumes J: "serde_round_trip J" and S: "secured_ok J S" and inv: "up_inv crc S C ph sp"
    and ap: "spool_append J crc io e sp = (sp', res)" and len: "length (dk_events (sp_disk sp')) < 2 ^ 63"
    and one: "\<And>r. r \<in> S \<Longrightarrow> er_request_log_id r = jo_event_id J e \<Longrightarrow> slot_holds crc (sp_disk sp) r \<Longrightarrow> journal_encode J e = Inr r"
  shows "up_inv crc (S \<union> secured_by J crc io e A sp) C ph sp' \<and> secured_ok J (S \<union> secured_by J crc io e A sp)"
proof -
  let ?i = "jo_event_id J e"
  consider (none) "sp' = sp" "secured_by J crc io e A sp = {}"
    | (plain) r where "journal_encode J e = Inr r" "record_ok r" "?i \<notin> sp_ids sp" "append_frame io False ?i (frame_of crc r) sp = (sp', res)"
    | (bad) dk err where "save_terminal J crc (ai_save io) e (sp_disk sp) = (dk, Inl err)" "sp' = fail (sp\<lparr>sp_disk := dk\<rparr>)"
    | (good) r dk u where "journal_encode J e = Inr r" "record_ok r" "save_terminal J crc (ai_save io) e (sp_disk sp) = (dk, Inr u)"
        "append_frame io True ?i (frame_of crc r) (sp\<lparr>sp_disk := dk\<rparr>) = (sp', res)"
    by (rule append_cases [OF ap])
  then show ?thesis
  proof cases
    case none
    then show ?thesis using inv S by simp
  next
    case plain
    have "secured_by J crc io e A sp = {}" using plain(3) by (simp add: secured_by_def)
    then show ?thesis using append_frame_inv [OF inv plain(2,4) len] S by simp
  next
    case bad
    have "up_inv crc S C ph (sp\<lparr>sp_disk := dk\<rparr>)"
    proof (rule up_inv_same [OF inv])
      show "same_log sp (sp\<lparr>sp_disk := dk\<rparr>)" using save_log [OF bad(1)] by (simp add: same_log_def)
    qed (use save_keeps [OF bad(1)] one in simp)
    then show ?thesis using bad S up_inv_failed by (simp add: secured_by_def)
  next
    case good
    let ?sp = "sp\<lparr>sp_disk := dk\<rparr>" and ?T = "secured_by J crc io e A sp"
    have held: "slot_holds crc dk r" using save_secures [OF good(3)] good(1) by auto
    have T: "?T \<subseteq> {r}" using good(1) by (auto simp: secured_by_def)
    have "up_inv crc S C ph ?sp"
    proof (rule up_inv_same [OF inv])
      show "same_log sp ?sp" using save_log [OF good(3)] by (simp add: same_log_def)
    qed (use save_keeps [OF good(3)] one in simp)
    then have i': "up_inv crc (S \<union> ?T) C ph ?sp" by (rule up_inv_secured) (use T held in auto)
    have S': "secured_ok J (S \<union> ?T)" using S T good(1,2) by (auto simp: secured_ok_def)
    have "up_inv crc (S \<union> ?T) C ph sp'"
    proof (rule append_frame_inv [OF i' good(2,4) len])
      fix r' assume r': "r' \<in> S \<union> ?T" "er_request_log_id r' = ?i" "slot_holds crc (sp_disk ?sp) r'"
      from S' r'(1) obtain e' where "journal_encode J e' = Inr r'" "record_ok r'" by (auto simp: secured_ok_def)
      then show "r' = r"
        using slot_holds_unique [OF J good(1,2) _ _ held] r' journal_codec(2) [OF J good(1)] by simp
    qed
    with S' show ?thesis by simp
  qed
qed

subsection \<open>Synchronisation and ingestion\<close>

lemma offsets_ok_synced:
  "offsets_ok crc C ph (sp\<lparr>sp_disk := sync_events (sp_disk sp), sp_synced_offset := n\<rparr>) rs tail = offsets_ok crc C ph sp rs tail"
  "emptied ph (sp\<lparr>sp_disk := sync_events (sp_disk sp), sp_synced_offset := n\<rparr>) = emptied ph sp"
  by (simp_all add: offsets_ok_def emptied_def checkpoints_within_def)

lemma sync_inv:
  assumes inv: "up_inv crc S C ph sp" and sy: "spool_sync_data ok sp = (sp', res)"
  shows "up_inv crc S C ph sp'"
proof -
  have synced: "up_inv crc S C ph (sp\<lparr>sp_disk := sync_events (sp_disk sp), sp_synced_offset := n\<rparr>)" for n
  proof -
    from inv obtain rs tail where "disk_inv crc S C (sp_disk sp) rs tail" "offsets_ok crc C ph sp rs tail \<or> emptied ph sp"
      unfolding up_inv_def by blast
    then show ?thesis
      unfolding up_inv_def offsets_ok_synced by (intro exI [of _ rs] exI [of _ tail]) (simp add: disk_inv_sync)
  qed
  have "up_inv crc S C ph (sp\<lparr>sp_synced_offset := n\<rparr>)" for n
    by (rule up_inv_same [OF inv]) (simp_all add: same_log_def)
  then show ?thesis using sy inv synced up_inv_failed [OF inv]
    by (auto simp: spool_sync_data_def Let_def split: if_splits)
qed

lemma up_inv_phase: "up_inv crc S C ph sp \<Longrightarrow> (\<And>off. ph' \<noteq> Accepted off) \<Longrightarrow> up_inv crc S C ph' sp"
  unfolding up_inv_def offsets_ok_def emptied_def by blast

lemma frames_length_inj:
  assumes "length (frames crc (a @ b)) = length (frames crc a)"
  shows "b = []"
  using assms by (cases b) (simp_all add: FRAME_HEADER_BYTES_def)

text \<open>Reading from the checkpoint returns the next records in order, whatever follows the published end.\<close>

lemma read_pending:
  assumes d: "disk_inv crc S C (sp_disk sp) rs tail" and o: "offsets_ok crc C ph sp rs tail"
  obtains old todo rest where "rs = old @ todo @ rest" "set old \<subseteq> C"
    "sp_checkpoint_offset sp = length (frames crc old)" "sp_end_offset sp = length (frames crc (old @ todo))"
    "\<And>n. read_batch crc (dk_events (sp_disk sp)) (sp_end_offset sp) (sp_checkpoint_offset sp) n =
       Inr \<lparr>rb_records = take n todo, rb_start_offset = length (frames crc old),
            rb_end_offset = length (frames crc (old @ take n todo))\<rparr>"
proof -
  from o obtain old todo rest where l: "rs = old @ todo @ rest" "sp_checkpoint_offset sp = length (frames crc old)"
    "sp_end_offset sp = length (frames crc (old @ todo))" "set old \<subseteq> C" unfolding offsets_ok_def by blast
  have ev: "dk_events (sp_disk sp) = frames crc (old @ todo) @ (frames crc rest @ tail)"
    and ok: "\<forall>r \<in> set todo. record_ok r" and len: "length (dk_events (sp_disk sp)) < 2 ^ 63"
    using d l(1) by (auto simp: disk_inv_def journal_is_def)
  have "length (frames crc (old @ todo) @ (frames crc rest @ tail)) < 2 ^ 64" using len unfolding ev by simp
  then have "length (frames crc (old @ todo)) < 2 ^ 64" by simp
  from frames_read_back [OF ok this] \<open>length (frames crc (old @ todo) @ (frames crc rest @ tail)) < 2 ^ 64\<close>
  show thesis using that [of old todo rest] l ev by simp
qed

lemma read_inv:
  assumes inv: "up_inv crc S C Reading sp"
    and st: "ingest_step crc n accepted persisted cio (Reading, sp) = ((ph', sp'), rs')"
  shows "up_inv crc S (C \<union> set rs') ph' sp'"
proof -
  from inv obtain rs tail where d: "disk_inv crc S C (sp_disk sp) rs tail"
    and o: "offsets_ok crc C Reading sp rs tail \<or> emptied Reading sp" unfolding up_inv_def by blast
  from o show ?thesis
  proof
    assume "emptied Reading sp"
    then have "read_batch crc (dk_events (sp_disk sp)) (sp_end_offset sp) (sp_checkpoint_offset sp) n =
      Inr \<lparr>rb_records = [], rb_start_offset = sp_end_offset sp, rb_end_offset = sp_end_offset sp\<rparr>"
      by (simp add: emptied_def read_batch_def)
    then show ?thesis using st up_inv_phase [OF inv, of Compacting] by (simp add: ingest_step_def)
  next
    assume o: "offsets_ok crc C Reading sp rs tail"
    from read_pending [OF d o] obtain old todo rest where l: "rs = old @ todo @ rest" "set old \<subseteq> C"
      "sp_checkpoint_offset sp = length (frames crc old)" "sp_end_offset sp = length (frames crc (old @ todo))"
      and rd: "read_batch crc (dk_events (sp_disk sp)) (sp_end_offset sp) (sp_checkpoint_offset sp) n =
       Inr \<lparr>rb_records = take n todo, rb_start_offset = length (frames crc old),
            rb_end_offset = length (frames crc (old @ take n todo))\<rparr>" by metis
    show ?thesis
    proof (cases "take n todo \<noteq> [] \<and> accepted")
      case False
      then have "sp' = sp" "rs' = []" "ph' = Compacting \<or> ph' = Reading"
        using st rd by (auto simp: ingest_step_def split: if_splits)
      then show ?thesis using up_inv_phase [OF inv] inv by auto
    next
      case True
      then have e: "sp' = sp" "rs' = take n todo" "ph' = Accepted (length (frames crc (old @ take n todo)))"
        using st rd by (auto simp: ingest_step_def split: if_splits)
      have "offsets_ok crc (C \<union> set rs') ph' sp rs tail"
      proof (rule offsets_okI [OF l(1,3,4)])
        show "\<exists>acc later. todo = acc @ later \<and> off = length (frames crc (old @ acc)) \<and> set acc \<subseteq> C \<union> set rs'"
          if "ph' = Accepted off" for off
          using that e by (intro exI [of _ "take n todo"] exI [of _ "drop n todo"]) simp
        show "rest = [] \<and> tail = [] \<and> sp_writer_end sp = sp_end_offset sp" if "\<not> sp_failed sp"
        proof -
          from running_log [OF d disjI1 [OF o] that] have "tail = []" "sp_writer_end sp = length (frames crc rs)"
            "sp_end_offset sp = length (frames crc rs)" by metis+
          then show ?thesis using l(1,4) frames_length_inj [of crc "old @ todo" rest] by simp
        qed
        show "checkpoints_within (sp_disk sp) (sp_end_offset sp)" using o by (simp add: offsets_ok_def)
      qed (use l(2) in auto)
      with disk_inv_commit [OF d, of "C \<union> set rs'"] e(1) show ?thesis unfolding up_inv_def by auto
    qed
  qed
qed

lemma before_old: "before crc (length (frames crc old)) (old @ rs) = old"
  using before_append_ge [of crc old "length (frames crc old)" rs] by simp

lemma checkpoint_inv:
  assumes inv: "up_inv crc S C (Accepted off) sp"
    and st: "ingest_step crc n accepted persisted cio (Accepted off, sp) = ((ph', sp'), rs')"
  shows "up_inv crc S (C \<union> set rs') ph' sp'"
proof (cases "persisted \<and> sp_checkpoint_offset sp \<le> off \<and> off \<le> sp_end_offset sp")
  case False
  then have "sp' = sp" "rs' = []" "ph' = Reading"
    using st by (auto simp: ingest_step_def spool_checkpoint_def split: if_splits)
  then show ?thesis using up_inv_phase [OF inv] by simp
next
  case True
  let ?sp = "sp\<lparr>sp_disk := persist_checkpoint off (sp_disk sp), sp_checkpoint_offset := off\<rparr>"
  have e: "sp' = ?sp" "rs' = []" "ph' = Compacting"
    using st True by (auto simp: ingest_step_def spool_checkpoint_def)
  from inv obtain rs tail where d: "disk_inv crc S C (sp_disk sp) rs tail"
    and o: "offsets_ok crc C (Accepted off) sp rs tail" unfolding up_inv_def emptied_def by blast
  from o obtain old todo rest acc later where
    l: "rs = old @ todo @ rest" "sp_end_offset sp = length (frames crc (old @ todo))" "set old \<subseteq> C"
      "\<not> sp_failed sp \<longrightarrow> rest = [] \<and> tail = [] \<and> sp_writer_end sp = sp_end_offset sp"
    and a: "todo = acc @ later" "off = length (frames crc (old @ acc))" "set acc \<subseteq> C"
    and w: "checkpoints_within (sp_disk sp) (sp_end_offset sp)"
    unfolding offsets_ok_def by blast
  have small: "off < 2 ^ 64"
  proof -
    have "length (dk_events (sp_disk sp)) < 2 ^ 63" "off \<le> length (dk_events (sp_disk sp))"
      using d l(1) a(1,2) by (auto simp: disk_inv_def journal_is_def)
    then show ?thesis by simp
  qed
  have "before crc off rs = old @ acc" using l(1) a(1,2) before_old [of crc "old @ acc" "later @ rest"] by simp
  then have "disk_inv crc S C (sp_disk ?sp) rs tail"
    using disk_inv_persist [OF d small] l(3) a(3) by simp
  moreover have "offsets_ok crc C Compacting ?sp rs tail"
  proof (rule offsets_okI [of rs "old @ acc" later rest])
    show "checkpoints_within (sp_disk ?sp) (sp_end_offset ?sp)" using True w small by (simp add: within_persist)
  qed (use l a in auto)
  ultimately show ?thesis unfolding e up_inv_def by auto
qed

text \<open>Compaction: the log it empties was drained, so all of its records are committed.\<close>

lemma checkpoint_value_zero: "checkpoint_value (Some (to_le_bytes 8 (0 :: u64))) = Some 0"
  using checkpoint_value_persisted [of 0] by simp

definition settled :: "disk \<Rightarrow> disk" where
  "settled dk = sync_directory (persist_checkpoint 0 (sync_events dk))"

lemma settled_simps [simp]:
  "dk_events (settled dk) = dk_events dk" "dk_durable (settled dk) = length (dk_events dk)"
  "slot_holds crc (settled dk) r = slot_holds crc dk r" "checkpoints (settled dk) = {Some (to_le_bytes 8 (0 :: u64))}"
  by (simp_all add: settled_def)

lemma compact_cases:
  assumes "compact_if_drained cio sp = (sp', res)"
  obtains (same) "sp' = sp"
  | (drained) "\<not> sp_failed sp" "sp_checkpoint_offset sp = sp_end_offset sp" "sp_end_offset sp = sp_writer_end sp"
      "sp' = fail sp \<or> sp' = fail (sp\<lparr>sp_disk := sync_events (sp_disk sp)\<rparr>) \<or>
       sp' = fail (sp\<lparr>sp_disk := persist_checkpoint 0 (sync_events (sp_disk sp))\<rparr>) \<or>
       sp' = fail (sp\<lparr>sp_disk := settled (sp_disk sp)\<rparr>) \<or>
       sp' = fail (sp\<lparr>sp_disk := (settled (sp_disk sp))\<lparr>dk_events := [], dk_durable := 0\<rparr>\<rparr>) \<or>
       sp' = sp\<lparr>sp_disk := (settled (sp_disk sp))\<lparr>dk_events := [], dk_durable := 0\<rparr>, sp_writer_end := 0,
                sp_checkpoint_offset := 0, sp_end_offset := 0, sp_synced_offset := 0, sp_capacity_pressure := False\<rparr>"
proof (cases "sp' = sp")
  case True
  then show thesis by (rule same)
next
  case False
  then have c: "\<not> sp_failed sp" "sp_checkpoint_offset sp = sp_end_offset sp" "sp_end_offset sp = sp_writer_end sp"
    using assms by (auto simp: compact_if_drained_def Let_def split: if_splits)
  show thesis
    using assms False drained [OF c]
    by (cases cio) (auto simp: compact_if_drained_def compact_disk_def Let_def settled_def split: if_splits)
qed

lemma compact_inv:
  assumes inv: "up_inv crc S C ph sp" and ph: "ph = Compacting" and cp: "compact_if_drained cio sp = (sp', res)"
  shows "up_inv crc S C Reading sp'"
  using cp
proof (cases rule: compact_cases)
  case same
  then show ?thesis using up_inv_phase [OF inv] by simp
next
  case drained
  from inv obtain rs tail where d: "disk_inv crc S C (sp_disk sp) rs tail"
    and o: "offsets_ok crc C ph sp rs tail \<or> emptied ph sp" unfolding up_inv_def by blast
  from running_log [OF d o drained(1)] obtain old todo where
    l: "rs = old @ todo" "tail = []" "sp_checkpoint_offset sp = length (frames crc old)"
      "sp_end_offset sp = length (frames crc rs)" "set old \<subseteq> C"
      "dk_events (sp_disk sp) = frames crc rs" "checkpoints_within (sp_disk sp) (length (frames crc rs))" by metis
  have "todo = []" using drained(2) l(1,3,4) frames_length_inj [of crc old todo] by simp
  with l have old: "rs = old" "set rs \<subseteq> C" by simp_all
  have inv': "up_inv crc S C Reading sp" using up_inv_phase [OF inv] by simp
  have failing: "up_inv crc S C Reading (fail (sp\<lparr>sp_disk := dk\<rparr>))"
    if "disk_inv crc S C dk rs []" "checkpoints_within dk (length (frames crc rs))" for dk
  proof -
    have "offsets_ok crc C Reading (fail (sp\<lparr>sp_disk := dk\<rparr>)) rs []"
      by (rule offsets_okI [of rs rs "[]" "[]"]) (use that l old in \<open>auto simp: fail_def\<close>)
    with that(1) show ?thesis unfolding up_inv_def by auto
  qed
  have zero: "set (before crc 0 rs') \<subseteq> C" for rs' by simp
  have ds: "disk_inv crc S C (sync_events (sp_disk sp)) rs []" using disk_inv_sync [OF d] l(2) by simp
  have dp: "disk_inv crc S C (persist_checkpoint 0 (sync_events (sp_disk sp))) rs []"
    by (rule disk_inv_persist [OF ds _ zero]) simp
  have dt: "disk_inv crc S C (settled (sp_disk sp)) rs []"
    by (rule disk_inv_slots [OF dp]) (auto simp: settled_def kept_def)
  let ?e = "(settled (sp_disk sp))\<lparr>dk_events := [], dk_durable := 0\<rparr>"
  have ek: "kept crc ?e [] C r" if "r \<in> S" for r
  proof -
    have "kept crc (settled (sp_disk sp)) rs C r" using dt that by (simp add: disk_inv_def)
    then have "r \<in> C \<or> slot_holds crc (settled (sp_disk sp)) r" using before_subset old(2) unfolding kept_def by blast
    then show ?thesis by (simp add: kept_def slot_holds_def)
  qed
  have ec: "checkpoints ?e = {Some (to_le_bytes 8 (0 :: u64))}"
    using settled_simps(4) [of "sp_disk sp"] by (simp add: checkpoints_def)
  have de: "disk_inv crc S C ?e [] []"
    unfolding disk_inv_def journal_is_def checkpoints_safe_def ec using ek by (simp add: partial_frame_Nil)
  have w0: "checkpoints_within ?e n" for n unfolding checkpoints_within_def ec by (simp add: checkpoint_value_zero)
  have wp: "checkpoints_within (persist_checkpoint 0 (sync_events (sp_disk sp))) (length (frames crc rs))"
    using l(7) by (simp add: within_persist)
  have ws: "checkpoints_within (settled (sp_disk sp)) n" for n
    by (simp add: checkpoints_within_def checkpoint_value_zero)
  have em: "up_inv crc S C Reading (fail (sp\<lparr>sp_disk := ?e\<rparr>))"
    unfolding up_inv_def
    by (intro exI [of _ "[]"] conjI disjI2) (use de w0 drained(2) in \<open>auto simp: fail_def emptied_def\<close>)
  have ok: "up_inv crc S C Reading (sp\<lparr>sp_disk := ?e, sp_writer_end := 0,
                sp_checkpoint_offset := 0, sp_end_offset := 0, sp_synced_offset := 0, sp_capacity_pressure := False\<rparr>)"
    unfolding up_inv_def
    by (intro exI [of _ "[]"] conjI disjI1 offsets_okI [of _ "[]" "[]" "[]"]) (use de w0 in auto)
  from drained(4) show ?thesis
    using up_inv_failed [OF inv'] failing [OF ds] failing [OF dp wp] failing [OF dt ws] em ok l(7)
    by (elim disjE) simp_all
qed

lemma ingest_inv:
  assumes "up_inv crc S C ph sp" and "ingest_step crc n accepted persisted cio (ph, sp) = ((ph', sp'), rs)"
  shows "up_inv crc S (C \<union> set rs) ph' sp'"
proof (cases ph)
  case Reading
  then show ?thesis using assms read_inv by metis
next
  case (Accepted off)
  then show ?thesis using assms checkpoint_inv by metis
next
  case Compacting
  with assms(2) have "ph' = Reading" "sp' = fst (compact_if_drained cio sp)" "rs = []"
    by (auto simp: ingest_step_def)
  with compact_inv [OF assms(1) Compacting, of cio] show ?thesis by (metis Un_empty_right list.set(1) prod.collapse)
next
  case Stopped
  then show ?thesis using assms by (simp add: ingest_step_def)
qed

subsection \<open>Crash and power loss\<close>

lemma node_disk_inv: "node_inv crc S C nd \<Longrightarrow> \<exists>rs tail. disk_inv crc S C (disk_of nd) rs tail"
  by (cases nd) (auto simp: up_inv_def)

lemma torn_value: "torn_checkpoint b \<Longrightarrow> checkpoint_value b = Some cp \<Longrightarrow> cp = 0"
proof -
  assume t: "torn_checkpoint b" and v: "checkpoint_value b = Some cp"
  then obtain bs where bs: "b = Some bs" "length bs = 8" "set bs \<subseteq> {0}" "cp = unat (from_le_bytes bs :: u64)"
    by (auto simp: torn_checkpoint_def checkpoint_value_def split: option.splits if_splits)
  then have "bs = replicate 8 0" by (metis replicate_eqI singletonD subsetD)
  moreover have "to_le_bytes 8 (0 :: u64) = replicate 8 0" by (simp add: to_le_bytes_def map_replicate_const)
  ultimately show "cp = 0" using bs(4) from_to_le_bytes [of 8 "0 :: u64"] by simp
qed

lemma power_loss_inv:
  assumes d: "disk_inv crc S C dk rs tail" and sv: "survives crc S dk dk'"
  shows "\<exists>rs tail. disk_inv crc S C dk' rs tail"
proof -
  from sv obtain n where n: "dk_durable dk \<le> n" "n \<le> length (dk_events dk)" "dk_events dk' = take n (dk_events dk)"
    "dk_durable dk' = n" and c: "dk_checkpoint dk' \<in> checkpoints dk \<or> torn_checkpoint (dk_checkpoint dk')"
    "dk_checkpoint_older dk' = []" and s: "\<forall>r \<in> S. slot_holds crc dk r \<longrightarrow> slot_holds crc dk' r"
    unfolding survives_def by blast
  have j: "dk_events dk = frames crc rs @ tail" "\<forall>r \<in> set rs. record_ok r" "partial_frame crc tail"
    "length (dk_events dk) < 2 ^ 63" using d by (simp_all only: disk_inv_def journal_is_def) auto
  from take_frames [OF j(2,3), of n] obtain tail' where
    t: "take n (frames crc rs @ tail) = frames crc (before crc n rs) @ tail'" "partial_frame crc tail'" by blast
  let ?rs = "before crc n rs"
  have len: "length (dk_events dk') = n" using n(2,3) by simp
  have "journal_is crc dk' ?rs tail'"
    unfolding journal_is_def using t n j before_subset [of crc n rs] len by (auto simp: subset_iff)
  moreover have "checkpoints_safe crc dk' ?rs C"
  proof -
    have "set (before crc cp ?rs) \<subseteq> C" if v: "checkpoint_value (dk_checkpoint dk') = Some cp" for cp
    proof (cases "torn_checkpoint (dk_checkpoint dk')")
      case True
      then show ?thesis using torn_value [OF True v] by simp
    next
      case False
      then have "set (before crc cp rs) \<subseteq> C" using c(1) v d by (auto simp: disk_inv_def checkpoints_safe_def)
      then show ?thesis using before_prefix by blast
    qed
    then show ?thesis using c(2) by (simp add: checkpoints_safe_def checkpoints_def)
  qed
  moreover have "\<forall>r \<in> S. kept crc dk' ?rs C r"
  proof
    fix r assume r: "r \<in> S"
    have "kept crc dk rs C r" using d r by (simp add: disk_inv_def)
    then show "kept crc dk' ?rs C r"
      using s r n(4) before_mono [OF n(1), of crc rs] before_before [of n n crc rs] by (auto simp: kept_def)
  qed
  ultimately show ?thesis unfolding disk_inv_def by blast
qed

section \<open>Restarting\<close>

lemma strip_zeros_pad: "\<exists>k. c = strip_zeros c @ replicate k 0"
proof -
  have "rev c = takeWhile (\<lambda>b. b = 0) (rev c) @ dropWhile (\<lambda>b. b = 0) (rev c)" by simp
  moreover have "takeWhile (\<lambda>b. b = 0) (rev c) = replicate (length (takeWhile (\<lambda>b. b = 0) (rev c))) 0"
    by (rule replicate_eqI [OF refl]) (auto dest: set_takeWhileD)
  ultimately have "c = strip_zeros c @ replicate (length (takeWhile (\<lambda>b. b = 0) (rev c))) 0"
    unfolding strip_zeros_def by (metis rev_append rev_replicate rev_rev_ident)
  then show ?thesis by blast
qed

lemma slot_holds_strip:
  assumes "hm_get (dk_slots dk) i = Some c" and "slot_holds crc (set_slot i (strip_zeros c) dk) r"
  shows "slot_holds crc dk r"
proof -
  obtain k where k: "c = strip_zeros c @ replicate k 0" using strip_zeros_pad by blast
  show ?thesis
  proof (cases "er_request_log_id r = i")
    case True
    then obtain rest where "strip_zeros c = slot_header crc r @ er_payload r @ rest" using assms(2) by (auto simp: slot_holds_set)
    then have "c = slot_header crc r @ er_payload r @ (rest @ replicate k 0)" using k by simp
    then show ?thesis using assms(1) True unfolding slot_holds_def by blast
  next
    case False
    then show ?thesis using assms(2) by (simp add: slot_holds_set)
  qed
qed

lemma read_terminal_cong:
  "hm_get (dk_slots dk') i = hm_get (dk_slots dk) i \<Longrightarrow> read_terminal J crc dk' i = read_terminal J crc dk i"
  by (simp add: read_terminal_def)

lemma read_terminal_id: "read_terminal J crc dk i = Inr (Some e) \<Longrightarrow> jo_event_id J e = i"
  by (auto simp: read_terminal_def Let_def split: option.splits if_splits sum.splits)

text \<open>A slot with a readable event holds no secured record but that event's.\<close>

lemma read_terminal_unique:
  assumes "serde_round_trip J" "secured_ok J S" "r \<in> S" "slot_holds crc dk r" "er_request_log_id r = i"
    and "read_terminal J crc dk i = Inr x"
  shows "\<exists>e. x = Some e \<and> journal_encode J e = Inr r"
proof -
  from assms(2,3) obtain e where e: "journal_encode J e = Inr r" "record_ok r" by (auto simp: secured_ok_def)
  have "jo_event_id J e = i" using journal_codec(2) [OF assms(1) e(1)] assms(5) by simp
  then show ?thesis using slot_read_back [OF assms(1) e assms(4)] assms(6) e(1) by auto
qed

lemma retain_log:
  assumes "retain_unknown i (dk, retained) = Inr (dk', retained')"
  shows "dk_events dk' = dk_events dk" "dk_durable dk' = dk_durable dk" "checkpoints dk' = checkpoints dk"
    "j \<noteq> i \<Longrightarrow> hm_get (dk_slots dk') j = hm_get (dk_slots dk) j" "slot_holds crc dk' r \<Longrightarrow> slot_holds crc dk r"
proof -
  consider "dk' = dk" | c where "hm_get (dk_slots dk) i = Some c" "dk' = set_slot i (strip_zeros c) dk"
    using assms by (auto simp: retain_unknown_def Let_def split: option.splits if_splits)
  then have "dk_events dk' = dk_events dk \<and> dk_durable dk' = dk_durable dk \<and> checkpoints dk' = checkpoints dk \<and>
    (j \<noteq> i \<longrightarrow> hm_get (dk_slots dk') j = hm_get (dk_slots dk) j) \<and> (slot_holds crc dk' r \<longrightarrow> slot_holds crc dk r)"
    by cases (auto simp: set_slot_def checkpoints_def hm_get_insert intro: slot_holds_strip [unfolded set_slot_def])
  then show "dk_events dk' = dk_events dk" "dk_durable dk' = dk_durable dk" "checkpoints dk' = checkpoints dk"
    "j \<noteq> i \<Longrightarrow> hm_get (dk_slots dk') j = hm_get (dk_slots dk) j" "slot_holds crc dk' r \<Longrightarrow> slot_holds crc dk r" by blast+
qed

text \<open>What opening the admission store does: the journal and the secured slots stay, and the events to
  replay are read from slots of distinct identifiers that stay reserved, among them all the secured ones.\<close>

definition recovered_from ::
  "('v, 'e) journal_ops \<Rightarrow> (u8 list \<Rightarrow> u32) \<Rightarrow> encoded_request_log set \<Rightarrow> uuid list \<Rightarrow> uuid set \<Rightarrow> disk \<Rightarrow> uuid set \<Rightarrow> 'e list \<Rightarrow> bool" where
  "recovered_from J crc S is ids dk ids' es \<longleftrightarrow>
     (\<forall>e \<in> set es. read_terminal J crc dk (jo_event_id J e) = Inr (Some e) \<and> jo_event_id J e \<in> set is) \<and>
     distinct (map (jo_event_id J) es) \<and> jo_event_id J ` set es \<inter> ids \<subseteq> ids' \<and>
     (\<forall>r \<in> S. slot_holds crc dk r \<and> er_request_log_id r \<in> set is \<longrightarrow> (\<exists>e \<in> set es. journal_encode J e = Inr r))"

definition scanned :: "(u8 list \<Rightarrow> u32) \<Rightarrow> encoded_request_log set \<Rightarrow> uuid list \<Rightarrow> disk \<Rightarrow> disk \<Rightarrow> bool" where
  "scanned crc S is dk dk' \<longleftrightarrow>
     dk_events dk' = dk_events dk \<and> dk_durable dk' = dk_durable dk \<and> checkpoints dk' = checkpoints dk \<and>
     (\<forall>j. j \<notin> set is \<longrightarrow> hm_get (dk_slots dk') j = hm_get (dk_slots dk) j) \<and>
     (\<forall>r \<in> S. slot_holds crc dk' r = slot_holds crc dk r)"

lemma scanned_refl: "scanned crc S is dk dk"
  by (simp add: scanned_def)

lemma retain_scanned:
  assumes J: "serde_round_trip J" "secured_ok J S" and "read_terminal J crc dk i = Inr None"
    and rt: "retain_unknown i (dk, retained) = Inr (dk', retained')"
  shows "scanned crc S [i] dk dk'" and "r \<in> S \<Longrightarrow> slot_holds crc dk' r \<Longrightarrow> er_request_log_id r \<noteq> i"
proof -
  note l = retain_log [OF rt]
  have no: "er_request_log_id r \<noteq> i" if "r \<in> S" "slot_holds crc dk r" for r
    using read_terminal_unique [OF J that _ assms(3)] by auto
  then show "r \<in> S \<Longrightarrow> slot_holds crc dk' r \<Longrightarrow> er_request_log_id r \<noteq> i" using l(5) by blast
  have "slot_holds crc dk' r = slot_holds crc dk r" if "r \<in> S" for r
    using no [OF that] l(5) slot_holds_cong [OF l(4)] by metis
  then show "scanned crc S [i] dk dk'" unfolding scanned_def using l by auto
qed

lemma scanned_trans:
  "scanned crc S is dk dk' \<Longrightarrow> scanned crc S js dk' dk'' \<Longrightarrow> scanned crc S (is @ js) dk dk''"
  unfolding scanned_def by auto

lemma recovered_from_Nil: "recovered_from J crc S [] ids dk ids []"
  by (simp add: recovered_from_def)

lemma recovered_from_event:
  assumes J: "serde_round_trip J" "secured_ok J S"
    and rd: "read_terminal J crc dk i = Inr (Some e)" and i: "i \<notin> set is"
    and rec: "recovered_from J crc S is ids dk' ids' es" and sc: "scanned crc S is dk dk'"
    and sub: "ids' \<supseteq> ids - set is"
  shows "recovered_from J crc S (i # is) ids dk' ids' (e # es)"
proof -
  have id: "jo_event_id J e = i" using read_terminal_id [OF rd] .
  have same: "hm_get (dk_slots dk') i = hm_get (dk_slots dk) i" using sc i by (simp add: scanned_def)
  have rd': "read_terminal J crc dk' i = Inr (Some e)" by (rule trans [OF read_terminal_cong [OF same] rd])
  have "\<exists>e \<in> set (e # es). journal_encode J e = Inr r" if "r \<in> S" "slot_holds crc dk' r" "er_request_log_id r \<in> set (i # is)" for r
    using that rec read_terminal_unique [OF J that(1,2) _ rd'] by (auto simp: recovered_from_def)
  moreover have "distinct (map (jo_event_id J) (e # es))" using rec i id by (auto simp: recovered_from_def)
  moreover have "jo_event_id J ` set (e # es) \<inter> ids \<subseteq> ids'" using rec id sub i by (auto simp: recovered_from_def)
  moreover have "\<forall>e' \<in> set (e # es). read_terminal J crc dk' (jo_event_id J e') = Inr (Some e') \<and> jo_event_id J e' \<in> set (i # is)"
    using rec rd' id by (auto simp: recovered_from_def)
  ultimately show ?thesis unfolding recovered_from_def by blast
qed

lemma recovered_from_unknown:
  assumes rec: "recovered_from J crc S is (ids - {i}) dk' ids' es" and i: "i \<notin> set is"
    and no: "\<And>r. r \<in> S \<Longrightarrow> slot_holds crc dk' r \<Longrightarrow> er_request_log_id r \<noteq> i"
  shows "recovered_from J crc S (i # is) ids dk' ids' es"
proof -
  have "jo_event_id J e \<noteq> i" if "e \<in> set es" for e using rec i that by (auto simp: recovered_from_def)
  then have "jo_event_id J ` set es \<inter> ids = jo_event_id J ` set es \<inter> (ids - {i})" by auto
  moreover have "\<forall>r \<in> S. slot_holds crc dk' r \<and> er_request_log_id r \<in> set (i # is) \<longrightarrow> (\<exists>e \<in> set es. journal_encode J e = Inr r)"
    using rec no unfolding recovered_from_def by auto
  ultimately show ?thesis using rec unfolding recovered_from_def by simp
qed

lemma admissions_scan_ok:
  assumes J: "serde_round_trip J" "secured_ok J S"
  shows "admissions_scan J crc is dk retained ids rec = (dk', out) \<Longrightarrow> distinct is \<Longrightarrow>
    scanned crc S is dk dk' \<and>
    (\<forall>retained' ids' all. out = Inr (retained', ids', all) \<longrightarrow>
       ids' \<supseteq> ids - set is \<and> (\<exists>es. all = rec @ es \<and> recovered_from J crc S is ids dk' ids' es))"
proof (induction "is" arbitrary: dk retained ids rec)
  case Nil
  then show ?case using recovered_from_Nil by (auto simp: scanned_refl)
next
  case (Cons i "is")
  have d: "i \<notin> set is" "distinct is" using Cons.prems(2) by simp_all
  show ?case
  proof (cases "read_terminal J crc dk i")
    case (Inl err)
    then show ?thesis using Cons.prems by (auto simp: scanned_refl)
  next
    case rd: (Inr x)
    show ?thesis
    proof (cases x)
      case (Some e)
      with Cons.prems rd have st: "admissions_scan J crc is dk retained ids (rec @ [e]) = (dk', out)" by simp
      note IH = Cons.IH [OF st d(2)]
      have sc: "scanned crc S is dk dk'" using IH by blast
      have "scanned crc S (i # is) dk dk'" using scanned_trans [OF scanned_refl [of crc S "[i]"] sc] by simp
      moreover have "ids' \<supseteq> ids - set (i # is) \<and> (\<exists>es. all = rec @ es \<and> recovered_from J crc S (i # is) ids dk' ids' es)"
        if o: "out = Inr (retained', ids', all)" for retained' ids' all
      proof -
        from IH o obtain es where e: "ids' \<supseteq> ids - set is" "all = (rec @ [e]) @ es" "recovered_from J crc S is ids dk' ids' es"
          by blast
        from recovered_from_event [OF J rd [unfolded Some] d(1) e(3) sc e(1)] e(1,2)
        show ?thesis by (intro conjI exI [of _ "e # es"]) auto
      qed
      ultimately show ?thesis by blast
    next
      case None
      show ?thesis
      proof (cases "retain_unknown i (dk, retained)")
        case (Inl err)
        then show ?thesis using Cons.prems rd None by (auto simp: scanned_refl)
      next
        case (Inr p)
        obtain dk1 retained1 where p: "p = (dk1, retained1)" by fastforce
        with Cons.prems rd None Inr have st: "admissions_scan J crc is dk1 retained1 (ids - {i}) rec = (dk', out)" by simp
        note IH = Cons.IH [OF st d(2)]
        note rt = retain_scanned [OF J rd [unfolded None] Inr [unfolded p]]
        have sc: "scanned crc S is dk1 dk'" using IH by blast
        have sc': "scanned crc S (i # is) dk dk'" using scanned_trans [OF rt(1) sc] by simp
        have no: "er_request_log_id r \<noteq> i" if "r \<in> S" "slot_holds crc dk' r" for r
          using that rt(2) sc by (auto simp: scanned_def)
        have "ids' \<supseteq> ids - set (i # is) \<and> (\<exists>es. all = rec @ es \<and> recovered_from J crc S (i # is) ids dk' ids' es)"
          if o: "out = Inr (retained', ids', all)" for retained' ids' all
        proof -
          from IH o obtain es where e: "ids' \<supseteq> ids - {i} - set is" "all = rec @ es" "recovered_from J crc S is (ids - {i}) dk' ids' es"
            by blast
          from recovered_from_unknown [OF e(3) d(1) no] e(1,2) show ?thesis by auto
        qed
        with sc' show ?thesis by blast
      qed
    qed
  qed
qed

lemma admission_ids_finite: "finite (admission_ids dk)"
  by (simp add: admission_ids_def)

lemma admissions_open_ok:
  assumes J: "serde_round_trip J" "secured_ok J S" and op: "admissions_open J crc dk = (dk', out)"
  shows "scanned crc S (sorted_list_of_set (admission_ids dk)) (sync_directory dk) dk'"
    and "out = Inr (retained, ids, es) \<Longrightarrow>
      (\<forall>e \<in> set es. read_terminal J crc dk' (jo_event_id J e) = Inr (Some e)) \<and> distinct (map (jo_event_id J) es) \<and>
      jo_event_id J ` set es \<subseteq> ids \<and> (\<forall>r \<in> S. slot_holds crc dk' r \<longrightarrow> (\<exists>e \<in> set es. journal_encode J e = Inr r))"
proof -
  let ?ids = "admission_ids dk" and ?is = "sorted_list_of_set (admission_ids dk)"
  have set: "set ?is = ?ids" "distinct ?is" using admission_ids_finite by simp_all
  note sc = admissions_scan_ok [OF J op [unfolded admissions_open_def] set(2)]
  then show s: "scanned crc S ?is (sync_directory dk) dk'" by blast
  assume o: "out = Inr (retained, ids, es)"
  from sc o have r: "recovered_from J crc S ?is ?ids dk' ids es" by auto
  have "er_request_log_id r \<in> set ?is" if "r \<in> S" "slot_holds crc dk' r" for r
  proof -
    have "slot_holds crc dk r" using s that by (simp add: scanned_def)
    then have "er_request_log_id r \<in> fst ` set (dk_slots dk)" unfolding slot_holds_def using hm_get_SomeD by force
    then show ?thesis using set by (simp add: admission_ids_def)
  qed
  with r set(1) show "(\<forall>e \<in> set es. read_terminal J crc dk' (jo_event_id J e) = Inr (Some e)) \<and> distinct (map (jo_event_id J) es) \<and>
      jo_event_id J ` set es \<subseteq> ids \<and> (\<forall>r \<in> S. slot_holds crc dk' r \<longrightarrow> (\<exists>e \<in> set es. journal_encode J e = Inr r))"
    unfolding recovered_from_def by auto
qed

lemma append_frame_effect:
  assumes "append_frame io reserved i frame sp = (sp', res)"
  shows "length (dk_events (sp_disk sp)) \<le> length (dk_events (sp_disk sp'))"
    and "j \<noteq> i \<Longrightarrow> hm_get (dk_slots (sp_disk sp')) j = hm_get (dk_slots (sp_disk sp)) j"
    and "res = Inr n \<Longrightarrow> \<not> sp_failed sp'"
    and "res = Inr n \<Longrightarrow> reserved \<Longrightarrow> hm_get (dk_slots (sp_disk sp')) i = None \<and> sp_ids sp' = sp_ids sp - {i}"
proof -
  have rt: "dk_events dk' = dk_events dk" "k \<noteq> i \<Longrightarrow> hm_get (dk_slots dk') k = hm_get (dk_slots dk) k"
    "r = Inr u \<Longrightarrow> hm_get (dk_slots dk') i = None" if "retire io' i dk = (dk', r)" for io' dk dk' r u k
    using retire_log [OF that] by auto
  have sl: "dk_slots (write_events b dk) = dk_slots dk" "dk_slots (sync_events dk) = dk_slots dk" for b dk
    by (simp_all add: write_events_def sync_events_def)
  show "length (dk_events (sp_disk sp)) \<le> length (dk_events (sp_disk sp'))"
    "j \<noteq> i \<Longrightarrow> hm_get (dk_slots (sp_disk sp')) j = hm_get (dk_slots (sp_disk sp)) j"
    "res = Inr n \<Longrightarrow> \<not> sp_failed sp'"
    "res = Inr n \<Longrightarrow> reserved \<Longrightarrow> hm_get (dk_slots (sp_disk sp')) i = None \<and> sp_ids sp' = sp_ids sp - {i}"
    using assms rt
    by (auto simp: append_frame_def Let_def sl fail_def split: if_splits option.splits prod.splits sum.splits)
qed

lemma append_effect:
  assumes ap: "spool_append J crc io e sp = (sp', res)"
  shows "length (dk_events (sp_disk sp)) \<le> length (dk_events (sp_disk sp'))"
    and "j \<noteq> jo_event_id J e \<Longrightarrow> hm_get (dk_slots (sp_disk sp')) j = hm_get (dk_slots (sp_disk sp)) j"
    and "res = Inr n \<Longrightarrow> \<not> sp_failed sp'"
    and "res = Inr n \<Longrightarrow> jo_event_id J e \<in> sp_ids sp \<Longrightarrow>
      hm_get (dk_slots (sp_disk sp')) (jo_event_id J e) = None \<and> sp_ids sp' = sp_ids sp - {jo_event_id J e}"
proof -
  have "length (dk_events (sp_disk sp)) \<le> length (dk_events (sp_disk sp')) \<and>
    (j \<noteq> jo_event_id J e \<longrightarrow> hm_get (dk_slots (sp_disk sp')) j = hm_get (dk_slots (sp_disk sp)) j) \<and>
    (res = Inr n \<longrightarrow> \<not> sp_failed sp') \<and>
    (res = Inr n \<longrightarrow> jo_event_id J e \<in> sp_ids sp \<longrightarrow>
      hm_get (dk_slots (sp_disk sp')) (jo_event_id J e) = None \<and> sp_ids sp' = sp_ids sp - {jo_event_id J e})"
  proof (cases "\<exists>r frame. journal_encode J e = Inr r \<and> encode_frame crc r = Inr frame")
    case False
    then show ?thesis using ap by (auto simp: spool_append_def split: sum.splits)
  next
    case True
    then obtain r frame where r: "journal_encode J e = Inr r" "encode_frame crc r = Inr frame" by blast
    show ?thesis
    proof (cases "jo_event_id J e \<in> sp_ids sp")
      case False
      then have "append_frame io False (jo_event_id J e) frame sp = (sp', res)" using ap r by (simp add: spool_append_def)
      from append_frame_effect [OF this] False show ?thesis by blast
    next
      case m: True
      obtain dk sv where sv: "save_terminal J crc (ai_save io) e (sp_disk sp) = (dk, sv)" by fastforce
      note s = save_log [OF sv]
      show ?thesis
      proof (cases sv)
        case (Inl err)
        then show ?thesis using ap r m sv s by (auto simp: spool_append_def fail_def)
      next
        case (Inr u)
        then have "append_frame io True (jo_event_id J e) frame (sp\<lparr>sp_disk := dk\<rparr>) = (sp', res)"
          using ap r m sv by (simp add: spool_append_def)
        from append_frame_effect [OF this] s show ?thesis by simp
      qed
    qed
  qed
  then show "length (dk_events (sp_disk sp)) \<le> length (dk_events (sp_disk sp'))"
    "j \<noteq> jo_event_id J e \<Longrightarrow> hm_get (dk_slots (sp_disk sp')) j = hm_get (dk_slots (sp_disk sp)) j"
    "res = Inr n \<Longrightarrow> \<not> sp_failed sp'"
    "res = Inr n \<Longrightarrow> jo_event_id J e \<in> sp_ids sp \<Longrightarrow>
      hm_get (dk_slots (sp_disk sp')) (jo_event_id J e) = None \<and> sp_ids sp' = sp_ids sp - {jo_event_id J e}" by blast+
qed

lemma replay_mono:
  "replay_recovered J crc ios es sp = (sp', res) \<Longrightarrow> length (dk_events (sp_disk sp)) \<le> length (dk_events (sp_disk sp'))"
proof (induction J crc ios es sp rule: replay_recovered.induct)
  case (2 J crc ios e es sp)
  let ?io = "case ios of [] \<Rightarrow> \<lparr>ai_save = SaveOk, ai_write = None, ai_sync = True, ai_retire = RetireOk\<rparr> | io # _ \<Rightarrow> io"
  obtain sp1 r1 where s: "spool_append J crc ?io e sp = (sp1, r1)" by fastforce
  show ?case
  proof (cases r1)
    case (Inl err)
    then show ?thesis using 2(2) s append_effect(1) [OF s] by simp
  next
    case (Inr n)
    then show ?thesis using 2(2) s append_effect(1) [OF s] 2(1) [OF s [symmetric] Inr] by simp
  qed
qed simp

text \<open>Replaying the recovered events keeps the invariant; when it succeeds, none of their slots is left.\<close>

lemma replay_inv:
  assumes J: "serde_round_trip J" "secured_ok J S"
  shows "replay_recovered J crc ios es sp = (sp', res) \<Longrightarrow> up_inv crc S C Reading sp \<Longrightarrow>
    \<forall>e \<in> set es. read_terminal J crc (sp_disk sp) (jo_event_id J e) = Inr (Some e) \<Longrightarrow>
    distinct (map (jo_event_id J) es) \<Longrightarrow> jo_event_id J ` set es \<subseteq> sp_ids sp \<Longrightarrow>
    length (dk_events (sp_disk sp')) < 2 ^ 63 \<Longrightarrow>
    up_inv crc S C Reading sp' \<and>
    (\<forall>u. res = Inr u \<longrightarrow> (\<not> sp_failed sp \<longrightarrow> \<not> sp_failed sp') \<and>
       (\<forall>j. hm_get (dk_slots (sp_disk sp')) j =
              (if j \<in> jo_event_id J ` set es then None else hm_get (dk_slots (sp_disk sp)) j)))"
proof (induction es arbitrary: ios sp)
  case Nil
  then show ?case by simp
next
  case (Cons e es)
  let ?i = "jo_event_id J e"
  let ?io = "case ios of [] \<Rightarrow> \<lparr>ai_save = SaveOk, ai_write = None, ai_sync = True, ai_retire = RetireOk\<rparr> | io # _ \<Rightarrow> io"
  obtain sp1 r1 where s: "spool_append J crc ?io e sp = (sp1, r1)" by fastforce
  note eff = append_effect [OF s]
  have rest: "replay_recovered J crc (tl ios) es sp1 = (sp', res)" if "r1 = Inr n" for n using Cons.prems(1) s that by simp
  have len: "length (dk_events (sp_disk sp1)) < 2 ^ 63"
  proof (cases r1)
    case (Inl err)
    then show ?thesis using Cons.prems(1,6) s by simp
  next
    case (Inr n)
    then show ?thesis using replay_mono [OF rest [OF Inr]] Cons.prems(6) by simp
  qed
  have rd: "read_terminal J crc (sp_disk sp) ?i = Inr (Some e)" using Cons.prems(3) by simp
  have "journal_encode J e = Inr r" if "r \<in> S" "er_request_log_id r = ?i" "slot_holds crc (sp_disk sp) r" for r
    using read_terminal_unique [OF J that(1,3,2) rd] by auto
  from append_inv [OF J Cons.prems(2) s len this, where A = "{}"] have inv: "up_inv crc S C Reading sp1"
    by (simp add: secured_by_def)
  show ?case
  proof (cases r1)
    case (Inl err)
    then show ?thesis using Cons.prems(1) s inv by auto
  next
    case (Inr n)
    have i: "?i \<in> sp_ids sp" "?i \<notin> jo_event_id J ` set es" using Cons.prems(4,5) by auto
    note e4 = eff(4) [OF Inr i(1)]
    have "read_terminal J crc (sp_disk sp1) (jo_event_id J e') = Inr (Some e')" if "e' \<in> set es" for e'
    proof -
      have "jo_event_id J e' \<noteq> ?i" using i(2) that by (metis imageI)
      from read_terminal_cong [OF eff(2) [OF this]] show ?thesis by (rule trans) (use Cons.prems(3) that in simp)
    qed
    moreover have "jo_event_id J ` set es \<subseteq> sp_ids sp1"
    proof -
      have "jo_event_id J ` set es \<subseteq> sp_ids sp - {?i}" using Cons.prems(5) i(2) by (simp add: subset_Diff_insert)
      then show ?thesis using e4 by simp
    qed
    ultimately have "up_inv crc S C Reading sp' \<and>
      (\<forall>u. res = Inr u \<longrightarrow> (\<not> sp_failed sp1 \<longrightarrow> \<not> sp_failed sp') \<and>
       (\<forall>j. hm_get (dk_slots (sp_disk sp')) j =
              (if j \<in> jo_event_id J ` set es then None else hm_get (dk_slots (sp_disk sp1)) j)))"
      using Cons.prems(4,6) by (intro Cons.IH [OF rest [OF Inr] inv]) auto
    moreover have "hm_get (dk_slots (sp_disk sp1)) j = (if j = ?i then None else hm_get (dk_slots (sp_disk sp)) j)" for j
      using eff(2) e4 by simp
    ultimately show ?thesis using eff(3) [OF Inr] by simp
  qed
qed

lemma read_checkpoint_value: "read_checkpoint dk = Inr cp \<Longrightarrow> checkpoint_value (dk_checkpoint dk) = Some cp"
  by (auto simp: read_checkpoint_def checkpoint_value_def split: option.splits if_splits)

definition repaired :: "u8 list \<Rightarrow> disk \<Rightarrow> disk" where
  "repaired file' dk = (if file' = dk_events dk then dk else dk\<lparr>dk_events := file', dk_durable := length file'\<rparr>)"

lemma repaired_simps [simp]:
  "dk_events (repaired file' dk) = file'" "dk_checkpoint (repaired file' dk) = dk_checkpoint dk"
  "checkpoints (repaired file' dk) = checkpoints dk" "slot_holds crc (repaired file' dk) r = slot_holds crc dk r"
  by (simp_all add: repaired_def checkpoints_def slot_holds_def)

lemma repaired_inv:
  assumes "disk_inv crc S C dk rs tail"
  shows "disk_inv crc S C (repaired (frames crc rs) dk) rs []"
proof (cases "tail = []")
  case True
  then have "repaired (frames crc rs) dk = dk" using assms by (simp add: repaired_def disk_inv_def journal_is_def)
  then show ?thesis using assms True by simp
next
  case False
  have j: "dk_events dk = frames crc rs @ tail" "length (dk_events dk) < 2 ^ 63" "\<forall>r \<in> set rs. record_ok r"
    using assms unfolding disk_inv_def journal_is_def by blast+
  then have dur: "dk_durable (repaired (frames crc rs) dk) = length (frames crc rs)" using False by (simp add: repaired_def)
  have "set (before crc (dk_durable dk) rs) \<subseteq> set (before crc (length (frames crc rs)) rs)"
    using before_all [of crc rs "length (frames crc rs)"] before_subset by simp
  then have "\<forall>r \<in> S. kept crc (repaired (frames crc rs) dk) rs C r"
    using assms unfolding disk_inv_def kept_def dur by auto
  moreover have "journal_is crc (repaired (frames crc rs) dk) rs []"
    unfolding journal_is_def dur using j by (simp add: partial_frame_Nil)
  ultimately show ?thesis using assms unfolding disk_inv_def checkpoints_safe_def by simp
qed

lemma scanned_inv:
  assumes "disk_inv crc S C dk rs tail" and "scanned crc S is (sync_directory dk) dk'"
  shows "disk_inv crc S C dk' rs tail"
proof (rule disk_inv_slots [OF assms(1)])
  have "dk_checkpoint dk \<in> checkpoints dk" by (simp add: checkpoints_def)
  then show "checkpoints dk' \<subseteq> checkpoints dk" using assms(2) by (simp add: scanned_def)
qed (use assms(2) in \<open>simp_all add: scanned_def kept_def\<close>)

text \<open>The stages of opening.\<close>

lemma open_cases:
  assumes op: "open_with_limits J crc ios threshold max_bytes min_free dk = (dk', res)"
    and d: "disk_inv crc S C dk rs tail"
  obtains (unread) err where "dk' = dk" "res = Inl err"
  | (invalid) err where "dk' = repaired (frames crc rs) dk" "res = Inl err"
  | (admissions) err where "admissions_open J crc (repaired (frames crc rs) dk) = (dk', Inl err)" "res = Inl err"
  | (replay) cp dk2 retained ids es sp out where "read_checkpoint dk = Inr cp" "cp \<in> boundaries crc rs"
      "admissions_open J crc (repaired (frames crc rs) dk) = (dk2, Inr (retained, ids, es))"
      "replay_recovered J crc ios es (opened dk2 (length (frames crc rs)) cp retained ids threshold max_bytes min_free) = (sp, out)"
      "dk' = sp_disk sp" "\<And>u. out = Inr u \<Longrightarrow> res = Inr sp" "\<And>err. out = Inl err \<Longrightarrow> res = Inl err"
proof (cases "read_checkpoint dk")
  case (Inl err)
  then show thesis using op unread by (auto simp: open_with_limits_def)
next
  case (Inr cp)
  have j: "dk_events dk = frames crc rs @ tail" "\<forall>r \<in> set rs. record_ok r" "partial_frame crc tail" "length (dk_events dk) < 2 ^ 63"
    using d unfolding disk_inv_def journal_is_def by blast+
  have scan: "scan_and_repair crc (dk_events dk) cp = Inr (frames crc rs,
      \<lparr>sc_end_offset = length (frames crc rs), sc_checkpoint_is_boundary = cp \<in> boundaries crc rs\<rparr>)"
    using scan_journal [OF j(2,3), of cp] j(1,4) by simp
  obtain dk2 out2 where ad: "admissions_open J crc (repaired (frames crc rs) dk) = (dk2, out2)" by fastforce
  show thesis
  proof (cases "cp \<in> boundaries crc rs")
    case False
    then show thesis using op Inr scan invalid by (auto simp: open_with_limits_def repaired_def Let_def)
  next
    case b: True
    note op' = op [unfolded open_with_limits_def Inr scan sum.case prod.case Let_def scan_result.simps,
        folded repaired_def, unfolded ad]
    show thesis
    proof (cases out2)
      case (Inl err)
      then show thesis using op' b ad admissions by auto
    next
      case out2: (Inr x)
      obtain retained ids es where x: "x = (retained, ids, es)" using prod_cases3 by blast
      obtain sp out where rp: "replay_recovered J crc ios es
          (opened dk2 (length (frames crc rs)) cp retained ids threshold max_bytes min_free) = (sp, out)" by fastforce
      have "dk' = sp_disk sp \<and> (\<forall>u. out = Inr u \<longrightarrow> res = Inr sp) \<and> (\<forall>err. out = Inl err \<longrightarrow> res = Inl err)"
        using op' b out2 x rp by (cases out) auto
      then show thesis using replay [OF Inr b ad [unfolded out2 x] rp] by blast
    qed
  qed
qed

lemma opened_inv:
  assumes d: "disk_inv crc S C dk rs []" and cp: "cp \<in> boundaries crc rs"
    and c: "checkpoints dk = {b}" "checkpoint_value b = Some cp"
  shows "up_inv crc S C Reading (opened dk (length (frames crc rs)) cp retained ids threshold max_bytes min_free)"
proof -
  from cp obtain i where i: "i \<le> length rs" "cp = length (frames crc (take i rs))" unfolding boundaries_def by blast
  have old: "before crc cp rs = take i rs" using before_old [of crc "take i rs" "drop i rs"] i(2) by simp
  have len: "cp \<le> length (frames crc rs)"
    using i(2) frames_simps(3) [of crc "take i rs" "drop i rs"] by simp
  let ?sp = "opened dk (length (frames crc rs)) cp retained ids threshold max_bytes min_free"
  have "offsets_ok crc C Reading ?sp rs []"
  proof (rule offsets_okI [of rs "take i rs" "drop i rs" "[]"])
    show "set (take i rs) \<subseteq> C" using d c old unfolding disk_inv_def checkpoints_safe_def by auto
    show "checkpoints_within (sp_disk ?sp) (sp_end_offset ?sp)" using c len by (simp add: opened_def checkpoints_within_def)
  qed (use i in \<open>simp_all add: opened_def\<close>)
  with d show ?thesis unfolding up_inv_def by (auto simp: opened_def)
qed

text \<open>Opening keeps what the disk keeps; if it succeeds, no slot holds a secured record any more.\<close>

lemma open_inv:
  assumes J: "serde_round_trip J" "secured_ok J S" and d: "disk_inv crc S C dk rs tail"
    and op: "open_with_limits J crc ios threshold max_bytes min_free dk = (dk', res)"
    and len: "length (dk_events dk') < 2 ^ 63"
  shows "\<exists>rs tail. disk_inv crc S C dk' rs tail"
    and "res = Inr sp \<Longrightarrow> up_inv crc S C Reading sp \<and> \<not> sp_failed sp \<and> (\<forall>r \<in> S. \<not> slot_holds crc (sp_disk sp) r)"
proof -
  note dr = repaired_inv [OF d]
  have "(\<exists>rs tail. disk_inv crc S C dk' rs tail) \<and>
    (res = Inr sp \<longrightarrow> up_inv crc S C Reading sp \<and> \<not> sp_failed sp \<and> (\<forall>r \<in> S. \<not> slot_holds crc (sp_disk sp) r))"
    using op d
  proof (cases rule: open_cases)
    case unread
    then show ?thesis using d by auto
  next
    case invalid
    then show ?thesis using dr by auto
  next
    case admissions
    then show ?thesis using scanned_inv [OF dr admissions_open_ok(1) [OF J admissions(1)]] by auto
  next
    case (replay cp dk2 retained ids es sp1 out)
    note sc = admissions_open_ok(1) [OF J replay(3)] and es = admissions_open_ok(2) [OF J replay(3) refl]
    note d2 = scanned_inv [OF dr sc]
    have c: "checkpoints dk2 = {dk_checkpoint dk}" using sc by (simp add: scanned_def)
    note u = opened_inv [OF d2 replay(2) c read_checkpoint_value [OF replay(1)]]
    let ?sp = "opened dk2 (length (frames crc rs)) cp retained ids threshold max_bytes min_free"
    have o: "sp_disk ?sp = dk2" "sp_ids ?sp = ids" "\<not> sp_failed ?sp" by (simp_all add: opened_def)
    have len1: "length (dk_events (sp_disk sp1)) < 2 ^ 63" using len replay(5) by simp
    have R: "up_inv crc S C Reading sp1 \<and> (\<forall>u. out = Inr u \<longrightarrow> (\<not> sp_failed ?sp \<longrightarrow> \<not> sp_failed sp1) \<and>
       (\<forall>j. hm_get (dk_slots (sp_disk sp1)) j =
              (if j \<in> jo_event_id J ` set es then None else hm_get (dk_slots (sp_disk ?sp)) j)))"
      by (rule replay_inv [OF J replay(4) u _ _ _ len1]) (use es o in auto)
    have "\<not> slot_holds crc (sp_disk sp1) r" if out: "out = Inr u" and r: "r \<in> S" for u r
    proof
      assume h: "slot_holds crc (sp_disk sp1) r"
      have g: "hm_get (dk_slots (sp_disk sp1)) (er_request_log_id r) =
          (if er_request_log_id r \<in> jo_event_id J ` set es then None else hm_get (dk_slots dk2) (er_request_log_id r))"
        using R out o(1) by simp
      with h have "er_request_log_id r \<notin> jo_event_id J ` set es" "slot_holds crc dk2 r"
        by (auto simp: slot_holds_def split: if_splits)
      with es r obtain e where "e \<in> set es" "journal_encode J e = Inr r" by blast
      with journal_codec(2) [OF J(1)] \<open>er_request_log_id r \<notin> jo_event_id J ` set es\<close> show False by auto
    qed
    moreover obtain rs1 tail1 where "disk_inv crc S C (sp_disk sp1) rs1 tail1" using R unfolding up_inv_def by blast
    ultimately show ?thesis using R o(3) replay(5,6,7) by (cases out) auto
  qed
  then show "\<exists>rs tail. disk_inv crc S C dk' rs tail"
    "res = Inr sp \<Longrightarrow> up_inv crc S C Reading sp \<and> \<not> sp_failed sp \<and> (\<forall>r \<in> S. \<not> slot_holds crc (sp_disk sp) r)" by blast+
qed

lemma step_inv:
  assumes J: "serde_round_trip J" and "spool_step J crc w w'" and "world_inv J crc w"
  shows "world_inv J crc w'"
  using assms(2,3)
proof cases
  case (admit free io intent sp sp' res ph A S C)
  then show ?thesis using assms(3) up_inv_same [OF _ admit_log [OF admit(3)]] by (auto simp: world_inv_def)
next
  case (append io e sp sp' res S ph A C)
  then show ?thesis using assms(3) append_inv [OF J _ _ append(3,4)] by (auto simp: world_inv_def)
next
  case (sync ok sp sp' res ph A S C)
  then show ?thesis using assms(3) sync_inv by (auto simp: world_inv_def)
next
  case (ingest n accepted persisted cio ph sp ph' sp' rs A S C)
  then show ?thesis using assms(3) ingest_inv by (auto simp: world_inv_def)
next
  case (crash ph sp A S C)
  then show ?thesis using assms(3) by (auto simp: world_inv_def up_inv_def)
next
  case (power_loss S nd dk' A C)
  then show ?thesis using assms(3) node_disk_inv power_loss_inv by (fastforce simp: world_inv_def)
next
  case (restart ios threshold max_bytes min_free dk dk' res A S C)
  then obtain rs tail where d: "disk_inv crc S C dk rs tail" and S: "secured_ok J S" using assms(3) by (auto simp: world_inv_def)
  note o = open_inv [OF J S d restart(3,4)]
  show ?thesis
  proof (cases res)
    case (Inl err)
    then show ?thesis using restart(2) o(1) S by (simp add: world_inv_def)
  next
    case (Inr sp)
    then show ?thesis using restart(2) o(2) [OF Inr] S by (simp add: world_inv_def)
  qed
qed

lemma initial_inv: "world_inv J crc initial_world"
proof -
  have "disk_inv crc {} {} empty_disk [] []"
    by (simp add: disk_inv_def journal_is_def checkpoints_safe_def empty_disk_def partial_frame_Nil)
  then show ?thesis unfolding world_inv_def initial_world_def secured_ok_def by auto
qed

lemma reachable_inv:
  assumes "serde_round_trip J" and "(spool_step J crc)\<^sup>*\<^sup>* initial_world w"
  shows "world_inv J crc w"
  using assms(2) by (induction rule: rtranclp_induct) (use initial_inv step_inv [OF assms(1)] in auto)

section \<open>What the invariant gives\<close>

lemma before_split:
  assumes "r \<in> set (before crc n rs)"
  shows "\<exists>pre post. rs = pre @ r # post \<and> length (frames crc pre) + length (frame_of crc r) \<le> n"
  using assms
proof (induction crc n rs rule: before.induct)
  case (2 crc n a rs)
  show ?case
  proof (cases "r = a \<and> length (frame_of crc a) \<le> n")
    case True
    then show ?thesis by (intro exI [of _ "[]"] exI [of _ rs]) simp
  next
    case False
    with 2(2) have l: "length (frame_of crc a) \<le> n" and m: "r \<in> set (before crc (n - length (frame_of crc a)) rs)"
      by (auto simp del: length_frame split: if_splits)
    from 2(1) [OF l m] obtain pre post where
      p: "rs = pre @ r # post" "length (frames crc pre) + length (frame_of crc r) \<le> n - length (frame_of crc a)" by blast
    then show ?thesis using l by (intro exI [of _ "a # pre"] exI [of _ post]) (simp del: length_frame)
  qed
qed simp

lemma before_member:
  assumes "length (frames crc pre) + length (frame_of crc r) \<le> n"
  shows "r \<in> set (before crc n (pre @ r # post))"
proof -
  have "length (frames crc (pre @ [r])) \<le> n" using assms by simp
  from before_append_ge [OF this, of post] show ?thesis by simp
qed

lemma kept_on_disk:
  assumes d: "disk_inv crc S C dk rs tail" and r: "r \<in> S" "r \<notin> C" "\<not> slot_holds crc dk r"
  shows "\<exists>pre post. take (dk_durable dk) (dk_events dk) = frames crc pre @ frame_of crc r @ post \<and>
    (\<forall>cp. read_checkpoint dk = Inr cp \<longrightarrow> cp < length (frames crc pre) + length (frame_of crc r))"
proof -
  have "r \<in> set (before crc (dk_durable dk) rs)" using d r by (auto simp: disk_inv_def kept_def)
  then obtain pre post where p: "rs = pre @ r # post" "length (frames crc pre) + length (frame_of crc r) \<le> dk_durable dk"
    using before_split by blast
  have ev: "dk_events dk = frames crc pre @ frame_of crc r @ (frames crc post @ tail)"
    using d p(1) by (simp add: disk_inv_def journal_is_def)
  have "take (dk_durable dk) (dk_events dk) =
    frames crc pre @ frame_of crc r @ take (dk_durable dk - length (frames crc pre) - length (frame_of crc r)) (frames crc post @ tail)"
    unfolding ev using p(2) by simp
  moreover have "cp < length (frames crc pre) + length (frame_of crc r)" if "read_checkpoint dk = Inr cp" for cp
  proof (rule ccontr)
    assume "\<not> ?thesis"
    then have "r \<in> set (before crc cp rs)" unfolding p(1) by (intro before_member) simp
    moreover have "dk_checkpoint dk \<in> checkpoints dk" by (simp add: checkpoints_def)
    ultimately have "r \<in> C"
      using d read_checkpoint_value [OF that] by (auto simp: disk_inv_def checkpoints_safe_def)
    with r(2) show False by simp
  qed
  ultimately show ?thesis by blast
qed

subsection \<open>Delivery\<close>

text \<open>\<open>k\<close> steps of the worker while the database accepts every batch and the checkpoint is written, and
  the records it hands over.\<close>

primrec ingest_run ::
  "(u8 list \<Rightarrow> u32) \<Rightarrow> nat \<Rightarrow> compact_io \<Rightarrow> nat \<Rightarrow> ingest_phase \<times> spool \<Rightarrow> encoded_request_log list" where
  "ingest_run crc n cio 0 s = []"
| "ingest_run crc n cio (Suc k) s =
     (case ingest_step crc n True True cio s of (s', rs) \<Rightarrow> rs @ ingest_run crc n cio k s')"

lemma ingest_read:
  assumes d: "disk_inv crc S C (sp_disk sp) rs tail" and o: "offsets_ok crc C Reading sp rs tail"
    and l: "rs = old @ todo @ rest" "sp_checkpoint_offset sp = length (frames crc old)"
      "sp_end_offset sp = length (frames crc (old @ todo))" and n: "0 < n" "todo \<noteq> []"
  shows "ingest_step crc n True True cio (Reading, sp) =
    ((Accepted (length (frames crc (old @ take n todo))), sp), take n todo)"
proof -
  have ev: "dk_events (sp_disk sp) = frames crc (old @ todo) @ (frames crc rest @ tail)"
    and ok: "\<forall>r \<in> set todo. record_ok r" and len: "length (dk_events (sp_disk sp)) < 2 ^ 63"
    using d l(1) by (auto simp: disk_inv_def journal_is_def)
  have b: "length (frames crc (old @ todo) @ (frames crc rest @ tail)) < 2 ^ 64" using len unfolding ev by simp
  then have "length (frames crc (old @ todo)) < 2 ^ 64" by simp
  from frames_read_back [OF ok this b, of n] n show ?thesis using l ev by (auto simp: ingest_step_def)
qed

lemma advance:
  assumes d: "disk_inv crc S C (sp_disk sp) rs tail" and o: "offsets_ok crc C Reading sp rs tail"
    and l: "rs = old @ todo @ rest" "sp_checkpoint_offset sp = length (frames crc old)"
      "sp_end_offset sp = length (frames crc (old @ todo))" and t: "todo = acc @ later"
    and sp': "sp' = sp\<lparr>sp_disk := persist_checkpoint off (sp_disk sp), sp_checkpoint_offset := off\<rparr>"
      "off = length (frames crc (old @ acc))"
  shows "disk_inv crc S (C \<union> set acc) (sp_disk sp') rs tail" and "offsets_ok crc (C \<union> set acc) Reading sp' rs tail"
proof -
  have cp: "dk_checkpoint (sp_disk sp) \<in> checkpoints (sp_disk sp)" by (simp add: checkpoints_def)
  have old: "set old \<subseteq> C"
  proof -
    from o obtain old' rest' where "rs = old' @ rest'" "length (frames crc old') = length (frames crc old)" "set old' \<subseteq> C"
      using l(2) unfolding offsets_ok_def by metis
    then show ?thesis using before_old [of crc old' rest'] before_old [of crc old "todo @ rest"] l(1) by simp
  qed
  have small: "off < 2 ^ 64"
  proof -
    have "length (dk_events (sp_disk sp)) < 2 ^ 63" "off \<le> length (dk_events (sp_disk sp))"
      using d l(1) t sp'(2) by (auto simp: disk_inv_def journal_is_def)
    then show ?thesis by simp
  qed
  have "before crc off rs = old @ acc" using l(1) t sp'(2) before_old [of crc "old @ acc" "later @ rest"] by simp
  with disk_inv_persist [OF disk_inv_commit [OF d, of "C \<union> set acc"] small] old
  show "disk_inv crc S (C \<union> set acc) (sp_disk sp') rs tail" by (auto simp: sp'(1))
  show "offsets_ok crc (C \<union> set acc) Reading sp' rs tail"
  proof (rule offsets_okI [of rs "old @ acc" later rest])
    show "rest = [] \<and> tail = [] \<and> sp_writer_end sp' = sp_end_offset sp'" if "\<not> sp_failed sp'"
    proof -
      have "\<not> sp_failed sp" using that sp'(1) by simp
      from running_log [OF d disjI1 [OF o] this] have "tail = []" "sp_writer_end sp = length (frames crc rs)"
        "sp_end_offset sp = length (frames crc rs)" by metis+
      then show ?thesis using l(1,3) frames_length_inj [of crc "old @ todo" rest] by (simp add: sp'(1))
    qed
    show "checkpoints_within (sp_disk sp') (sp_end_offset sp')"
      using o small l(3) t sp'(2) by (simp add: sp'(1) within_persist offsets_ok_def)
  qed (use l t sp' old in auto)
qed

lemma drain:
  assumes "0 < n"
  shows "disk_inv crc S C (sp_disk sp) rs tail \<Longrightarrow> offsets_ok crc C Reading sp rs tail \<Longrightarrow> rs = old @ todo @ rest \<Longrightarrow>
    sp_checkpoint_offset sp = length (frames crc old) \<Longrightarrow> sp_end_offset sp = length (frames crc (old @ todo)) \<Longrightarrow>
    \<exists>k. ingest_run crc n cio k (Reading, sp) = todo"
proof (induction "length todo" arbitrary: C sp old todo rule: less_induct)
  case less
  show ?case
  proof (cases "todo = []")
    case True
    then show ?thesis by (intro exI [of _ 0]) simp
  next
    case False
    let ?off = "length (frames crc (old @ take n todo))"
    note r = ingest_read [OF less.prems assms False, of cio]
    have r1: "ingest_run crc n cio (Suc k) (Reading, sp) = take n todo @ ingest_run crc n cio k (Accepted ?off, sp)" for k
      using r by simp
    show ?thesis
    proof (cases "drop n todo = []")
      case True
      then show ?thesis using r1 [of 0] by (intro exI [of _ 1]) simp
    next
      case more: False
      have split: "frames crc todo = frames crc (take n todo) @ frames crc (drop n todo)"
        using frames_simps(3) [of crc "take n todo" "drop n todo"] by simp
      let ?sp = "sp\<lparr>sp_disk := persist_checkpoint ?off (sp_disk sp), sp_checkpoint_offset := ?off\<rparr>"
      have c: "ingest_step crc n True True cio (Accepted ?off, sp) = ((Compacting, ?sp), [])"
        using less.prems(4,5) split by (auto simp: ingest_step_def spool_checkpoint_def)
      have ne: "frames crc (drop n todo) \<noteq> []" using more frames_length_inj [of crc "[]" "drop n todo"] by auto
      then have "compact_if_drained cio ?sp = (?sp, Inr False)"
        using less.prems(5) split by (simp add: compact_if_drained_def Let_def)
      then have p: "ingest_step crc n True True cio (Compacting, ?sp) = ((Reading, ?sp), [])" by (simp add: ingest_step_def)
      from advance [OF less.prems, of "take n todo" "drop n todo"]
      have d': "disk_inv crc S (C \<union> set (take n todo)) (sp_disk ?sp) rs tail"
        and o': "offsets_ok crc (C \<union> set (take n todo)) Reading ?sp rs tail" by simp_all
      have "length (drop n todo) < length todo" using assms False by simp
      from less.hyps [OF this d' o', of "old @ take n todo"] less.prems(3,5) obtain k where
        k: "ingest_run crc n cio k (Reading, ?sp) = drop n todo" by auto
      have "ingest_run crc n cio (Suc (Suc (Suc k))) (Reading, sp) = todo"
        unfolding ingest_run.simps r prod.case c p k by simp
      then show ?thesis by blast
    qed
  qed
qed

text \<open>C3. Saved terminal events are never lost. Whatever the order of admissions, appends, synchronisation and
  ingestion, whichever of their writes and synchronisations fail, and wherever the process dies or the power is lost, a
  record saved for an admitted request has been accepted by the database, or is in its terminal slot, which reads back as the
  event, or its whole frame is in the synchronised part of the journal and ends after the checkpoint.\<close>

theorem saved_events_are_kept:
  assumes "serde_round_trip J" and "(spool_step J crc)\<^sup>*\<^sup>* initial_world w" and "r \<in> wd_secured w"
    and "dk = disk_of (wd_node w)"
  shows "r \<in> wd_committed w \<or>
    (\<exists>e. journal_encode J e = Inr r \<and> read_terminal J crc dk (er_request_log_id r) = Inr (Some e)) \<or>
    (\<exists>pre post. take (dk_durable dk) (dk_events dk) = frames crc pre @ frame_of crc r @ post \<and>
       (\<forall>cp. read_checkpoint dk = Inr cp \<longrightarrow> cp < length (frames crc pre) + length (frame_of crc r)))"
proof -
  have inv: "world_inv J crc w" by (rule reachable_inv [OF assms(1,2)])
  then obtain rs tail where d: "disk_inv crc (wd_secured w) (wd_committed w) dk rs tail"
    using node_disk_inv assms(4) unfolding world_inv_def by blast
  from inv assms(3) obtain e where e: "journal_encode J e = Inr r" "record_ok r"
    unfolding world_inv_def secured_ok_def by blast
  show ?thesis
  proof (cases "slot_holds crc dk r")
    case True
    from slot_read_back [OF assms(1) e True] journal_codec(2) [OF assms(1) e(1)] e(1)
    have "\<exists>e. journal_encode J e = Inr r \<and> read_terminal J crc dk (er_request_log_id r) = Inr (Some e)"
      by (intro exI [of _ e]) simp
    then show ?thesis by blast
  next
    case False
    then show ?thesis using kept_on_disk [OF d assms(3) _ False] by blast
  qed
qed

text \<open>C4. A restart delivers. If the spool opens on a disk left by any such run, then ingestion, with any batch size
  and while the database accepts its batches, reaches a point where every record ever saved for an admitted
  request has been accepted.\<close>

theorem restart_delivers:
  assumes "serde_round_trip J" and "(spool_step J crc)\<^sup>*\<^sup>* initial_world w" and "wd_node w = Down dk"
    and "open_with_limits J crc ios threshold max_bytes min_free dk = (dk', Inr sp)"
    and "length (dk_events dk') < 2 ^ 63" and "0 < n"
  shows "\<exists>k. wd_secured w \<subseteq> wd_committed w \<union> set (ingest_run crc n cio k (Reading, sp))"
proof -
  let ?S = "wd_secured w" and ?C = "wd_committed w"
  have inv: "world_inv J crc w" by (rule reachable_inv [OF assms(1,2)])
  then obtain rs tail where d: "disk_inv crc ?S ?C dk rs tail" and S: "secured_ok J ?S"
    using assms(3) unfolding world_inv_def by auto
  from open_inv(2) [OF assms(1) S d assms(4,5) refl] have u: "up_inv crc ?S ?C Reading sp" and nf: "\<not> sp_failed sp"
    and ns: "\<And>r. r \<in> ?S \<Longrightarrow> \<not> slot_holds crc (sp_disk sp) r" by auto
  from u obtain rs1 tail1 where d1: "disk_inv crc ?S ?C (sp_disk sp) rs1 tail1"
    and o1: "offsets_ok crc ?C Reading sp rs1 tail1" using nf unfolding up_inv_def emptied_def by blast
  from running_log [OF d1 disjI1 [OF o1] nf] obtain old todo where l: "rs1 = old @ todo" "set old \<subseteq> ?C"
    "sp_checkpoint_offset sp = length (frames crc old)" "sp_end_offset sp = length (frames crc rs1)" by metis
  from drain [OF assms(6) d1 o1, of old todo "[]" cio] l obtain k where
    k: "ingest_run crc n cio k (Reading, sp) = todo" by auto
  have "r \<in> ?C \<union> set todo" if r: "r \<in> ?S" for r
  proof -
    have "kept crc (sp_disk sp) rs1 ?C r" using d1 r by (simp add: disk_inv_def)
    then have "r \<in> ?C \<or> r \<in> set rs1" using ns [OF r] before_subset unfolding kept_def by blast
    then show ?thesis using l(1,2) by auto
  qed
  then show ?thesis using k by (intro exI [of _ k]) auto
qed

section \<open>Capacity over a run\<close>

definition is_up :: "world \<Rightarrow> bool" where
  "is_up w \<longleftrightarrow> (case wd_node w of Down _ \<Rightarrow> False | Up _ _ \<Rightarrow> True)"

definition running :: "('v, 'e) journal_ops \<Rightarrow> (u8 list \<Rightarrow> u32) \<Rightarrow> world \<Rightarrow> world \<Rightarrow> bool" where
  "running J crc w w' \<longleftrightarrow> spool_step J crc w w' \<and> is_up w \<and> is_up w'"

lemma running_capacity:
  assumes "running J crc w w'" and "wd_node w = Up ph sp" and "capacity_ok B sp"
  shows "\<exists>ph' sp'. wd_node w' = Up ph' sp' \<and> capacity_ok B sp'"
proof -
  have "spool_step J crc w w'" "is_up w'" using assms(1) by (simp_all add: running_def)
  then show ?thesis
  proof cases
    case (admit free io intent sp0 sp' res ph0 A S C)
    then show ?thesis using assms(2,3) admit_capacity [OF _ admit(3)] by auto
  next
    case (append io e sp0 sp' res S ph0 A C)
    then show ?thesis using assms(2,3) append_capacity(1) [OF _ append(3)] by auto
  next
    case (sync ok sp0 sp' res ph0 A S C)
    then show ?thesis using assms(2,3) sync_capacity [OF _ sync(3)] by auto
  next
    case (ingest n accepted persisted cio ph0 sp0 ph' sp' rs A S C)
    then show ?thesis using assms(2,3) ingest_capacity [OF _ ingest(3)] by auto
  qed (use assms(2) in \<open>auto simp: is_up_def\<close>)
qed

text \<open>C15. Admission reserves what it promises. While a process runs, from the moment it has opened the spool, the journal
  together with a terminal slot for every admitted request and the files retained for reconciliation never takes up
  more than the configured size, or than it took up when the spool was opened if that was already more (the limit may
  have been lowered, which opening does not check); this also holds after a write has failed. A request is admitted
  only within the configured size, and appending the terminal event of an admitted request is never refused for lack
  of capacity. Sizes are assumed to stay below \<open>2 ^ 64 - 1\<close>.\<close>

theorem admitted_requests_fit:
  assumes "open_with_limits J crc ios threshold max_bytes min_free dk = (dk', Inr sp)"
    and "max_bytes < 2 ^ 64 - 1" and "spool_usage sp < 2 ^ 64 - 1"
    and "wd_node w = Up ph sp" and "(running J crc)\<^sup>*\<^sup>* w w'"
  shows "\<exists>ph' sp'. wd_node w' = Up ph' sp' \<and> spool_usage sp' \<le> max max_bytes (spool_usage sp) \<and>
    (\<forall>free io intent sp''. spool_admit free io intent sp' = (sp'', Inr ()) \<longrightarrow> spool_usage sp'' \<le> sp_max_bytes sp') \<and>
    (\<forall>io e. jo_event_id J e \<in> sp_ids sp' \<longrightarrow> snd (spool_append J crc io e sp') \<noteq> Inl CapacityError)"
proof -
  let ?B = "max max_bytes (spool_usage sp)"
  from assms(5) have "\<exists>ph' sp'. wd_node w' = Up ph' sp' \<and> capacity_ok ?B sp'"
    by (induction rule: rtranclp_induct) (use assms(4) open_capacity [OF assms(1-3)] running_capacity in blast)+
  then obtain ph' sp' where w': "wd_node w' = Up ph' sp'" "capacity_ok ?B sp'" by blast
  have "snd (spool_append J crc io e sp') \<noteq> Inl CapacityError" if "jo_event_id J e \<in> sp_ids sp'" for io e
    using append_capacity(2) [OF w'(2) surjective_pairing that] .
  moreover have "spool_usage sp' \<le> ?B" using w'(2) unfolding capacity_ok_def spool_usage_def by blast
  ultimately show ?thesis using w' admit_within [OF w'(2)] by blast
qed

section \<open>A sample run\<close>

abbreviation sample_crc :: "u8 list \<Rightarrow> u32" where
  "sample_crc \<equiv> \<lambda>_. 7"

definition sample_spool :: spool where
  "sample_spool = opened empty_disk 0 0 0 {} 100 100000000 0"

definition sample_slot :: "u8 list" where
  "sample_slot = replicate (HEADER_BYTES + MAX_PAYLOAD_BYTES) 0"

definition admitted_spool :: spool where
  "admitted_spool = sample_spool\<lparr>sp_ids := {2}, sp_disk := empty_disk\<lparr>dk_slots := [(2, sample_slot)], dk_intents := [(2, [])]\<rparr>\<rparr>"

definition spooled_disk :: disk where
  "spooled_disk = empty_disk\<lparr>dk_events := frames sample_crc [sample_record], dk_durable := 34\<rparr>"

lemma reservation_bytes: "RESERVATION_BYTES = 1064976"
  by (simp add: RESERVATION_BYTES_def HEADER_BYTES_def MAX_PAYLOAD_BYTES_def MAX_INTENT_BYTES_def)

lemma sample_encode: "journal_encode sample_journal ''hi'' = Inr sample_record" "jo_event_id sample_journal ''hi'' = 2"
  unfolding journal_encode_def sample_journal_def sample_record_def REQUEST_LOG_SCHEMA_VERSION_def by (simp_all del: list.map)

lemma sample_open: "open_with_limits sample_journal sample_crc [] 100 100000000 0 empty_disk = (empty_disk, Inr sample_spool)"
proof -
  have "sync_directory empty_disk = empty_disk" "admission_ids empty_disk = {}" "read_checkpoint empty_disk = Inr 0"
    by (simp_all add: sync_directory_def empty_disk_def admission_ids_def read_checkpoint_def)
  moreover have "scan_and_repair sample_crc (dk_events empty_disk) 0 =
    Inr (dk_events empty_disk, \<lparr>sc_end_offset = 0, sc_checkpoint_is_boundary = True\<rparr>)"
    by (simp add: scan_and_repair_def empty_disk_def) (subst scan_from.simps, simp)
  ultimately show ?thesis by (simp add: open_with_limits_def admissions_open_def sample_spool_def opened_def)
qed

lemma sample_reserve: "spool_admit (Some 100000000) ReserveOk (2, Some []) sample_spool = (admitted_spool, Inr ())"
  by (simp add: spool_admit_def sample_spool_def admitted_spool_def opened_def reserved_bytes_def terminal_headroom_def
      sat64_def reservation_bytes reserve_def set_slot_def empty_disk_def sample_slot_def hm_insert_def)

abbreviation append_ok :: append_io where
  "append_ok \<equiv> \<lparr>ai_save = SaveOk, ai_write = None, ai_sync = True, ai_retire = RetireOk\<rparr>"

abbreviation append_lost :: append_io where
  "append_lost \<equiv> \<lparr>ai_save = SaveOk, ai_write = Some 0, ai_sync = True, ai_retire = RetireOk\<rparr>"

lemma sample_frame:
  "encode_frame sample_crc sample_record = Inr (frame_of sample_crc sample_record)"
  "length (frame_of sample_crc sample_record) = 34"
  by (simp_all add: encode_frame_def sample_record_facts MAX_PAYLOAD_BYTES_def FRAME_HEADER_BYTES_def)

lemma sample_save: "\<exists>c. save_terminal sample_journal sample_crc SaveOk ''hi'' (sp_disk admitted_spool) =
  ((sp_disk admitted_spool)\<lparr>dk_slots := [(2, c)]\<rparr>, Inr ())"
  by (rule exI [of _ "overwrite 0 (slot_header sample_crc sample_record)
      (overwrite HEADER_BYTES (er_payload sample_record) sample_slot)"])
    (simp add: save_terminal_def sample_encode sample_record_facts MAX_PAYLOAD_BYTES_def admitted_spool_def
      set_slot_def hm_insert_def hm_get_def)

lemma sample_append:
  "\<exists>sp. spool_append sample_journal sample_crc append_ok ''hi'' admitted_spool = (sp, Inr 34) \<and> sp_disk sp = spooled_disk"
proof -
  obtain c where c: "save_terminal sample_journal sample_crc SaveOk ''hi'' (sp_disk admitted_spool) =
    ((sp_disk admitted_spool)\<lparr>dk_slots := [(2, c)]\<rparr>, Inr ())" using sample_save by blast
  have ids: "2 \<in> sp_ids admitted_spool" by (simp add: admitted_spool_def)
  show ?thesis
    using ids by (simp add: spool_append_def sample_encode sample_frame c append_frame_def del: length_frame)
      (simp add: admitted_spool_def sample_spool_def opened_def write_events_def sync_events_def retire_def remove_slot_def
        remove_intent_def hm_remove_def empty_disk_def spooled_disk_def sample_frame del: length_frame)
qed

lemma sample_append_lost:
  "\<exists>sp. spool_append sample_journal sample_crc append_lost ''hi'' admitted_spool = (sp, Inl IoError) \<and> dk_events (sp_disk sp) = []"
proof -
  obtain c where c: "save_terminal sample_journal sample_crc SaveOk ''hi'' (sp_disk admitted_spool) =
    ((sp_disk admitted_spool)\<lparr>dk_slots := [(2, c)]\<rparr>, Inr ())" using sample_save by blast
  have ids: "2 \<in> sp_ids admitted_spool" by (simp add: admitted_spool_def)
  show ?thesis
    using ids by (simp add: spool_append_def sample_encode sample_frame c append_frame_def del: length_frame)
      (simp add: admitted_spool_def sample_spool_def opened_def fail_def write_events_def empty_disk_def)
qed

lemma sample_secured: "ai_save io = SaveOk \<Longrightarrow> secured_by sample_journal sample_crc io ''hi'' {2} admitted_spool = {sample_record}"
  using sample_save by (auto simp: secured_by_def sample_encode admitted_spool_def)

lemma sample_reach:
  assumes "spool_append sample_journal sample_crc io ''hi'' admitted_spool = (sp, res)" and "ai_save io = SaveOk"
    and "length (dk_events (sp_disk sp)) < 2 ^ 63"
  shows "(spool_step sample_journal sample_crc)\<^sup>*\<^sup>* initial_world
    \<lparr>wd_node = Up Reading sp, wd_admitted = {2}, wd_secured = {sample_record}, wd_committed = {}\<rparr>"
proof -
  let ?w = "\<lambda>nd A S. \<lparr>wd_node = nd, wd_admitted = A, wd_secured = S, wd_committed = {}\<rparr>"
  have "spool_step sample_journal sample_crc initial_world (?w (Up Reading sample_spool) {} {})"
    using spool_step.restart [OF sample_open, of "{}" "{}" "{}"] by (simp add: initial_world_def empty_disk_def)
  moreover have "spool_step sample_journal sample_crc (?w (Up Reading sample_spool) {} {}) (?w (Up Reading admitted_spool) {2} {})"
    using spool_step.admit [OF sample_reserve, of sample_journal sample_crc Reading "{}" "{}" "{}"] by simp
  moreover have "spool_step sample_journal sample_crc (?w (Up Reading admitted_spool) {2} {}) (?w (Up Reading sp) {2} {sample_record})"
    using spool_step.append [OF assms(1,3), of "{}" Reading "{2}" "{}"] by (simp add: sample_secured [OF assms(2)])
  ultimately show ?thesis by (meson rtranclp.rtrancl_into_rtrancl rtranclp.rtrancl_refl)
qed

theorem saved_events_are_kept_witness:
  "\<exists>w dk. (spool_step sample_journal sample_crc)\<^sup>*\<^sup>* initial_world w \<and> sample_record \<in> wd_secured w \<and>
    sample_record \<notin> wd_committed w \<and> dk = disk_of (wd_node w) \<and> dk_events dk = [] \<and>
    (\<exists>e. read_terminal sample_journal sample_crc dk (er_request_log_id sample_record) = Inr (Some e))"
proof -
  obtain sp where sp: "spool_append sample_journal sample_crc append_lost ''hi'' admitted_spool = (sp, Inl IoError)"
    "dk_events (sp_disk sp) = []" using sample_append_lost by blast
  let ?w = "\<lparr>wd_node = Up Reading sp, wd_admitted = {2}, wd_secured = {sample_record}, wd_committed = {}\<rparr>"
  have r: "(spool_step sample_journal sample_crc)\<^sup>*\<^sup>* initial_world ?w" by (rule sample_reach [OF sp(1)]) (simp_all add: sp(2))
  have no: "[] \<noteq> frames sample_crc pre @ frame_of sample_crc sample_record @ post" for pre post
    using sample_frame(2) by (metis append_is_Nil_conv list.size(3) zero_neq_numeral)
  from saved_events_are_kept [OF sample_serde r _ refl, of sample_record] no
  have "\<exists>e. read_terminal sample_journal sample_crc (sp_disk sp) (er_request_log_id sample_record) = Inr (Some e)"
    by (auto simp: sp(2))
  with r sp(2) show ?thesis by (intro exI [of _ ?w] exI [of _ "sp_disk sp"]) simp
qed

lemma sample_reopen: "open_with_limits sample_journal sample_crc [] 100 100000000 0 spooled_disk =
  (spooled_disk, Inr (opened spooled_disk 34 0 0 {} 100 100000000 0))"
proof -
  have "sync_directory spooled_disk = spooled_disk" "admission_ids spooled_disk = {}" "read_checkpoint spooled_disk = Inr 0"
    by (simp_all add: sync_directory_def spooled_disk_def empty_disk_def admission_ids_def read_checkpoint_def)
  moreover have "scan_and_repair sample_crc (dk_events spooled_disk) 0 =
    Inr (dk_events spooled_disk, \<lparr>sc_end_offset = 34, sc_checkpoint_is_boundary = True\<rparr>)"
    using scan_journal [of "[sample_record]" sample_crc "[]" 0] sample_record_facts sample_frame(2)
    by (simp add: spooled_disk_def partial_frame_Nil boundaries_iff del: length_frame)
  ultimately show ?thesis by (simp add: open_with_limits_def admissions_open_def opened_def)
qed

theorem restart_delivers_witness:
  "\<exists>k. sample_record \<in>
    set (ingest_run sample_crc 5 CompactOk k (Reading, opened spooled_disk 34 0 0 {} 100 100000000 0))"
proof -
  obtain sp where sp: "spool_append sample_journal sample_crc append_ok ''hi'' admitted_spool = (sp, Inr 34)"
    "sp_disk sp = spooled_disk" using sample_append by blast
  have len: "length (dk_events spooled_disk) < 2 ^ 63" using sample_frame(2) by (simp add: spooled_disk_def del: length_frame)
  let ?w = "\<lambda>nd. \<lparr>wd_node = nd, wd_admitted = {2}, wd_secured = {sample_record}, wd_committed = {}\<rparr>"
  have r: "(spool_step sample_journal sample_crc)\<^sup>*\<^sup>* initial_world (?w (Up Reading sp))"
    by (rule sample_reach [OF sp(1)]) (use len sp(2) in simp_all)
  have "spool_step sample_journal sample_crc (?w (Up Reading sp)) (?w (Down spooled_disk))"
    using spool_step.crash [of sample_journal sample_crc Reading sp] sp(2) by simp
  with r have d: "(spool_step sample_journal sample_crc)\<^sup>*\<^sup>* initial_world (?w (Down spooled_disk))" by simp
  from restart_delivers [OF sample_serde d _ sample_reopen len, of 5 CompactOk] show ?thesis by simp
qed

theorem admitted_requests_fit_witness:
  "\<exists>io. snd (spool_append sample_journal sample_crc io ''hi'' admitted_spool) \<noteq> Inl CapacityError \<and>
    spool_usage admitted_spool \<le> 100000000 \<and> sp_ids admitted_spool = {2}"
proof -
  let ?w = "\<lambda>nd A. \<lparr>wd_node = nd, wd_admitted = A, wd_secured = {}, wd_committed = {}\<rparr>"
  have r: "running sample_journal sample_crc (?w (Up Reading sample_spool) {}) (?w (Up Reading admitted_spool) {2})"
    using spool_step.admit [OF sample_reserve, of sample_journal sample_crc Reading "{}" "{}" "{}"]
    by (simp add: running_def is_up_def)
  have u: "spool_usage sample_spool = 0" by (simp add: spool_usage_def sample_spool_def opened_def empty_disk_def)
  from admitted_requests_fit [OF sample_open _ _ _ r_into_rtranclp [of "running sample_journal sample_crc", OF r], of Reading]
  show ?thesis by (auto simp: u sample_encode admitted_spool_def)
qed

section \<open>A checkpoint the journal does not reach\<close>

text \<open>The event of a request that was not admitted is published before its frame is synchronised, so it can be
  ingested and checkpointed first.\<close>

definition rejected_spool :: spool where
  "rejected_spool = sample_spool\<lparr>sp_disk := empty_disk\<lparr>dk_events := frame_of sample_crc sample_record\<rparr>,
     sp_writer_end := 34, sp_end_offset := 34\<rparr>"

definition ingested_spool :: spool where
  "ingested_spool = rejected_spool\<lparr>sp_disk := persist_checkpoint 34 (sp_disk rejected_spool), sp_checkpoint_offset := 34\<rparr>"

definition stranded_disk :: disk where
  "stranded_disk = empty_disk\<lparr>dk_checkpoint := Some (to_le_bytes 8 (34 :: u64))\<rparr>"

lemma rejected_append:
  "spool_append sample_journal sample_crc append_ok ''hi'' sample_spool = (rejected_spool, Inr 34)"
proof -
  have ids: "2 \<notin> sp_ids sample_spool" by (simp add: sample_spool_def opened_def)
  show ?thesis
    using ids by (simp add: spool_append_def sample_encode sample_frame append_frame_def del: length_frame)
      (simp add: sample_spool_def rejected_spool_def opened_def reserved_bytes_def sat64_def reservation_bytes write_events_def
        empty_disk_def sample_record_facts FRAME_HEADER_BYTES_def)
qed

lemma rejected_read:
  "ingest_step sample_crc 5 True True CompactOk (Reading, rejected_spool) = ((Accepted 34, rejected_spool), [sample_record])"
proof -
  have ok: "\<forall>r \<in> set [sample_record]. record_ok r" using sample_record_facts by simp
  have l: "length (frames sample_crc ([] @ [sample_record])) < 2 ^ 64"
    "length (frames sample_crc ([] @ [sample_record]) @ []) < 2 ^ 64"
    using sample_frame(2) by (simp_all del: length_frame)
  from frames_read_back [OF ok l, of 5] sample_frame(2)
  have "read_batch sample_crc (frame_of sample_crc sample_record) 34 0 5 =
    Inr \<lparr>rb_records = [sample_record], rb_start_offset = 0, rb_end_offset = 34\<rparr>" by (simp del: length_frame)
  then show ?thesis by (simp add: ingest_step_def rejected_spool_def sample_spool_def opened_def)
qed

lemma rejected_checkpoint:
  "ingest_step sample_crc 5 True True CompactOk (Accepted 34, rejected_spool) = ((Compacting, ingested_spool), [])"
  by (simp add: ingest_step_def spool_checkpoint_def rejected_spool_def ingested_spool_def sample_spool_def opened_def)

lemma stranded_survives: "survives sample_crc {} (sp_disk ingested_spool) stranded_disk"
  unfolding survives_def
  by (simp add: ingested_spool_def rejected_spool_def stranded_disk_def persist_checkpoint_def checkpoints_def empty_disk_def)

lemma stranded_refused:
  "open_with_limits J crc ios threshold max_bytes min_free stranded_disk = (stranded_disk, Inl (InvalidCheckpoint 34 0))"
proof -
  have cp: "read_checkpoint stranded_disk = Inr 34"
    using from_to_le_bytes [of 8 "34 :: u64"] by (simp add: read_checkpoint_def stranded_disk_def)
  have "dk_events stranded_disk = []" by (simp add: stranded_disk_def empty_disk_def)
  moreover have "scan_and_repair crc [] 34 = Inr ([], \<lparr>sc_end_offset = 0, sc_checkpoint_is_boundary = False\<rparr>)"
    by (simp add: scan_and_repair_def) (subst scan_from.simps, simp)
  ultimately show ?thesis using cp by (simp add: open_with_limits_def)
qed

text \<open>C18. A loss of power can leave a checkpoint beyond the end of the journal: the event of a request that was not
  admitted is published before its frame is synchronised and may be ingested and checkpointed, and the checkpoint may
  survive where the frame does not. The database has accepted the record, but every later attempt to open the spool is
  refused with an invalid checkpoint.\<close>

theorem checkpoint_can_outlive_journal:
  "\<exists>w dk. (spool_step sample_journal sample_crc)\<^sup>*\<^sup>* initial_world w \<and> wd_node w = Down dk \<and> wd_committed w = {sample_record} \<and>
    (\<forall>ios threshold max_bytes min_free.
       open_with_limits sample_journal sample_crc ios threshold max_bytes min_free dk = (dk, Inl (InvalidCheckpoint 34 0)))"
proof -
  let ?w = "\<lambda>nd C. \<lparr>wd_node = nd, wd_admitted = {}, wd_secured = {}, wd_committed = C\<rparr>"
  let ?step = "spool_step sample_journal sample_crc"
  have "?step initial_world (?w (Up Reading sample_spool) {})"
    using spool_step.restart [OF sample_open, of "{}" "{}" "{}"] by (simp add: initial_world_def empty_disk_def)
  moreover have "?step (?w (Up Reading sample_spool) {}) (?w (Up Reading rejected_spool) {})"
    using spool_step.append [OF rejected_append, of "{}" Reading "{}" "{}"] sample_frame(2)
    by (simp add: rejected_spool_def secured_by_def del: length_frame)
  moreover have "?step (?w (Up Reading rejected_spool) {}) (?w (Up (Accepted 34) rejected_spool) {sample_record})"
    using spool_step.ingest [OF rejected_read, of sample_journal "{}" "{}" "{}"] by simp
  moreover have "?step (?w (Up (Accepted 34) rejected_spool) {sample_record}) (?w (Up Compacting ingested_spool) {sample_record})"
    using spool_step.ingest [OF rejected_checkpoint, of sample_journal "{}" "{}" "{sample_record}"] by simp
  moreover have "?step (?w (Up Compacting ingested_spool) {sample_record}) (?w (Down stranded_disk) {sample_record})"
    using spool_step.power_loss [of sample_crc "{}" "Up Compacting ingested_spool" stranded_disk] stranded_survives by simp
  ultimately have "?step\<^sup>*\<^sup>* initial_world (?w (Down stranded_disk) {sample_record})"
    by (meson rtranclp.rtrancl_into_rtrancl rtranclp.rtrancl_refl)
  then show ?thesis
    by (intro exI [of _ "?w (Down stranded_disk) {sample_record}"] exI [of _ stranded_disk]) (simp add: stranded_refused)
qed

end
