(* ===== verification/Request_Policy.thy ===== *)
theory Request_Policy
  imports Domain "HOL-Library.List_Lexorder" "HOL-Library.Char_ord" "HOL-Library.Sublist"
begin

text \<open>
  The client request policy of \<^verbatim>\<open>src/request_policy.rs\<close>: the contract with the allowed,
  ignored and rejected headers and body fields of every interface, its validation, and the decisions made from it.

  Text is the sequence of its UTF-8 bytes, so the order of \<^verbatim>\<open>str\<close> is the lexicographic order
  of \<open>string\<close>. A header map is the list of the pairs its iterator yields; the order between different
  names carries no meaning. Parsing of header names and values is the parameter \<open>http_ops\<close>, JSON is the
  parameter \<open>body_json\<close>. The contract, which the code compiles in from
  \<^verbatim>\<open>docs/reference/request-allowlists.json\<close>, is an argument; \<open>embedded_contract\<close>
  is the one shipped.
\<close>

section \<open>Header maps\<close>

type_synonym header_map = "(string \<times> string) list"

definition hd_get_all :: "header_map \<Rightarrow> string \<Rightarrow> string list" where
  "hd_get_all hs n = map snd (filter (\<lambda>p. fst p = n) hs)"

definition hd_remove :: "string \<Rightarrow> header_map \<Rightarrow> header_map" where
  "hd_remove n hs = filter (\<lambda>p. fst p \<noteq> n) hs"

definition hd_insert :: "string \<Rightarrow> string \<Rightarrow> header_map \<Rightarrow> header_map" where
  "hd_insert n v hs = hd_remove n hs @ [(n, v)]"

text \<open>\<open>ho_header_name\<close> is \<^verbatim>\<open>HeaderName::from_bytes\<close>, \<open>ho_to_str\<close> is
  \<^verbatim>\<open>HeaderValue::to_str\<close> on the bytes of the value and \<open>ho_header_value\<close> is
  \<^verbatim>\<open>HeaderValue::from_str\<close>.\<close>

record http_ops =
  ho_header_name :: "string \<Rightarrow> string option"
  ho_to_str :: "string \<Rightarrow> string option"
  ho_header_value :: "string \<Rightarrow> string option"

definition is_token_lower :: "char \<Rightarrow> bool" where
  "is_token_lower c \<longleftrightarrow> is_ascii_lowercase c \<or> is_ascii_digit c \<or> c \<in> set ''!#$%&*+-.^_`|~'' \<or> c = CHR 0x27"

definition is_visible :: "char \<Rightarrow> bool" where
  "is_visible c \<longleftrightarrow> (32 \<le> (of_char c :: nat) \<and> (of_char c :: nat) < 127) \<or> (of_char c :: nat) = 9"

text \<open>What the documentation of the HTTP types states: a lower-case token is its own header name, the
  empty name is not one; a value that converts to text is that text, of visible ASCII and tabs; a value made
  from a text is that text, and it can be made if every character is allowed, as the visible ones are.\<close>

definition http_laws :: "http_ops \<Rightarrow> bool" where
  "http_laws H \<longleftrightarrow>
     (\<forall>s. s \<noteq> [] \<and> list_all is_token_lower s \<longrightarrow> ho_header_name H s = Some s) \<and> ho_header_name H [] = None \<and>
     (\<forall>v s. ho_to_str H v = Some s \<longrightarrow> s = v \<and> list_all is_visible v) \<and>
     (\<forall>s v. ho_header_value H s = Some v \<longrightarrow> v = s) \<and>
     (\<forall>s t. ho_header_value H (s @ t) \<noteq> None \<longleftrightarrow> ho_header_value H s \<noteq> None \<and> ho_header_value H t \<noteq> None) \<and>
     (\<forall>s. list_all is_visible s \<longrightarrow> ho_header_value H s \<noteq> None)"

section \<open>Text\<close>

fun split_comma :: "string \<Rightarrow> string list" where
  "split_comma [] = [[]]"
| "split_comma (c # s) =
     (if c = CHR '','' then [] # split_comma s
      else (case split_comma s of p # ps \<Rightarrow> (c # p) # ps | [] \<Rightarrow> [[c]]))"

text \<open>\<^verbatim>\<open>str::trim\<close> on ASCII text.\<close>

definition str_trim :: "string \<Rightarrow> string" where
  "str_trim s =
     rev (dropWhile (\<lambda>c. is_whitespace (of_char c)) (rev (dropWhile (\<lambda>c. is_whitespace (of_char c)) s)))"

text \<open>\<^verbatim>\<open>str::from_utf8\<close>: the code points of the bytes, if they are well-formed.\<close>

definition continuation_in :: "nat \<Rightarrow> nat \<Rightarrow> nat \<Rightarrow> bool" where
  "continuation_in low high b \<longleftrightarrow> low \<le> b \<and> b \<le> high"

fun from_utf8 :: "nat list \<Rightarrow> utext option" where
  "from_utf8 [] = Some []"
| "from_utf8 (a # bs) =
     (if a < 128 then map_option (Cons a) (from_utf8 bs)
      else if 194 \<le> a \<and> a \<le> 223 then
        (case bs of
           b # cs \<Rightarrow>
             if continuation_in 128 191 b then map_option (Cons ((a - 192) * 64 + (b - 128))) (from_utf8 cs) else None
         | _ \<Rightarrow> None)
      else if 224 \<le> a \<and> a \<le> 239 then
        (case bs of
           b # c # ds \<Rightarrow>
             if continuation_in (if a = 224 then 160 else 128) (if a = 237 then 159 else 191) b \<and> continuation_in 128 191 c
             then map_option (Cons (((a - 224) * 64 + (b - 128)) * 64 + (c - 128))) (from_utf8 ds) else None
         | _ \<Rightarrow> None)
      else if 240 \<le> a \<and> a \<le> 244 then
        (case bs of
           b # c # d # es \<Rightarrow>
             if continuation_in (if a = 240 then 144 else 128) (if a = 244 then 143 else 191) b \<and>
                continuation_in 128 191 c \<and> continuation_in 128 191 d
             then map_option (Cons ((((a - 240) * 64 + (b - 128)) * 64 + (c - 128)) * 64 + (d - 128))) (from_utf8 es)
             else None
         | _ \<Rightarrow> None)
      else None)"

text \<open>The characters of a text, which is always well-formed.\<close>

definition str_chars :: "string \<Rightarrow> utext" where
  "str_chars s = (case from_utf8 (map of_char s) of Some t \<Rightarrow> t | None \<Rightarrow> [])"

definition starts_with :: "string \<Rightarrow> string \<Rightarrow> bool" where
  "starts_with s p = (take (length p) s = p)"

definition is_continuation :: "char \<Rightarrow> bool" where
  "is_continuation b \<longleftrightarrow> 128 \<le> (of_char b :: nat) \<and> (of_char b :: nat) < 192"

fun take_chars :: "nat \<Rightarrow> string \<Rightarrow> string" where
  "take_chars n [] = []"
| "take_chars n (b # bs) =
     (if is_continuation b then b # take_chars n bs
      else if n = 0 then [] else b # take_chars (n - 1) bs)"

definition char_count :: "string \<Rightarrow> nat" where
  "char_count s = length (filter (\<lambda>b. \<not> is_continuation b) s)"

definition bounded_field_name :: "string \<Rightarrow> string" where
  "bounded_field_name f =
     take_chars 128 f @ (if 128 < char_count f then [CHR 0xE2, CHR 0x80, CHR 0xA6] else [])"

section \<open>Interfaces and errors\<close>

datatype request_interface =
    ChatCompletionsInterface | ResponsesHttpInterface | ResponsesWebSocketInterface
  | StandaloneWebSearchInterface | ImagesGenerationInterface | ImagesEditInterface

definition REQUIRED_INTERFACES :: "request_interface list" where
  "REQUIRED_INTERFACES =
     [ChatCompletionsInterface, ResponsesHttpInterface, ResponsesWebSocketInterface,
      StandaloneWebSearchInterface, ImagesGenerationInterface, ImagesEditInterface]"

fun interface_for_http :: "api_operation \<Rightarrow> request_interface" where
  "interface_for_http ChatCompletions = ChatCompletionsInterface"
| "interface_for_http Responses = ResponsesHttpInterface"
| "interface_for_http ResponsesWebSocket = ResponsesWebSocketInterface"
| "interface_for_http StandaloneWebSearch = StandaloneWebSearchInterface"
| "interface_for_http ImagesGeneration = ImagesGenerationInterface"
| "interface_for_http ImagesEdit = ImagesEditInterface"

fun interface_as_str :: "request_interface \<Rightarrow> string" where
  "interface_as_str ChatCompletionsInterface = ''chat_completions''"
| "interface_as_str ResponsesHttpInterface = ''responses_http''"
| "interface_as_str ResponsesWebSocketInterface = ''responses_websocket''"
| "interface_as_str StandaloneWebSearchInterface = ''standalone_web_search''"
| "interface_as_str ImagesGenerationInterface = ''images_generation''"
| "interface_as_str ImagesEditInterface = ''images_edit''"

datatype request_policy_layer = ClientLayer

datatype request_policy_location = HeaderLocation | BodyLocation

datatype request_policy_failure = InvalidBody | UnsupportedField | UnsupportedValue

record request_policy_error =
  pe_connector_code :: "string option"
  pe_layer :: request_policy_layer
  pe_interface :: request_interface
  pe_location :: request_policy_location
  pe_failure :: request_policy_failure
  pe_field :: "string option"

definition invalid_body :: "request_policy_layer \<Rightarrow> request_interface \<Rightarrow> request_policy_error" where
  "invalid_body layer i =
     \<lparr>pe_connector_code = None, pe_layer = layer, pe_interface = i, pe_location = BodyLocation,
      pe_failure = InvalidBody, pe_field = None\<rparr>"

definition field_error ::
  "request_policy_layer \<Rightarrow> request_interface \<Rightarrow> request_policy_location \<Rightarrow> request_policy_failure \<Rightarrow> string \<Rightarrow>
   request_policy_error" where
  "field_error layer i location failure f =
     \<lparr>pe_connector_code = None, pe_layer = layer, pe_interface = i, pe_location = location,
      pe_failure = failure, pe_field = Some (bounded_field_name f)\<rparr>"

definition connector_body_rejection :: "request_interface \<Rightarrow> string \<Rightarrow> request_policy_error" where
  "connector_body_rejection i code =
     \<lparr>pe_connector_code = Some code, pe_layer = ClientLayer, pe_interface = i, pe_location = BodyLocation,
      pe_failure = UnsupportedField, pe_field = None\<rparr>"

text \<open>\<open>None\<close> is the \<^verbatim>\<open>unreachable!\<close> of the last match.\<close>

definition policy_message :: "request_policy_error \<Rightarrow> string option" where
  "policy_message e =
     (if pe_connector_code e \<noteq> None then
        Some ''The selected connector rejected an unsupported body field or value.''
      else if pe_failure e = InvalidBody then Some ''Request body must be a JSON object.''
      else
        (let location = (case pe_location e of HeaderLocation \<Rightarrow> ''header'' | BodyLocation \<Rightarrow> ''body field'');
             f = (case pe_field e of Some f \<Rightarrow> f | None \<Rightarrow> ''unknown'');
             text = (\<lambda>reason. Some (''The client request '' @ location @ '' `'' @ f @ ''` '' @ reason @ '' for `'' @
                                interface_as_str (pe_interface e) @ ''`.''))
         in (case pe_failure e of
               UnsupportedField \<Rightarrow> text ''is not supported''
             | UnsupportedValue \<Rightarrow> text ''has an unsupported value''
             | InvalidBody \<Rightarrow> None)))"

definition policy_param :: "request_policy_error \<Rightarrow> string" where
  "policy_param e = (case pe_location e of HeaderLocation \<Rightarrow> ''headers'' | BodyLocation \<Rightarrow> ''body'')"

definition policy_code :: "request_policy_error \<Rightarrow> string" where
  "policy_code e =
     (case pe_connector_code e of
        Some code \<Rightarrow> code
      | None \<Rightarrow>
          (case (pe_location e, pe_failure e) of
             (_, InvalidBody) \<Rightarrow> ''invalid_request''
           | (HeaderLocation, UnsupportedField) \<Rightarrow> ''request_header_unsupported''
           | (HeaderLocation, UnsupportedValue) \<Rightarrow> ''request_header_value_unsupported''
           | (BodyLocation, UnsupportedField) \<Rightarrow> ''request_body_field_unsupported''
           | (BodyLocation, UnsupportedValue) \<Rightarrow> ''request_body_field_value_unsupported''))"

section \<open>The contract\<close>

datatype unknown_action = AllowAction | IgnoreAction | RejectAction

record header_policy =
  hp_unknown :: unknown_action
  hp_allow :: "string list"
  hp_allow_prefixes :: "string list"
  hp_ignore :: "string list"
  hp_generated :: "string list"

text \<open>An ignored field may carry the list of values for which it is ignored.\<close>

record 'v body_policy =
  bp_unknown :: unknown_action
  bp_allow :: "string list"
  bp_ignore :: "(string, 'v list option) hmap"
  bp_reject :: "string list"

record request_policy_sources =
  rs_openai_node_commit :: string
  rs_codex_commit :: string
  rs_codex_standalone_commit :: string

record 'v request_policy_contract =
  rp_version :: u32
  rp_verified_at :: string
  rp_sources :: request_policy_sources
  rp_client_headers :: header_policy
  rp_interfaces :: "(string, 'v body_policy) hmap"

text \<open>\<^verbatim>\<open>slice::binary_search_by\<close>: the loop halves the range that may hold the element.\<close>

function binary_search :: "'a::linorder list \<Rightarrow> 'a \<Rightarrow> nat \<Rightarrow> nat \<Rightarrow> nat" where
  "binary_search vs x base len =
     (if len \<le> 1 then base
      else
        (let half = len div 2; mid = base + half
         in binary_search vs x (if x < vs ! mid then base else mid) (len - half)))"
  by pat_completeness auto
termination
  by (relation "measure (\<lambda>(_, _, _, len). len)") auto

declare binary_search.simps [simp del]

definition contains_sorted :: "string list \<Rightarrow> string \<Rightarrow> bool" where
  "contains_sorted vs x \<longleftrightarrow> vs \<noteq> [] \<and> vs ! binary_search vs x 0 (length vs) = x"

definition interface_policy :: "'v request_policy_contract \<Rightarrow> request_interface \<Rightarrow> 'v body_policy option" where
  "interface_policy c i = hm_get (rp_interfaces c) (interface_as_str i)"

subsection \<open>Validation\<close>

definition quoted :: "string \<Rightarrow> string \<Rightarrow> string \<Rightarrow> string" where
  "quoted before s after = before @ ''`'' @ s @ ''`'' @ after"

fun try_all :: "('a \<Rightarrow> string + unit) \<Rightarrow> 'a list \<Rightarrow> string + unit" where
  "try_all f [] = Inr ()"
| "try_all f (x # xs) = (case f x of Inl err \<Rightarrow> Inl err | Inr _ \<Rightarrow> try_all f xs)"

definition and_then :: "string + unit \<Rightarrow> string + unit \<Rightarrow> string + unit" where
  "and_then a b = (case a of Inl err \<Rightarrow> Inl err | Inr _ \<Rightarrow> b)"

definition ensure :: "bool \<Rightarrow> string \<Rightarrow> string + unit" where
  "ensure ok err = (if ok then Inr () else Inl err)"

definition validate_sorted_unique :: "string \<Rightarrow> string list \<Rightarrow> string + unit" where
  "validate_sorted_unique label vs =
     ensure (\<not> list_ex (\<lambda>(a, b). b \<le> a) (zip vs (tl vs))) (label @ '' must be sorted and unique'')"

definition policy_header_name :: "http_ops \<Rightarrow> string \<Rightarrow> string + unit" where
  "policy_header_name H n =
     (case ho_header_name H n of
        None \<Rightarrow> Inl (quoted ''invalid request policy header '' n '''')
      | Some parsed \<Rightarrow> ensure (parsed = n) (quoted ''request policy header '' n '' must be lowercase''))"

definition policy_prefix_char :: "char \<Rightarrow> bool" where
  "policy_prefix_char c \<longleftrightarrow>
     is_ascii_lowercase c \<or> is_ascii_digit c \<or> c = CHR ''!'' \<or>
     (35 \<le> (of_char c :: nat) \<and> (of_char c :: nat) \<le> 39) \<or> c \<in> set ''*+-.^_`|~''"

definition policy_prefix :: "string \<Rightarrow> string + unit" where
  "policy_prefix p =
     ensure (p \<noteq> [] \<and> list_all policy_prefix_char p) (quoted ''invalid request policy header prefix '' p '''')"

definition validate_header_policy :: "http_ops \<Rightarrow> header_policy \<Rightarrow> string + unit" where
  "validate_header_policy H p =
     and_then (validate_sorted_unique ''allowed headers'' (hp_allow p))
    (and_then (validate_sorted_unique ''allowed header prefixes'' (hp_allow_prefixes p))
    (and_then (validate_sorted_unique ''ignored headers'' (hp_ignore p))
    (and_then (validate_sorted_unique ''generated headers'' (hp_generated p))
    (and_then
       (case find (contains_sorted (hp_ignore p)) (hp_allow p) of
          Some n \<Rightarrow> Inl (quoted ''request policy header '' n '' has multiple policy actions'')
        | None \<Rightarrow> Inr ())
    (and_then (try_all (policy_header_name H) (hp_allow p @ hp_ignore p @ hp_generated p))
       (try_all policy_prefix (hp_allow_prefixes p)))))))"

text \<open>The insertions into the set of fields seen so far.\<close>

fun insert_fields :: "string list \<Rightarrow> string set \<Rightarrow> string + string set" where
  "insert_fields [] seen = Inr seen"
| "insert_fields (f # fs) seen =
     (if f \<in> seen then Inl (quoted ''request body field '' f '' has multiple policy actions'')
      else insert_fields fs (insert f seen))"

definition validate_body_policy :: "'v body_policy \<Rightarrow> string + unit" where
  "validate_body_policy p =
     and_then (validate_sorted_unique ''allowed body fields'' (bp_allow p))
    (and_then (validate_sorted_unique ''rejected body fields'' (bp_reject p))
       (case insert_fields (map fst (bp_ignore p)) (set (bp_allow p)) of
          Inl err \<Rightarrow> Inl err
        | Inr seen \<Rightarrow>
            (case insert_fields (bp_reject p) seen of
               Inl err \<Rightarrow> Inl err
             | Inr seen' \<Rightarrow> ensure ([] \<notin> seen') ''request body field names must not be empty'')))"

definition valid_date :: "string \<Rightarrow> bool" where
  "valid_date v \<longleftrightarrow>
     length v = 10 \<and> v ! 4 = CHR ''-'' \<and> v ! 7 = CHR ''-'' \<and>
     list_all (\<lambda>(i, b). i = 4 \<or> i = 7 \<or> is_ascii_digit b) (enumerate 0 v)"

definition is_ascii_hexdigit :: "char \<Rightarrow> bool" where
  "is_ascii_hexdigit c \<longleftrightarrow>
     is_ascii_digit c \<or> (97 \<le> (of_char c :: nat) \<and> (of_char c :: nat) \<le> 102) \<or>
     (65 \<le> (of_char c :: nat) \<and> (of_char c :: nat) \<le> 70)"

definition valid_commit :: "string \<Rightarrow> bool" where
  "valid_commit s \<longleftrightarrow> length s = 40 \<and> list_all is_ascii_hexdigit s"

definition validate_interface :: "'v request_policy_contract \<Rightarrow> request_interface \<Rightarrow> string + unit" where
  "validate_interface c i =
     (case interface_policy c i of
        None \<Rightarrow> Inl (quoted ''missing request interface '' (interface_as_str i) '''')
      | Some p \<Rightarrow>
          and_then (validate_body_policy p)
         (and_then (ensure (bp_unknown p = RejectAction)
                      (quoted ''unknown client body fields must be rejected for '' (interface_as_str i) ''''))
         (and_then (ensure (contains_sorted (bp_allow p) ''model'')
                      (quoted ''client body policy must allow `model` for '' (interface_as_str i) ''''))
         (and_then (ensure (\<not> (i = ResponsesWebSocketInterface \<and> \<not> contains_sorted (bp_allow p) ''type''))
                      ''Responses WebSocket client policy must allow `type`'')
            (ensure (\<not> (i = ImagesEditInterface \<and>
                        (\<not> contains_sorted (bp_allow p) ''image'' \<or> \<not> contains_sorted (bp_allow p) ''image[]'' \<or>
                         \<not> contains_sorted (bp_allow p) ''mask'')))
               ''Images edit client policy must allow image aliases and `mask`'')))))"

definition validate_contract :: "http_ops \<Rightarrow> 'v request_policy_contract \<Rightarrow> string + unit" where
  "validate_contract H c =
     and_then (ensure (rp_version c = 4) ''request allowlist contract version must be 4'')
    (and_then (ensure (valid_date (rp_verified_at c)) ''request allowlist verification date must use YYYY-MM-DD'')
    (and_then
       (try_all (\<lambda>s. ensure (valid_commit s) ''request allowlist source commits must be full Git SHAs'')
          [rs_openai_node_commit (rp_sources c), rs_codex_commit (rp_sources c),
           rs_codex_standalone_commit (rp_sources c)])
    (and_then (validate_header_policy H (rp_client_headers c))
    (and_then (ensure (hp_unknown (rp_client_headers c) = IgnoreAction) ''unknown client headers must be ignored'')
    (and_then (ensure (hm_len (rp_interfaces c) = length REQUIRED_INTERFACES)
                 ''request allowlist contract must define exactly six interfaces'')
       (try_all (validate_interface c) REQUIRED_INTERFACES))))))"

section \<open>Bodies\<close>

text \<open>\<open>bj_fields\<close> parses a body as a map from its field names, in order, to raw values,
  \<open>bj_from_raw\<close> parses such a raw value and \<open>bj_value\<close> the whole body;
  \<open>bj_object\<close> reads a value as an object, \<open>bj_remove\<close> and \<open>bj_insert\<close> change a
  member, \<open>bj_string\<close> is the value of a text and \<open>bj_to_vec\<close> serialises.\<close>

record ('r, 'v) body_json =
  bj_fields :: "u8 list \<Rightarrow> (string \<times> 'r) list option"
  bj_from_raw :: "'r \<Rightarrow> 'v option"
  bj_value :: "u8 list \<Rightarrow> 'v option"
  bj_object :: "'v \<Rightarrow> (string \<rightharpoonup> 'v) option"
  bj_remove :: "string \<Rightarrow> 'v \<Rightarrow> 'v"
  bj_insert :: "string \<Rightarrow> 'v \<Rightarrow> 'v \<Rightarrow> 'v"
  bj_string :: "string \<Rightarrow> 'v"
  bj_to_vec :: "'v \<Rightarrow> u8 list option"

text \<open>What the JSON library documents: a body that parses both ways has the same members; removing or inserting
  a member leaves the others; a serialised object parses again, with the same members and texts.\<close>

definition body_json_laws :: "('r, 'v) body_json \<Rightarrow> bool" where
  "body_json_laws J \<longleftrightarrow>
     (\<forall>b fs v. bj_fields J b = Some fs \<and> bj_value J b = Some v \<longrightarrow>
        (\<exists>m. bj_object J v = Some m \<and> dom m = fst ` set fs)) \<and>
     (\<forall>v m k. bj_object J v = Some m \<longrightarrow> bj_object J (bj_remove J k v) = Some (m(k := None))) \<and>
     (\<forall>v m k x. bj_object J v = Some m \<longrightarrow> bj_object J (bj_insert J k x v) = Some (m(k \<mapsto> x))) \<and>
     (\<forall>v m b. bj_object J v = Some m \<and> bj_to_vec J v = Some b \<longrightarrow>
        (\<exists>fs v' m'. bj_fields J b = Some fs \<and> fst ` set fs = dom m \<and> bj_value J b = Some v' \<and>
           bj_object J v' = Some m' \<and> (\<forall>k s. m k = Some (bj_string J s) \<longrightarrow> m' k = Some (bj_string J s))))"

datatype field_disposition = AllowField | IgnoreField

record applied_json_body =
  aj_body :: "u8 list"
  aj_changed :: bool

definition field_disposition_for_policy ::
  "request_policy_layer \<Rightarrow> request_interface \<Rightarrow> 'v body_policy \<Rightarrow> string \<Rightarrow> 'v option \<Rightarrow>
   request_policy_error + field_disposition" where
  "field_disposition_for_policy layer i p f v =
     (if contains_sorted (bp_allow p) f then Inr AllowField
      else
        (case hm_get (bp_ignore p) f of
           Some accepted \<Rightarrow>
             if (case accepted of
                   None \<Rightarrow> False
                 | Some vs \<Rightarrow> (case v of None \<Rightarrow> True | Some x \<Rightarrow> \<not> list_ex (\<lambda>y. y = x) vs))
             then Inl (field_error layer i BodyLocation UnsupportedValue f)
             else Inr IgnoreField
         | None \<Rightarrow>
             if contains_sorted (bp_reject p) f then Inl (field_error layer i BodyLocation UnsupportedField f)
             else
               (case bp_unknown p of
                  AllowAction \<Rightarrow> Inr AllowField
                | IgnoreAction \<Rightarrow> Inr IgnoreField
                | RejectAction \<Rightarrow> Inl (field_error layer i BodyLocation UnsupportedField f))))"

text \<open>\<open>None\<close> is the panic for a missing interface.\<close>

definition body_field_disposition ::
  "'v request_policy_contract \<Rightarrow> request_policy_layer \<Rightarrow> request_interface \<Rightarrow> string \<Rightarrow> 'v option \<Rightarrow>
   (request_policy_error + field_disposition) option" where
  "body_field_disposition c layer i f v =
     map_option (\<lambda>p. field_disposition_for_policy layer i p f v) (interface_policy c i)"

text \<open>The value of a field is parsed only where the policy restricts it.\<close>

definition inspected_value ::
  "('r, 'v) body_json \<Rightarrow> request_policy_layer \<Rightarrow> request_interface \<Rightarrow> 'v body_policy \<Rightarrow> string \<Rightarrow> 'r \<Rightarrow>
   request_policy_error + 'v option" where
  "inspected_value J layer i p f raw =
     (case hm_get (bp_ignore p) f of
        Some (Some _) \<Rightarrow>
          (case bj_from_raw J raw of None \<Rightarrow> Inl (invalid_body layer i) | Some v \<Rightarrow> Inr (Some v))
      | _ \<Rightarrow> Inr None)"

text \<open>The ignored fields, or the first error.\<close>

fun ignored_fields ::
  "('r, 'v) body_json \<Rightarrow> request_policy_layer \<Rightarrow> request_interface \<Rightarrow> 'v body_policy \<Rightarrow> (string \<times> 'r) list \<Rightarrow>
   request_policy_error + string list" where
  "ignored_fields J layer i p [] = Inr []"
| "ignored_fields J layer i p ((f, raw) # fs) =
     (case inspected_value J layer i p f raw of
        Inl err \<Rightarrow> Inl err
      | Inr v \<Rightarrow>
          (case field_disposition_for_policy layer i p f v of
             Inl err \<Rightarrow> Inl err
           | Inr d \<Rightarrow>
               (case ignored_fields J layer i p fs of
                  Inl err \<Rightarrow> Inl err
                | Inr gs \<Rightarrow> Inr (if d = IgnoreField then f # gs else gs))))"

definition apply_json_body_policy ::
  "'v request_policy_contract \<Rightarrow> ('r, 'v) body_json \<Rightarrow> request_policy_layer \<Rightarrow> request_interface \<Rightarrow> u8 list \<Rightarrow>
   (request_policy_error + applied_json_body) option" where
  "apply_json_body_policy c J layer i body =
     map_option (\<lambda>p.
       case bj_fields J body of
         None \<Rightarrow> Inl (invalid_body layer i)
       | Some fs \<Rightarrow>
           (case ignored_fields J layer i p fs of
              Inl err \<Rightarrow> Inl err
            | Inr ignored \<Rightarrow>
                if ignored = [] then Inr \<lparr>aj_body = body, aj_changed = False\<rparr>
                else
                  (case bj_value J body of
                     None \<Rightarrow> Inl (invalid_body layer i)
                   | Some v \<Rightarrow>
                       if bj_object J v = None then Inl (invalid_body layer i)
                       else
                         (case bj_to_vec J (fold (bj_remove J) ignored v) of
                            None \<Rightarrow> Inl (invalid_body layer i)
                          | Some b \<Rightarrow> Inr \<lparr>aj_body = b, aj_changed = True\<rparr>))))
       (interface_policy c i)"

definition apply_client_fast_mode_filter ::
  "('r, 'v) body_json \<Rightarrow> request_interface \<Rightarrow> u8 list \<Rightarrow> bool \<Rightarrow> request_policy_error + applied_json_body" where
  "apply_client_fast_mode_filter J i body enabled =
     (if \<not> enabled then Inr \<lparr>aj_body = body, aj_changed = False\<rparr>
      else
        (case bj_value J body of
           None \<Rightarrow> Inl (invalid_body ClientLayer i)
         | Some v \<Rightarrow>
             (case bj_object J v of
                None \<Rightarrow> Inl (invalid_body ClientLayer i)
              | Some m \<Rightarrow>
                  if m ''service_tier'' = None then Inr \<lparr>aj_body = body, aj_changed = False\<rparr>
                  else
                    (case bj_to_vec J (bj_remove J ''service_tier'' v) of
                       None \<Rightarrow> Inl (invalid_body ClientLayer i)
                     | Some b \<Rightarrow> Inr \<lparr>aj_body = b, aj_changed = True\<rparr>))))"

section \<open>Headers\<close>

definition header_action :: "header_policy \<Rightarrow> string \<Rightarrow> unknown_action" where
  "header_action p n =
     (if contains_sorted (hp_allow p) n then AllowAction
      else if contains_sorted (hp_ignore p) n then IgnoreAction
      else if list_ex (starts_with n) (hp_allow_prefixes p) then AllowAction
      else hp_unknown p)"

definition client_header_allowed :: "'v request_policy_contract \<Rightarrow> string \<Rightarrow> bool" where
  "client_header_allowed c n \<longleftrightarrow> header_action (rp_client_headers c) n = AllowAction"

definition client_header_explicitly_ignored :: "'v request_policy_contract \<Rightarrow> string \<Rightarrow> bool" where
  "client_header_explicitly_ignored c n = contains_sorted (hp_ignore (rp_client_headers c)) n"

definition header_is_hop_by_hop :: "string \<Rightarrow> bool" where
  "header_is_hop_by_hop n \<longleftrightarrow>
     n \<in> {''connection'', ''keep-alive'', ''proxy-authenticate'', ''proxy-authorization'', ''proxy-connection'',
           ''te'', ''trailer'', ''transfer-encoding'', ''upgrade''}"

definition request_header_is_protected :: "string \<Rightarrow> bool" where
  "request_header_is_protected n \<longleftrightarrow>
     header_is_hop_by_hop n \<or>
     n \<in> {''host'', ''content-length'', ''content-encoding'', ''authorization'', ''cookie'', ''accept-encoding''}"

definition connector_header_is_forbidden :: "'v request_policy_contract \<Rightarrow> string \<Rightarrow> bool" where
  "connector_header_is_forbidden c n \<longleftrightarrow>
     (n \<noteq> ''authorization'' \<and> request_header_is_protected n) \<or> starts_with n ''sec-websocket-'' \<or>
     client_header_explicitly_ignored c n"

definition connection_header_names :: "http_ops \<Rightarrow> header_map \<Rightarrow> string set" where
  "connection_header_names H hs =
     set (List.map_filter (\<lambda>p. ho_header_name H (str_trim p))
            (concat (map split_comma (List.map_filter (ho_to_str H) (hd_get_all hs ''connection'')))))"

fun filter_headers ::
  "request_policy_layer \<Rightarrow> request_interface \<Rightarrow> header_policy \<Rightarrow> string set option \<Rightarrow> header_map \<Rightarrow>
   request_policy_error + header_map" where
  "filter_headers layer i p internal [] = Inr []"
| "filter_headers layer i p internal ((n, v) # hs) =
     (let keep = (case internal of None \<Rightarrow> False | Some names \<Rightarrow> n \<in> names \<or> n = ''connection'')
      in if header_action p n = RejectAction then Inl (field_error layer i HeaderLocation UnsupportedField n)
         else
           (case filter_headers layer i p internal hs of
              Inl err \<Rightarrow> Inl err
            | Inr rest \<Rightarrow> Inr (if header_action p n = AllowAction \<or> keep then (n, v) # rest else rest)))"

definition filter_client_headers ::
  "'v request_policy_contract \<Rightarrow> http_ops \<Rightarrow> request_interface \<Rightarrow> header_map \<Rightarrow> request_policy_error + header_map" where
  "filter_client_headers c H i hs =
     filter_headers ClientLayer i (rp_client_headers c) (Some (connection_header_names H hs)) hs"

definition sanitize_outbound_request_headers ::
  "'v request_policy_contract \<Rightarrow> http_ops \<Rightarrow> header_map \<Rightarrow> header_map" where
  "sanitize_outbound_request_headers c H hs =
     (let names = connection_header_names H hs;
          removed = filter (\<lambda>n. (n \<noteq> ''cookie'' \<and> connector_header_is_forbidden c n) \<or>
                                (n \<noteq> ''authorization'' \<and> n \<in> names)) (remdups (map fst hs))
      in fold hd_remove removed hs)"

section \<open>The embedded contract\<close>

definition embedded_headers :: header_policy where
  "embedded_headers =
     \<lparr>hp_unknown = IgnoreAction,
      hp_allow =
      [''accept'', ''accept-encoding'', ''authorization'', ''baggage'', ''connection'',
       ''content-digest'', ''content-encoding'', ''content-length'', ''content-md5'', ''content-type'',
       ''digest'', ''etag'', ''idempotency-key'', ''last-modified'', ''openai-beta'',
       ''openai-organization'', ''openai-project'', ''originator'', ''range'', ''repr-digest'',
       ''session-id'', ''session_id'', ''thread-id'', ''thread_id'', ''traceparent'', ''tracestate'',
       ''user-agent'', ''x-client-request-id'', ''x-codex-beta-features'', ''x-codex-image-turn-id'',
       ''x-codex-routing-hint'', ''x-codex-turn-metadata'', ''x-codex-turn-state'',
       ''x-codex-window-id'', ''x-openai-client-user-agent'', ''x-openai-internal-codex-responses-lite'',
       ''x-request-id'', ''x-responsesapi-include-timing-metrics'', ''x-session-id''],
      hp_allow_prefixes = [''x-stainless-''],
      hp_ignore =
      [''cf-connecting-ip'', ''cf-connecting-ipv6'', ''cf-ipcountry'', ''cf-pseudo-ipv4'', ''cf-ray'',
       ''cf-visitor'', ''forwarded'', ''true-client-ip'', ''via'', ''x-client-ip'', ''x-forwarded-for'',
       ''x-forwarded-host'', ''x-forwarded-port'', ''x-forwarded-proto'', ''x-original-forwarded-for'',
       ''x-real-ip''],
      hp_generated = []\<rparr>"

definition embedded_chat_completions :: "(string \<Rightarrow> 'v) \<Rightarrow> 'v body_policy" where
  "embedded_chat_completions str =
     \<lparr>bp_unknown = RejectAction,
      bp_allow =
      [''audio'', ''enable_thinking'', ''frequency_penalty'', ''function_call'', ''functions'',
       ''logit_bias'', ''logprobs'', ''max_completion_tokens'', ''max_tokens'', ''messages'',
       ''metadata'', ''modalities'', ''model'', ''moderation'', ''n'', ''parallel_tool_calls'',
       ''prediction'', ''presence_penalty'', ''prompt_cache_key'', ''prompt_cache_options'',
       ''prompt_cache_retention'', ''reasoning_effort'', ''response_format'', ''safety_identifier'',
       ''seed'', ''service_tier'', ''stop'', ''store'', ''stream'', ''stream_options'', ''temperature'',
       ''thinking'', ''tool_choice'', ''tools'', ''top_logprobs'', ''top_p'', ''user'', ''verbosity'',
       ''web_search_options''],
      bp_ignore = [], bp_reject = []\<rparr>"

definition embedded_responses_http :: "(string \<Rightarrow> 'v) \<Rightarrow> 'v body_policy" where
  "embedded_responses_http str =
     \<lparr>bp_unknown = RejectAction,
      bp_allow =
      [''background'', ''client_metadata'', ''context_management'', ''conversation'', ''include'',
       ''input'', ''instructions'', ''max_output_tokens'', ''metadata'', ''model'', ''moderation'',
       ''parallel_tool_calls'', ''previous_response_id'', ''prompt'', ''prompt_cache_key'',
       ''prompt_cache_options'', ''prompt_cache_retention'', ''reasoning'', ''safety_identifier'',
       ''service_tier'', ''store'', ''stream'', ''stream_options'', ''temperature'', ''text'',
       ''tool_choice'', ''tools'', ''top_logprobs'', ''top_p'', ''truncation'', ''user''],
      bp_ignore = [], bp_reject = []\<rparr>"

definition embedded_responses_websocket :: "(string \<Rightarrow> 'v) \<Rightarrow> 'v body_policy" where
  "embedded_responses_websocket str =
     \<lparr>bp_unknown = RejectAction,
      bp_allow =
      [''background'', ''client_metadata'', ''context_management'', ''conversation'', ''generate'',
       ''include'', ''input'', ''instructions'', ''max_output_tokens'', ''max_tool_calls'', ''metadata'',
       ''model'', ''moderation'', ''parallel_tool_calls'', ''previous_response_id'', ''prompt'',
       ''prompt_cache_key'', ''prompt_cache_options'', ''prompt_cache_retention'', ''reasoning'',
       ''safety_identifier'', ''service_tier'', ''store'', ''stream'', ''stream_options'',
       ''temperature'', ''text'', ''tool_choice'', ''tools'', ''top_logprobs'', ''top_p'',
       ''truncation'', ''type'', ''user''],
      bp_ignore = [], bp_reject = []\<rparr>"

definition embedded_standalone_web_search :: "(string \<Rightarrow> 'v) \<Rightarrow> 'v body_policy" where
  "embedded_standalone_web_search str =
     \<lparr>bp_unknown = RejectAction,
      bp_allow =
      [''commands'', ''id'', ''input'', ''max_output_tokens'', ''model'', ''reasoning'', ''settings''],
      bp_ignore = [], bp_reject = []\<rparr>"

definition embedded_images_generation :: "(string \<Rightarrow> 'v) \<Rightarrow> 'v body_policy" where
  "embedded_images_generation str =
     \<lparr>bp_unknown = RejectAction,
      bp_allow =
      [''background'', ''model'', ''moderation'', ''n'', ''output_compression'', ''output_format'',
       ''partial_images'', ''prompt'', ''quality'', ''response_format'', ''size'', ''stream'', ''style'',
       ''user''],
      bp_ignore = [], bp_reject = []\<rparr>"

definition embedded_images_edit :: "(string \<Rightarrow> 'v) \<Rightarrow> 'v body_policy" where
  "embedded_images_edit str =
     \<lparr>bp_unknown = RejectAction,
      bp_allow =
      [''background'', ''image'', ''image[]'', ''input_fidelity'', ''mask'', ''model'', ''n'',
       ''output_compression'', ''output_format'', ''partial_images'', ''prompt'', ''quality'',
       ''response_format'', ''size'', ''stream'', ''user''],
      bp_ignore = [(''moderation'', Some [str ''auto''])], bp_reject = []\<rparr>"

text \<open>\<open>str\<close> is the JSON value of a text.\<close>

definition embedded_contract :: "(string \<Rightarrow> 'v) \<Rightarrow> 'v request_policy_contract" where
  "embedded_contract str =
     \<lparr>rp_version = 4, rp_verified_at = ''2026-09-08'',
      rp_sources = \<lparr>rs_openai_node_commit = ''854892a0580980449ce1ed04aa5e3831d3330383'',
        rs_codex_commit = ''fde2156057c38c0227ce94c8514d04c7498df60d'',
        rs_codex_standalone_commit = ''d6489472f3c15e87d2d7763a5fde033545c530f8''\<rparr>,
      rp_client_headers = embedded_headers,
      rp_interfaces =
        [(''chat_completions'', embedded_chat_completions str),
         (''responses_http'', embedded_responses_http str),
         (''responses_websocket'', embedded_responses_websocket str),
         (''standalone_web_search'', embedded_standalone_web_search str),
         (''images_generation'', embedded_images_generation str),
         (''images_edit'', embedded_images_edit str)]\<rparr>"

section \<open>Searching a sorted list\<close>

lemma sorted_nth_less_iff:
  fixes vs :: "'a::linorder list"
  assumes "sorted_wrt (<) vs" and "i < length vs" and "j < length vs"
  shows "vs ! i < vs ! j \<longleftrightarrow> i < j"
  using assms sorted_wrt_nth_less [of "(<)" vs i j] sorted_wrt_nth_less [of "(<)" vs j i]
  by (metis less_asym' linorder_less_linear order_less_irrefl)

lemma binary_search_range:
  "1 \<le> len \<Longrightarrow> base \<le> binary_search vs x base len \<and> binary_search vs x base len < base + len"
proof (induction vs x base len rule: binary_search.induct)
  case (1 vs x base len)
  show ?case
  proof (cases "len \<le> 1")
    case True
    then show ?thesis using 1(2) by (simp add: binary_search.simps)
  next
    case False
    define half where "half = len div 2"
    have half: "1 \<le> half" "2 * half \<le> len" using False unfolding half_def by auto
    have step: "binary_search vs x base len =
        binary_search vs x (if x < vs ! (base + half) then base else base + half) (len - half)"
      using False by (subst binary_search.simps) (simp add: half_def Let_def)
    have "1 \<le> len - half" using half by linarith
    note IH = 1(1) [OF False half_def refl this]
    show ?thesis unfolding step using IH half by (cases "x < vs ! (base + half)") auto
  qed
qed

lemma binary_search_finds:
  "sorted_wrt (<) vs \<Longrightarrow> base + len \<le> length vs \<Longrightarrow> base \<le> k \<Longrightarrow> k < base + len \<Longrightarrow> vs ! k = x \<Longrightarrow>
   binary_search vs x base len = k"
proof (induction vs x base len rule: binary_search.induct)
  case (1 vs x base len)
  show ?case
  proof (cases "len \<le> 1")
    case True
    then show ?thesis using 1(4,5) by (simp add: binary_search.simps)
  next
    case False
    define half where "half = len div 2"
    have half: "1 \<le> half" "2 * half \<le> len" using False unfolding half_def by auto
    have step: "binary_search vs x base len =
        binary_search vs x (if x < vs ! (base + half) then base else base + half) (len - half)"
      using False by (subst binary_search.simps) (simp add: half_def Let_def)
    have cmp: "x < vs ! (base + half) \<longleftrightarrow> k < base + half"
      using sorted_nth_less_iff [OF 1(2), of k "base + half"] 1(3,5,6) half by simp
    show ?thesis
      unfolding step
      by (rule 1(1) [OF False half_def refl 1(2)]) (use 1 half cmp in auto)
  qed
qed

lemma contains_sorted_iff:
  assumes "sorted_wrt (<) vs"
  shows "contains_sorted vs x \<longleftrightarrow> x \<in> set vs"
proof
  assume "contains_sorted vs x"
  then show "x \<in> set vs"
    using binary_search_range [of "length vs" 0 vs x] unfolding contains_sorted_def
    by (metis Nil_is_append_conv One_nat_def Suc_leI add_0 length_greater_0_conv nth_mem)
next
  assume "x \<in> set vs"
  then obtain k where "k < length vs" "vs ! k = x" by (auto simp: in_set_conv_nth)
  with binary_search_finds [OF assms, of 0 "length vs" k x] show "contains_sorted vs x"
    by (auto simp: contains_sorted_def)
qed

section \<open>Validation\<close>

lemma and_then_ok [simp]: "and_then a b = Inr () \<longleftrightarrow> a = Inr () \<and> b = Inr ()"
  by (auto simp: and_then_def split: sum.splits)

lemma ensure_ok [simp]: "ensure ok err = Inr () \<longleftrightarrow> ok"
  by (simp add: ensure_def)

lemma try_all_ok [simp]: "try_all f xs = Inr () \<longleftrightarrow> (\<forall>x \<in> set xs. f x = Inr ())"
  by (induction xs) (auto split: sum.splits)

lemma zip_tl_successively:
  "(\<not> list_ex (\<lambda>(a, b). b \<le> a) (zip vs (tl vs))) \<longleftrightarrow> successively (<) (vs :: 'a::linorder list)"
proof (induction vs)
  case (Cons a vs)
  then show ?case by (cases vs) (auto simp: not_le)
qed simp

lemma validate_sorted_unique_ok [simp]: "validate_sorted_unique label vs = Inr () \<longleftrightarrow> sorted_wrt (<) vs"
  by (simp add: validate_sorted_unique_def zip_tl_successively successively_conv_sorted_wrt)

lemma insert_fields_ok:
  "insert_fields fs seen = Inr seen' \<longleftrightarrow> distinct fs \<and> set fs \<inter> seen = {} \<and> seen' = seen \<union> set fs"
  by (induction fs arbitrary: seen) auto

lemma insert_fields_bind:
  "(case insert_fields fs seen of Inl err \<Rightarrow> Inl err | Inr s \<Rightarrow> g s) = Inr () \<longleftrightarrow>
     distinct fs \<and> set fs \<inter> seen = {} \<and> g (seen \<union> set fs) = Inr ()"
proof (cases "insert_fields fs seen")
  case (Inl err)
  then show ?thesis using insert_fields_ok [of fs seen "seen \<union> set fs"] by auto
next
  case (Inr s)
  then show ?thesis using insert_fields_ok [of fs seen s] by auto
qed

text \<open>What validation establishes, with sets in the place of searches.\<close>

definition header_policy_wf :: "header_policy \<Rightarrow> bool" where
  "header_policy_wf p \<longleftrightarrow>
     sorted_wrt (<) (hp_allow p) \<and> sorted_wrt (<) (hp_ignore p) \<and> set (hp_allow p) \<inter> set (hp_ignore p) = {} \<and>
     hp_unknown p = IgnoreAction"

definition body_policy_wf :: "'v body_policy \<Rightarrow> bool" where
  "body_policy_wf p \<longleftrightarrow>
     sorted_wrt (<) (bp_allow p) \<and> sorted_wrt (<) (bp_reject p) \<and> distinct (map fst (bp_ignore p)) \<and>
     set (bp_allow p) \<inter> fst ` set (bp_ignore p) = {} \<and> set (bp_allow p) \<inter> set (bp_reject p) = {} \<and>
     fst ` set (bp_ignore p) \<inter> set (bp_reject p) = {} \<and> bp_unknown p = RejectAction \<and> ''model'' \<in> set (bp_allow p)"

lemma validate_header_policy_ok:
  assumes "validate_header_policy H p = Inr ()" and "hp_unknown p = IgnoreAction"
  shows "header_policy_wf p"
proof -
  have s: "sorted_wrt (<) (hp_allow p)" "sorted_wrt (<) (hp_ignore p)"
    and f: "find (contains_sorted (hp_ignore p)) (hp_allow p) = None"
    using assms(1) by (auto simp: validate_header_policy_def split: option.splits)
  then show ?thesis
    using assms(2) by (auto simp: header_policy_wf_def find_None_iff contains_sorted_iff)
qed

lemma validate_body_policy_ok:
  "validate_body_policy p = Inr () \<longleftrightarrow>
     sorted_wrt (<) (bp_allow p) \<and> sorted_wrt (<) (bp_reject p) \<and> distinct (map fst (bp_ignore p)) \<and>
     set (bp_allow p) \<inter> fst ` set (bp_ignore p) = {} \<and> set (bp_allow p) \<inter> set (bp_reject p) = {} \<and>
     fst ` set (bp_ignore p) \<inter> set (bp_reject p) = {} \<and>
     [] \<notin> set (bp_allow p) \<union> fst ` set (bp_ignore p) \<union> set (bp_reject p)"
  unfolding validate_body_policy_def
  by (simp add: insert_fields_bind) (auto simp: strict_sorted_iff simp del: image_iff)

lemma REQUIRED_INTERFACES_all [simp]: "i \<in> set REQUIRED_INTERFACES"
  by (cases i) (simp_all add: REQUIRED_INTERFACES_def)

lemma validate_contract_body:
  assumes "validate_contract H c = Inr ()"
  shows "\<exists>p. interface_policy c i = Some p \<and> body_policy_wf p"
proof -
  have "validate_interface c i = Inr ()" using assms by (simp add: validate_contract_def)
  then show ?thesis
    by (auto simp: validate_interface_def body_policy_wf_def validate_body_policy_ok contains_sorted_iff
        split: option.splits)
qed

lemma validate_contract_headers:
  "validate_contract H c = Inr () \<Longrightarrow> header_policy_wf (rp_client_headers c)"
  by (rule validate_header_policy_ok [of H]) (simp_all add: validate_contract_def)

section \<open>A valid contract decides every request\<close>

text \<open>The decision on a field, with sets in the place of searches.\<close>

definition field_verdict ::
  "request_policy_layer \<Rightarrow> request_interface \<Rightarrow> 'v body_policy \<Rightarrow> string \<Rightarrow> 'v option \<Rightarrow>
   request_policy_error + field_disposition" where
  "field_verdict layer i p f v =
     (if f \<in> set (bp_allow p) then Inr AllowField
      else
        (case hm_get (bp_ignore p) f of
           Some None \<Rightarrow> Inr IgnoreField
         | Some (Some vs) \<Rightarrow>
             if v \<in> Some ` set vs then Inr IgnoreField else Inl (field_error layer i BodyLocation UnsupportedValue f)
         | None \<Rightarrow> Inl (field_error layer i BodyLocation UnsupportedField f)))"

lemma field_disposition_verdict:
  assumes "body_policy_wf p"
  shows "field_disposition_for_policy layer i p f v = field_verdict layer i p f v"
proof -
  have "contains_sorted (bp_allow p) f \<longleftrightarrow> f \<in> set (bp_allow p)" and "bp_unknown p = RejectAction"
    using assms by (auto simp: body_policy_wf_def contains_sorted_iff)
  then show ?thesis
    by (auto simp: field_disposition_for_policy_def field_verdict_def list_ex_iff split: option.splits)
qed

lemma header_action_iff:
  assumes "header_policy_wf p"
  shows "header_action p n =
    (if n \<in> set (hp_allow p) then AllowAction
     else if n \<in> set (hp_ignore p) then IgnoreAction
     else if \<exists>q \<in> set (hp_allow_prefixes p). prefix q n then AllowAction
     else IgnoreAction)"
proof -
  have "starts_with n q \<longleftrightarrow> prefix q n" for q
    by (metis append_eq_conv_conj prefix_def starts_with_def)
  then show ?thesis
    using assms by (auto simp: header_action_def header_policy_wf_def contains_sorted_iff list_ex_iff)
qed

lemma interface_as_str_inj: "inj interface_as_str"
proof (rule injI)
  fix i j
  show "interface_as_str i = interface_as_str j \<Longrightarrow> i = j" by (cases i; cases j) simp_all
qed

lemma contract_interfaces:
  assumes "validate_contract H c = Inr ()" and "hm_wf (rp_interfaces c)"
  shows "fst ` set (rp_interfaces c) = range interface_as_str"
proof -
  have univ: "UNIV = set REQUIRED_INTERFACES" by auto
  have fin: "finite (range interface_as_str)" by (simp add: univ)
  have six: "card (range interface_as_str) = 6"
    unfolding card_image [OF interface_as_str_inj] by (simp add: univ REQUIRED_INTERFACES_def)
  have "range interface_as_str \<subseteq> fst ` set (rp_interfaces c)"
  proof
    fix s assume "s \<in> range interface_as_str"
    then obtain i where "s = interface_as_str i" by auto
    then show "s \<in> fst ` set (rp_interfaces c)"
      using validate_contract_body [OF assms(1), of i]
      by (force simp: interface_policy_def dest: hm_get_SomeD)
  qed
  moreover have "card (fst ` set (rp_interfaces c)) = 6"
  proof -
    have "length (map fst (rp_interfaces c)) = 6"
      using assms(1) by (simp add: hm_len_def validate_contract_def) (simp add: REQUIRED_INTERFACES_def)
    then show ?thesis using distinct_card [of "map fst (rp_interfaces c)"] assms(2) by (simp add: hm_wf_def)
  qed
  ultimately show ?thesis using six card_subset_eq [of "fst ` set (rp_interfaces c)" "range interface_as_str"] by simp
qed

text \<open>C40. A contract that passes the validation at start-up leaves nothing undecided: it has exactly the six
  interfaces, so no operation meets a missing one; in each of them the allowed, ignored and rejected fields are
  disjoint, \<^verbatim>\<open>model\<close> is allowed, and the binary searches decide every field as membership in
  these sets does, with every other field rejected; and every client header is allowed or ignored, never
  rejected, an explicit entry deciding before a prefix.\<close>

theorem valid_contract_decides:
  assumes "validate_contract H c = Inr ()" and "hm_wf (rp_interfaces c)"
  shows "fst ` set (rp_interfaces c) = range interface_as_str \<and>
    (\<forall>op. \<exists>p. interface_policy c (interface_for_http op) = Some p \<and> ''model'' \<in> set (bp_allow p) \<and>
       set (bp_allow p) \<inter> fst ` set (bp_ignore p) = {} \<and> set (bp_allow p) \<inter> set (bp_reject p) = {} \<and>
       fst ` set (bp_ignore p) \<inter> set (bp_reject p) = {} \<and>
       (\<forall>layer f v. body_field_disposition c layer (interface_for_http op) f v =
          Some (field_verdict layer (interface_for_http op) p f v))) \<and>
    (\<forall>n. header_action (rp_client_headers c) n =
       (if n \<in> set (hp_allow (rp_client_headers c)) then AllowAction
        else if n \<in> set (hp_ignore (rp_client_headers c)) then IgnoreAction
        else if \<exists>q \<in> set (hp_allow_prefixes (rp_client_headers c)). prefix q n then AllowAction
        else IgnoreAction))"
proof (intro conjI allI)
  fix op
  obtain p where p: "interface_policy c (interface_for_http op) = Some p" "body_policy_wf p"
    using validate_contract_body [OF assms(1)] by blast
  show "\<exists>p. interface_policy c (interface_for_http op) = Some p \<and> ''model'' \<in> set (bp_allow p) \<and>
       set (bp_allow p) \<inter> fst ` set (bp_ignore p) = {} \<and> set (bp_allow p) \<inter> set (bp_reject p) = {} \<and>
       fst ` set (bp_ignore p) \<inter> set (bp_reject p) = {} \<and>
       (\<forall>layer f v. body_field_disposition c layer (interface_for_http op) f v =
          Some (field_verdict layer (interface_for_http op) p f v))"
    using p by (intro exI [of _ p])
      (simp add: body_field_disposition_def field_disposition_verdict body_policy_wf_def)
qed (use contract_interfaces [OF assms] header_action_iff [OF validate_contract_headers [OF assms(1)]] in simp_all)

subsection \<open>The embedded contract is valid\<close>

lemma policy_header_names_ok:
  assumes "http_laws H" and "\<forall>n \<in> set ns. n \<noteq> [] \<and> list_all is_token_lower n"
  shows "\<forall>n \<in> set ns. policy_header_name H n = Inr ()"
  using assms by (auto simp: policy_header_name_def http_laws_def)

lemma embedded_headers_sorted:
  "successively (<) (hp_allow embedded_headers)" "successively (<) (hp_allow_prefixes embedded_headers)"
  "successively (<) (hp_ignore embedded_headers)" "successively (<) (hp_generated embedded_headers)"
  by code_simp+

lemma embedded_headers_disjoint: "set (hp_allow embedded_headers) \<inter> set (hp_ignore embedded_headers) = {}"
  by code_simp

lemma embedded_headers_tokens:
  "list_all (\<lambda>n. n \<noteq> [] \<and> list_all is_token_lower n)
     (hp_allow embedded_headers @ hp_ignore embedded_headers @ hp_generated embedded_headers)"
  by code_simp

lemma embedded_headers_prefixes: "try_all policy_prefix (hp_allow_prefixes embedded_headers) = Inr ()"
  by code_simp

lemma embedded_header_policy_ok:
  assumes "http_laws H"
  shows "validate_header_policy H embedded_headers = Inr ()"
proof -
  have s: "sorted_wrt (<) (hp_allow embedded_headers)" "sorted_wrt (<) (hp_allow_prefixes embedded_headers)"
    "sorted_wrt (<) (hp_ignore embedded_headers)" "sorted_wrt (<) (hp_generated embedded_headers)"
    using embedded_headers_sorted by (simp_all add: successively_conv_sorted_wrt)
  have "find (contains_sorted (hp_ignore embedded_headers)) (hp_allow embedded_headers) = None"
    using embedded_headers_disjoint by (auto simp: find_None_iff contains_sorted_iff [OF s(3)])
  moreover have "\<forall>n \<in> set (hp_allow embedded_headers @ hp_ignore embedded_headers @ hp_generated embedded_headers).
      policy_header_name H n = Inr ()"
    by (rule policy_header_names_ok [OF assms]) (use embedded_headers_tokens in \<open>simp add: list_all_iff\<close>)
  ultimately show ?thesis
    unfolding validate_header_policy_def and_then_ok try_all_ok validate_sorted_unique_ok
    using s embedded_headers_prefixes by (simp add: try_all_ok)
qed

lemma body_policy_ok:
  assumes "successively (<) (bp_allow p)" and "bp_reject p = []" and "distinct (map fst (bp_ignore p))"
    and "\<forall>f \<in> fst ` set (bp_ignore p). f \<notin> set (bp_allow p) \<and> f \<noteq> []" and "[] \<notin> set (bp_allow p)"
  shows "validate_body_policy p = Inr ()" and "contains_sorted (bp_allow p) f \<longleftrightarrow> f \<in> set (bp_allow p)"
  using assms by (auto simp: validate_body_policy_ok successively_conv_sorted_wrt contains_sorted_iff)

lemmas embedded_policies =
  embedded_chat_completions_def embedded_responses_http_def embedded_responses_websocket_def
  embedded_standalone_web_search_def embedded_images_generation_def embedded_images_edit_def

lemma embedded_allow_sorted:
  "successively (<) (bp_allow (embedded_chat_completions str))"
  "successively (<) (bp_allow (embedded_responses_http str))"
  "successively (<) (bp_allow (embedded_responses_websocket str))"
  "successively (<) (bp_allow (embedded_standalone_web_search str))"
  "successively (<) (bp_allow (embedded_images_generation str))"
  "successively (<) (bp_allow (embedded_images_edit str))"
  by code_simp+

lemma embedded_interfaces_ok: "validate_interface (embedded_contract str) i = Inr ()"
proof (cases i)
  case ChatCompletionsInterface
  show ?thesis unfolding ChatCompletionsInterface validate_interface_def interface_policy_def
    using body_policy_ok [OF embedded_allow_sorted(1)] by (simp add: embedded_contract_def hm_get_def embedded_policies)
next
  case ResponsesHttpInterface
  show ?thesis unfolding ResponsesHttpInterface validate_interface_def interface_policy_def
    using body_policy_ok [OF embedded_allow_sorted(2)] by (simp add: embedded_contract_def hm_get_def embedded_policies)
next
  case ResponsesWebSocketInterface
  show ?thesis unfolding ResponsesWebSocketInterface validate_interface_def interface_policy_def
    using body_policy_ok [OF embedded_allow_sorted(3)] by (simp add: embedded_contract_def hm_get_def embedded_policies)
next
  case StandaloneWebSearchInterface
  show ?thesis unfolding StandaloneWebSearchInterface validate_interface_def interface_policy_def
    using body_policy_ok [OF embedded_allow_sorted(4)] by (simp add: embedded_contract_def hm_get_def embedded_policies)
next
  case ImagesGenerationInterface
  show ?thesis unfolding ImagesGenerationInterface validate_interface_def interface_policy_def
    using body_policy_ok [OF embedded_allow_sorted(5)] by (simp add: embedded_contract_def hm_get_def embedded_policies)
next
  case ImagesEditInterface
  show ?thesis unfolding ImagesEditInterface validate_interface_def interface_policy_def
    using body_policy_ok [OF embedded_allow_sorted(6)] by (simp add: embedded_contract_def hm_get_def embedded_policies)
qed

lemma embedded_origin_ok:
  "valid_date (rp_verified_at (embedded_contract str))"
  "\<forall>s \<in> set [rs_openai_node_commit (rp_sources (embedded_contract str)),
      rs_codex_commit (rp_sources (embedded_contract str)),
      rs_codex_standalone_commit (rp_sources (embedded_contract str))]. valid_commit s"
  by code_simp+

lemma embedded_contract_valid:
  assumes "http_laws H"
  shows "validate_contract H (embedded_contract str) = Inr ()"
  unfolding validate_contract_def and_then_ok try_all_ok ensure_ok
  using embedded_origin_ok [of str] embedded_header_policy_ok [OF assms] embedded_interfaces_ok [of str]
  by (simp add: embedded_contract_def embedded_headers_def hm_len_def REQUIRED_INTERFACES_def)

subsection \<open>An instance of the parameters\<close>

definition sample_http :: http_ops where
  "sample_http =
     \<lparr>ho_header_name = (\<lambda>s.
        let t = map to_ascii_lowercase s in if t \<noteq> [] \<and> list_all is_token_lower t then Some t else None),
      ho_to_str = (\<lambda>v. if list_all is_visible v then Some v else None),
      ho_header_value = (\<lambda>v. if list_all is_visible v then Some v else None)\<rparr>"

lemma token_lower_fixed:
  assumes "is_token_lower c"
  shows "to_ascii_lowercase c = c"
proof -
  have "\<not> is_ascii_uppercase c"
    using assms by (auto simp: is_token_lower_def is_ascii_uppercase_def is_ascii_lowercase_def is_ascii_digit_def)
  then show ?thesis by (simp add: to_ascii_lowercase_def)
qed

lemma sample_http_laws: "http_laws sample_http"
proof -
  have "map to_ascii_lowercase s = s" if "list_all is_token_lower s" for s
    using that by (induction s) (simp_all add: token_lower_fixed)
  then show ?thesis by (simp add: http_laws_def sample_http_def Let_def)
qed

theorem valid_contract_decides_witness:
  "validate_contract sample_http (embedded_contract (\<lambda>s. s)) = Inr () \<and>
   fst ` set (rp_interfaces (embedded_contract (\<lambda>s. s))) = range interface_as_str \<and>
   header_action embedded_headers ''x-stainless-os'' = AllowAction"
proof -
  have ok: "validate_contract sample_http (embedded_contract (\<lambda>s. s)) = Inr ()"
    by (rule embedded_contract_valid [OF sample_http_laws])
  have "hm_wf (rp_interfaces (embedded_contract (\<lambda>s. s)))" by (simp add: hm_wf_def embedded_contract_def)
  from valid_contract_decides [OF ok this] show ?thesis
    using ok by (simp add: embedded_contract_def embedded_headers_def prefix_def)
qed

end
