(* ===== verification/Multipart_Framing.thy ===== *)
theory Multipart_Framing
  imports Domain "HOL-Library.Sublist"
begin

text \<open>
  The guard on multipart bodies of \<^verbatim>\<open>src/application/request_body.rs\<close>: the streaming byte
  pattern matcher \<^verbatim>\<open>BytePatternMatcher\<close>, the state machine
  \<^verbatim>\<open>MultipartStructureValidator\<close> and the guarded stream.

  \<open>None\<close> is a panic of an index out of range or a loop that does not end. Counters are unbounded here:
  each of them stays below the length of the stream, which a \<^verbatim>\<open>usize\<close> holds.
\<close>

section \<open>The pattern matcher\<close>

record byte_pattern_matcher =
  bm_pattern :: "u8 list"
  bm_prefix :: "nat list"
  bm_matched :: nat

definition nth_checked :: "'a list \<Rightarrow> nat \<Rightarrow> 'a option" where
  "nth_checked xs i = (if i < length xs then Some (xs ! i) else None)"

text \<open>The loop that follows the prefix table until the byte extends the match.\<close>

partial_function (option) fall_back :: "u8 list \<Rightarrow> nat list \<Rightarrow> u8 \<Rightarrow> nat \<Rightarrow> nat option" where
  "fall_back p pre b m =
     (if m = 0 then Some 0
      else
        Option.bind (nth_checked p m) (\<lambda>x.
          if b \<noteq> x then Option.bind (nth_checked pre (m - 1)) (fall_back p pre b) else Some m))"

declare fall_back.simps [code]

text \<open>One round of either loop: the new length of the match.\<close>

definition extend_match :: "u8 list \<Rightarrow> nat list \<Rightarrow> u8 \<Rightarrow> nat \<Rightarrow> nat option" where
  "extend_match p pre b m =
     Option.bind (fall_back p pre b m) (\<lambda>r.
       Option.bind (nth_checked p r) (\<lambda>x. Some (if b = x then r + 1 else r)))"

fun prefix_rounds :: "u8 list \<Rightarrow> nat list \<Rightarrow> nat \<Rightarrow> nat list \<Rightarrow> nat list option" where
  "prefix_rounds p [] m pre = Some pre"
| "prefix_rounds p (index # rest) m pre =
     Option.bind (nth_checked p index) (\<lambda>b.
       Option.bind (extend_match p pre b m) (\<lambda>m'. prefix_rounds p rest m' (pre[index := m'])))"

definition matcher_new :: "u8 list \<Rightarrow> byte_pattern_matcher option" where
  "matcher_new p =
     map_option (\<lambda>pre. \<lparr>bm_pattern = p, bm_prefix = pre, bm_matched = 0\<rparr>)
       (prefix_rounds p [1..<length p] 0 (replicate (length p) 0))"

definition matcher_push :: "u8 \<Rightarrow> byte_pattern_matcher \<Rightarrow> (bool \<times> byte_pattern_matcher) option" where
  "matcher_push b m =
     map_option (\<lambda>k.
       if k = length (bm_pattern m) then (True, m\<lparr>bm_matched := 0\<rparr>) else (False, m\<lparr>bm_matched := k\<rparr>))
       (extend_match (bm_pattern m) (bm_prefix m) b (bm_matched m))"

definition matcher_reset :: "byte_pattern_matcher \<Rightarrow> byte_pattern_matcher" where
  "matcher_reset m = m\<lparr>bm_matched := 0\<rparr>"

section \<open>The structure validator\<close>

definition MAX_MULTIPART_PREAMBLE_BYTES :: nat where
  "MAX_MULTIPART_PREAMBLE_BYTES = 8 * 1024"

definition MAX_MULTIPART_PART_HEADER_BYTES :: nat where
  "MAX_MULTIPART_PART_HEADER_BYTES = 16 * 1024"

definition MAX_MULTIPART_BOUNDARY_PADDING_BYTES :: nat where
  "MAX_MULTIPART_BOUNDARY_PADDING_BYTES = 1024"

datatype boundary_suffix = SuffixStart | SuffixDash | SuffixPadding nat | SuffixCarriageReturn

datatype multipart_structure_state =
    FindingFirstBoundary nat | ReadingBoundarySuffix boundary_suffix | ReadingHeaders nat | ReadingData | StructureDone

record multipart_structure_validator =
  mv_state :: multipart_structure_state
  mv_first_boundary :: byte_pattern_matcher
  mv_field_boundary :: byte_pattern_matcher
  mv_header_terminator :: byte_pattern_matcher

definition DASH :: u8 where "DASH = 45"
definition SPACE :: u8 where "SPACE = 32"
definition TAB :: u8 where "TAB = 9"
definition CR :: u8 where "CR = 13"
definition LF :: u8 where "LF = 10"

definition validator_new :: "u8 list \<Rightarrow> multipart_structure_validator option" where
  "validator_new boundary =
     Option.bind (matcher_new ([DASH, DASH] @ boundary)) (\<lambda>first.
     Option.bind (matcher_new ([CR, LF, DASH, DASH] @ boundary)) (\<lambda>fb.
     Option.bind (matcher_new [CR, LF, CR, LF]) (\<lambda>terminator.
       Some \<lparr>mv_state = FindingFirstBoundary 0, mv_first_boundary = first, mv_field_boundary = fb,
             mv_header_terminator = terminator\<rparr>)))"

datatype stream_error = InvalidMultipartStructure | ReadFailed

definition push_suffix ::
  "u8 \<Rightarrow> boundary_suffix \<Rightarrow> multipart_structure_validator \<Rightarrow> stream_error + multipart_structure_validator" where
  "push_suffix b sfx v =
     (case sfx of
        SuffixStart \<Rightarrow>
          if b = DASH then Inr (v\<lparr>mv_state := ReadingBoundarySuffix SuffixDash\<rparr>)
          else if b = SPACE \<or> b = TAB then Inr (v\<lparr>mv_state := ReadingBoundarySuffix (SuffixPadding 1)\<rparr>)
          else if b = CR then Inr (v\<lparr>mv_state := ReadingBoundarySuffix SuffixCarriageReturn\<rparr>)
          else Inl InvalidMultipartStructure
      | SuffixDash \<Rightarrow>
          if b = DASH then Inr (v\<lparr>mv_state := StructureDone\<rparr>) else Inl InvalidMultipartStructure
      | SuffixPadding n \<Rightarrow>
          if b = SPACE \<or> b = TAB then
            (if MAX_MULTIPART_BOUNDARY_PADDING_BYTES < n + 1 then Inl InvalidMultipartStructure
             else Inr (v\<lparr>mv_state := ReadingBoundarySuffix (SuffixPadding (n + 1))\<rparr>))
          else if b = CR then Inr (v\<lparr>mv_state := ReadingBoundarySuffix SuffixCarriageReturn\<rparr>)
          else Inl InvalidMultipartStructure
      | SuffixCarriageReturn \<Rightarrow>
          if b = LF
          then Inr (v\<lparr>mv_header_terminator := matcher_reset (mv_header_terminator v), mv_state := ReadingHeaders 0\<rparr>)
          else Inl InvalidMultipartStructure)"

definition push_byte ::
  "u8 \<Rightarrow> multipart_structure_validator \<Rightarrow> (stream_error + multipart_structure_validator) option" where
  "push_byte b v =
     (case mv_state v of
        FindingFirstBoundary scanned \<Rightarrow>
          map_option (\<lambda>(hit, m).
            if hit then Inr (v\<lparr>mv_first_boundary := m, mv_state := ReadingBoundarySuffix SuffixStart\<rparr>)
            else if MAX_MULTIPART_PREAMBLE_BYTES < scanned + 1 - bm_matched m then Inl InvalidMultipartStructure
            else Inr (v\<lparr>mv_first_boundary := m, mv_state := FindingFirstBoundary (scanned + 1)\<rparr>))
            (matcher_push b (mv_first_boundary v))
      | ReadingBoundarySuffix sfx \<Rightarrow> Some (push_suffix b sfx v)
      | ReadingHeaders n \<Rightarrow>
          if MAX_MULTIPART_PART_HEADER_BYTES < n + 1 then Some (Inl InvalidMultipartStructure)
          else
            map_option (\<lambda>(hit, m).
              if hit
              then Inr (v\<lparr>mv_header_terminator := m, mv_field_boundary := matcher_reset (mv_field_boundary v),
                          mv_state := ReadingData\<rparr>)
              else Inr (v\<lparr>mv_header_terminator := m, mv_state := ReadingHeaders (n + 1)\<rparr>))
              (matcher_push b (mv_header_terminator v))
      | ReadingData \<Rightarrow>
          map_option (\<lambda>(hit, m).
            if hit then Inr (v\<lparr>mv_field_boundary := m, mv_state := ReadingBoundarySuffix SuffixStart\<rparr>)
            else Inr (v\<lparr>mv_field_boundary := m\<rparr>))
            (matcher_push b (mv_field_boundary v))
      | StructureDone \<Rightarrow> Some (Inr v))"

fun validator_push ::
  "u8 list \<Rightarrow> multipart_structure_validator \<Rightarrow> (stream_error + multipart_structure_validator) option" where
  "validator_push [] v = Some (Inr v)"
| "validator_push (b # bs) v =
     Option.bind (push_byte b v) (\<lambda>r. case r of Inl err \<Rightarrow> Some (Inl err) | Inr v' \<Rightarrow> validator_push bs v')"

definition validator_finish :: "multipart_structure_validator \<Rightarrow> stream_error + unit" where
  "validator_finish v = (if mv_state v = StructureDone then Inr () else Inl InvalidMultipartStructure)"

text \<open>The guarded stream yields the chunks it was given until the first error. A chunk of the argument is
  \<open>None\<close> where reading fails.\<close>

fun guard_chunks ::
  "u8 list option list \<Rightarrow> multipart_structure_validator \<Rightarrow> (u8 list list \<times> (stream_error + unit)) option" where
  "guard_chunks [] v = Some ([], validator_finish v)"
| "guard_chunks (None # cs) v = Some ([], Inl ReadFailed)"
| "guard_chunks (Some c # cs) v =
     Option.bind (validator_push c v) (\<lambda>r.
       case r of
         Inl err \<Rightarrow> Some ([], Inl err)
       | Inr v' \<Rightarrow> map_option (\<lambda>(out, e). (c # out, e)) (guard_chunks cs v'))"

definition guard_multipart_stream ::
  "u8 list \<Rightarrow> u8 list option list \<Rightarrow> (u8 list list \<times> (stream_error + unit)) option" where
  "guard_multipart_stream boundary cs = Option.bind (validator_new boundary) (guard_chunks cs)"

section \<open>Borders\<close>

text \<open>\<open>k\<close> is matched after \<open>s\<close>: the first \<open>k\<close> bytes of the pattern are the last
  ones of \<open>s\<close>.\<close>

definition matched_at :: "u8 list \<Rightarrow> u8 list \<Rightarrow> nat \<Rightarrow> bool" where
  "matched_at p s k \<longleftrightarrow> k \<le> length p \<and> suffix (take k p) s"

text \<open>\<open>k\<close> is the longest such length below \<open>n\<close>.\<close>

definition longest_below :: "nat \<Rightarrow> u8 list \<Rightarrow> u8 list \<Rightarrow> nat \<Rightarrow> bool" where
  "longest_below n p s k \<longleftrightarrow> k < n \<and> matched_at p s k \<and> (\<forall>j. j < n \<and> matched_at p s j \<longrightarrow> j \<le> k)"

definition prefix_table :: "u8 list \<Rightarrow> nat list \<Rightarrow> nat \<Rightarrow> bool" where
  "prefix_table p pre n \<longleftrightarrow>
     n \<le> length pre \<and> (\<forall>i < n. longest_below (Suc i) p (take (Suc i) p) (pre ! i))"

lemma matched_at_0 [simp]: "matched_at p s 0"
  by (simp add: matched_at_def)

lemma matched_at_trans:
  "matched_at p s m \<Longrightarrow> matched_at p (take m p) k \<Longrightarrow> matched_at p s k"
  by (auto simp: matched_at_def intro: suffix_order.trans)

lemma matched_at_shorter:
  assumes "matched_at p s m" and "matched_at p s k" and "k \<le> m"
  shows "matched_at p (take m p) k"
  using assms suffix_length_suffix [of "take k p" s "take m p"] by (auto simp: matched_at_def)

lemma matched_at_snoc:
  "matched_at p (s @ [b]) (Suc k) \<longleftrightarrow> k < length p \<and> matched_at p s k \<and> p ! k = b"
  by (auto simp: matched_at_def take_Suc_conv_app_nth)

lemma longest_below_unique: "longest_below n p s k \<Longrightarrow> longest_below n p s k' \<Longrightarrow> k = k'"
  by (meson le_antisym longest_below_def)

lemma fall_back_ok:
  assumes "prefix_table p pre m" and "m < length p"
  shows "\<exists>r \<le> m. fall_back p pre b m = Some r \<and> matched_at p (take m p) r \<and> (r = 0 \<or> p ! r = b) \<and>
    (\<forall>k \<le> m. matched_at p (take m p) k \<and> p ! k = b \<longrightarrow> k \<le> r)"
  using assms
proof (induction m rule: less_induct)
  case (less m)
  show ?case
  proof (cases "m = 0 \<or> p ! m = b")
    case True
    have "fall_back p pre b m = Some m"
      using True less.prems by (subst fall_back.simps) (auto simp: nth_checked_def)
    then show ?thesis using True less.prems by (intro exI [of _ m]) (auto simp: matched_at_def)
  next
    case False
    define m' where "m' = pre ! (m - 1)"
    have long: "longest_below m p (take m p) m'" and len: "m \<le> length pre"
      using less.prems False unfolding prefix_table_def m'_def by (metis Suc_pred' diff_less less_one neq0_conv)+
    have m': "m' < m" "matched_at p (take m p) m'" using long by (auto simp: longest_below_def)
    have "prefix_table p pre m'" "m' < length p" using less.prems m' by (auto simp: prefix_table_def)
    from less.IH [OF m'(1) this] obtain r where r: "r \<le> m'" "fall_back p pre b m' = Some r"
      "matched_at p (take m' p) r" "r = 0 \<or> p ! r = b"
      "\<forall>k \<le> m'. matched_at p (take m' p) k \<and> p ! k = b \<longrightarrow> k \<le> r" by blast
    have "fall_back p pre b m = Some r"
      using False less.prems r(2) len by (subst fall_back.simps) (auto simp: nth_checked_def m'_def)
    moreover have "k \<le> r" if "k \<le> m" "matched_at p (take m p) k" "p ! k = b" for k
    proof -
      have "k < m" using that False by (cases "k = m") auto
      then have "k \<le> m'" using long that(2) by (auto simp: longest_below_def)
      then show ?thesis using r(5) that(3) matched_at_shorter [OF m'(2) that(2)] by blast
    qed
    ultimately show ?thesis
      using r m' matched_at_trans [OF m'(2) r(3)] by (intro exI [of _ r]) auto
  qed
qed

text \<open>One round keeps the longest match up to date.\<close>

lemma extend_match_ok:
  assumes "prefix_table p pre m" and "longest_below n p s m" and "n \<le> length p"
  shows "\<exists>k. extend_match p pre b m = Some k \<and> longest_below (Suc n) p (s @ [b]) k"
proof -
  have m: "m < n" "matched_at p s m" and max: "\<And>j. j < n \<Longrightarrow> matched_at p s j \<Longrightarrow> j \<le> m"
    using assms(2) by (auto simp: longest_below_def)
  have mp: "m < length p" using m assms(3) by simp
  from fall_back_ok [OF assms(1) mp] obtain r where r: "r \<le> m" "fall_back p pre b m = Some r"
    "matched_at p (take m p) r" "r = 0 \<or> p ! r = b"
    "\<forall>k \<le> m. matched_at p (take m p) k \<and> p ! k = b \<longrightarrow> k \<le> r" by blast
  define k where "k = (if p ! r = b then Suc r else 0)"
  have ext: "extend_match p pre b m = Some k"
    using r mp by (auto simp: extend_match_def nth_checked_def k_def)
  have rs: "matched_at p s r" using matched_at_trans [OF m(2) r(3)] .
  have "matched_at p (s @ [b]) k" using rs r(1) mp by (auto simp: k_def matched_at_snoc)
  moreover have "j \<le> k" if j: "j < Suc n" "matched_at p (s @ [b]) j" for j
  proof (cases j)
    case (Suc i)
    then have i: "matched_at p s i" "p ! i = b" "i < n" using j by (auto simp: matched_at_snoc)
    then have "i \<le> m" using max by blast
    then have "i \<le> r" using r(5) i matched_at_shorter [OF m(2) i(1)] by blast
    moreover have "p ! r = b" using r(4) i \<open>i \<le> r\<close> by (cases "r = 0") auto
    ultimately show ?thesis using Suc by (simp add: k_def)
  qed simp
  moreover have "k < Suc n" using r(1) m(1) by (simp add: k_def)
  ultimately show ?thesis using ext by (auto simp: longest_below_def)
qed

section \<open>The matcher finds the pattern\<close>

lemma prefix_rounds_ok:
  "1 \<le> i \<Longrightarrow> i \<le> length p \<Longrightarrow> length pre = length p \<Longrightarrow> prefix_table p pre i \<Longrightarrow>
   longest_below i p (take i p) m \<Longrightarrow>
   \<exists>pre'. prefix_rounds p [i..<length p] m pre = Some pre' \<and> prefix_table p pre' (length p)"
proof (induction "length p - i" arbitrary: i m pre)
  case 0
  then show ?case by simp
next
  case (Suc d)
  then have i: "i < length p" by simp
  have "m < i" using Suc.prems by (simp add: longest_below_def)
  then have "prefix_table p pre m" using Suc.prems by (auto simp: prefix_table_def)
  from extend_match_ok [OF this Suc.prems(5), of "p ! i"] i obtain k where
    k: "extend_match p pre (p ! i) m = Some k" "longest_below (Suc i) p (take (Suc i) p) k"
    by (auto simp: take_Suc_conv_app_nth)
  have "prefix_table p (pre[i := k]) (Suc i)"
    using Suc.prems(3,4) k(2) i by (auto simp: prefix_table_def nth_list_update less_Suc_eq)
  moreover have "d = length p - Suc i" "length (pre[i := k]) = length p" using Suc.hyps(2) Suc.prems(3) by auto
  ultimately obtain pre' where
    "prefix_rounds p [Suc i..<length p] k (pre[i := k]) = Some pre'" "prefix_table p pre' (length p)"
    using Suc.hyps(1) [of "Suc i" "pre[i := k]" k] k(2) i by auto
  then show ?case using i k(1) by (simp add: upt_conv_Cons nth_checked_def)
qed

text \<open>A matcher of \<open>p\<close> that has read \<open>s\<close> since it was created or reset.\<close>

definition matcher_for :: "u8 list \<Rightarrow> byte_pattern_matcher \<Rightarrow> bool" where
  "matcher_for p m \<longleftrightarrow> bm_pattern m = p \<and> prefix_table p (bm_prefix m) (length p)"

definition tracks :: "u8 list \<Rightarrow> u8 list \<Rightarrow> byte_pattern_matcher \<Rightarrow> bool" where
  "tracks p s m \<longleftrightarrow> matcher_for p m \<and> longest_below (length p) p s (bm_matched m)"

lemma longest_below_start: "p \<noteq> [] \<Longrightarrow> longest_below (length p) p [] 0"
  by (auto simp: longest_below_def matched_at_def)

lemma tracks_reset: "p \<noteq> [] \<Longrightarrow> matcher_for p m \<Longrightarrow> tracks p [] (matcher_reset m)"
  by (simp add: tracks_def matcher_for_def matcher_reset_def longest_below_start)

lemma matcher_for_reset [simp]: "matcher_for p (matcher_reset m) = matcher_for p m"
  by (simp add: matcher_for_def matcher_reset_def)

lemma matcher_new_ok:
  assumes "p \<noteq> []"
  shows "\<exists>m. matcher_new p = Some m \<and> tracks p [] m"
proof -
  have one: "longest_below (Suc 0) p (take (Suc 0) p) 0" by (simp add: longest_below_def)
  have "prefix_table p (replicate (length p) 0) 1"
    using assms one by (auto simp: prefix_table_def Suc_le_eq)
  from prefix_rounds_ok [OF _ _ _ this] one assms obtain pre where
    "prefix_rounds p [1..<length p] 0 (replicate (length p) 0) = Some pre" "prefix_table p pre (length p)"
    by (auto simp: Suc_le_eq)
  then show ?thesis
    using assms by (simp add: matcher_new_def tracks_def matcher_for_def longest_below_start)
qed

lemma matcher_push_ok:
  assumes "tracks p s m" and "p \<noteq> []"
  shows "\<exists>m'. matcher_push b m = Some (suffix p (s @ [b]), m') \<and>
    tracks p (if suffix p (s @ [b]) then [] else s @ [b]) m'"
proof -
  have f: "bm_pattern m = p" "prefix_table p (bm_prefix m) (length p)"
    and l: "longest_below (length p) p s (bm_matched m)"
    using assms(1) by (auto simp: tracks_def matcher_for_def)
  have "prefix_table p (bm_prefix m) (bm_matched m)"
    using f(2) l by (auto simp: prefix_table_def longest_below_def)
  from extend_match_ok [OF this l] obtain k where k: "extend_match p (bm_prefix m) b (bm_matched m) = Some k"
    "longest_below (Suc (length p)) p (s @ [b]) k" by auto
  have full: "k = length p \<longleftrightarrow> suffix p (s @ [b])"
  proof
    assume "k = length p"
    then show "suffix p (s @ [b])" using k(2) by (simp add: longest_below_def matched_at_def)
  next
    assume "suffix p (s @ [b])"
    then have "matched_at p (s @ [b]) (length p)" by (simp add: matched_at_def)
    then have "length p \<le> k" using k(2) unfolding longest_below_def by blast
    then show "k = length p" using k(2) by (simp add: longest_below_def)
  qed
  show ?thesis
  proof (cases "k = length p")
    case True
    then show ?thesis
      using k(1) f full assms(2) by (auto simp: matcher_push_def tracks_def matcher_for_def longest_below_start)
  next
    case False
    then have "longest_below (length p) p (s @ [b]) k" using k(2) by (auto simp: longest_below_def)
    then show ?thesis using False k(1) f full by (auto simp: matcher_push_def tracks_def matcher_for_def)
  qed
qed

section \<open>Framing\<close>

declare suffix_snoc [simp del]

text \<open>\<open>u\<close> ends where \<open>p\<close> first occurs in \<open>s @ u\<close> beyond \<open>s\<close>.\<close>

definition first_end :: "u8 list \<Rightarrow> u8 list \<Rightarrow> u8 list \<Rightarrow> bool" where
  "first_end p s u \<longleftrightarrow> u \<noteq> [] \<and> suffix p (s @ u) \<and> (\<forall>w. w \<noteq> [] \<and> strict_prefix w u \<longrightarrow> \<not> suffix p (s @ w))"

text \<open>\<open>u\<close> ends where \<open>p\<close> first occurs.\<close>

definition ends_first :: "u8 list \<Rightarrow> u8 list \<Rightarrow> bool" where
  "ends_first p u \<longleftrightarrow> suffix p u \<and> (\<forall>w. strict_prefix w u \<longrightarrow> \<not> suffix p w)"

text \<open>The text after a boundary: the closing dashes and anything after them, or the end of the boundary line,
  the headers of a part, its data and the next boundary.\<close>

inductive framed :: "u8 list \<Rightarrow> u8 list \<Rightarrow> bool" for boundary where
  closing: "framed boundary ([DASH, DASH] @ epilogue)"
| part: "set pad \<subseteq> {SPACE, TAB} \<Longrightarrow> length pad \<le> MAX_MULTIPART_BOUNDARY_PADDING_BYTES \<Longrightarrow>
    ends_first [CR, LF, CR, LF] headers \<Longrightarrow> length headers \<le> MAX_MULTIPART_PART_HEADER_BYTES \<Longrightarrow>
    ends_first ([CR, LF, DASH, DASH] @ boundary) data \<Longrightarrow> framed boundary rest \<Longrightarrow>
    framed boundary (pad @ [CR, LF] @ headers @ data @ rest)"

text \<open>A body: a preamble of bounded length up to the first boundary, and what follows it.\<close>

definition well_framed :: "u8 list \<Rightarrow> u8 list \<Rightarrow> bool" where
  "well_framed boundary s \<longleftrightarrow>
     (\<exists>preamble rest. s = preamble @ [DASH, DASH] @ boundary @ rest \<and>
        ends_first ([DASH, DASH] @ boundary) (preamble @ [DASH, DASH] @ boundary) \<and>
        length preamble \<le> MAX_MULTIPART_PREAMBLE_BYTES \<and> framed boundary rest)"

lemma first_end_Nil:
  assumes "p \<noteq> []"
  shows "first_end p [] u \<longleftrightarrow> ends_first p u"
proof -
  have nil: "\<not> suffix p []" using assms by simp
  show ?thesis
    unfolding first_end_def ends_first_def append_Nil using nil by metis
qed

lemma first_end_Cons:
  "first_end p s (b # u) \<longleftrightarrow> (if suffix p (s @ [b]) then u = [] else first_end p (s @ [b]) u)"
proof (cases "suffix p (s @ [b])")
  case True
  have "u = []" if "first_end p s (b # u)"
  proof (rule ccontr)
    assume "u \<noteq> []"
    then have "strict_prefix [b] (b # u)" by (cases u) auto
    then show False using that True unfolding first_end_def by blast
  qed
  moreover have "first_end p s [b]" using True by (auto simp: first_end_def strict_prefix_def prefix_Cons)
  ultimately show ?thesis using True by auto
next
  case False
  have iff: "(\<forall>w. w \<noteq> [] \<and> strict_prefix w (b # u) \<longrightarrow> \<not> suffix p (s @ w)) \<longleftrightarrow>
        (\<forall>w. w \<noteq> [] \<and> strict_prefix w u \<longrightarrow> \<not> suffix p ((s @ [b]) @ w))"
    (is "?l \<longleftrightarrow> ?r")
  proof
    assume l: ?l
    show ?r
    proof (intro allI impI)
      fix w assume "w \<noteq> [] \<and> strict_prefix w u"
      then show "\<not> suffix p ((s @ [b]) @ w)" using l [rule_format, of "b # w"] by simp
    qed
  next
    assume r: ?r
    show ?l
    proof (intro allI impI)
      fix w assume w: "w \<noteq> [] \<and> strict_prefix w (b # u)"
      then obtain w' where "w = b # w'" "strict_prefix w' u" by (cases w) auto
      then show "\<not> suffix p (s @ w)" using r [rule_format, of w'] False by (cases "w' = []") auto
    qed
  qed
  show ?thesis
  proof (cases "u = []")
    case True
    then show ?thesis using False by (simp add: first_end_def)
  next
    case nonempty: False
    show ?thesis unfolding first_end_def iff using False nonempty by simp
  qed
qed

lemma first_end_empty [simp]: "\<not> first_end p s []"
  by (simp add: first_end_def)

lemma split_first_end_Cons:
  "(\<exists>u rest. b # bs = u @ rest \<and> first_end p s u \<and> Q u rest) \<longleftrightarrow>
   (if suffix p (s @ [b]) then Q [b] bs
    else \<exists>u rest. bs = u @ rest \<and> first_end p (s @ [b]) u \<and> Q (b # u) rest)"
  (is "?l \<longleftrightarrow> ?r")
proof
  assume ?l
  then obtain u rest where u: "b # bs = u @ rest" "first_end p s u" "Q u rest" by blast
  then obtain u' where "u = b # u'" "bs = u' @ rest" by (cases u) auto
  then show ?r using u(2,3) by (cases "suffix p (s @ [b])") (auto simp: first_end_Cons)
next
  assume r: ?r
  show ?l
  proof (cases "suffix p (s @ [b])")
    case True
    then show ?thesis using r by (intro exI [of _ "[b]"] exI [of _ bs]) (simp add: first_end_Cons)
  next
    case False
    then obtain u rest where "bs = u @ rest" "first_end p (s @ [b]) u" "Q (b # u) rest" using r by auto
    then show ?thesis using False by (intro exI [of _ "b # u"] exI [of _ rest]) (simp add: first_end_Cons)
  qed
qed

lemma split_first_end_Nil: "\<not> (\<exists>u rest. [] = u @ rest \<and> first_end p s u \<and> Q u rest)"
  by auto

section \<open>The validator accepts exactly the framed bodies\<close>

abbreviation first_pattern :: "u8 list \<Rightarrow> u8 list" where
  "first_pattern boundary \<equiv> [DASH, DASH] @ boundary"

abbreviation field_pattern :: "u8 list \<Rightarrow> u8 list" where
  "field_pattern boundary \<equiv> [CR, LF, DASH, DASH] @ boundary"

abbreviation header_pattern :: "u8 list" where
  "header_pattern \<equiv> [CR, LF, CR, LF]"

text \<open>What must follow in each state, where \<open>s\<close> was read since the matcher of the state was reset.\<close>

definition data_ok :: "u8 list \<Rightarrow> u8 list \<Rightarrow> u8 list \<Rightarrow> bool" where
  "data_ok B s bs \<longleftrightarrow> (\<exists>u rest. bs = u @ rest \<and> first_end (field_pattern B) s u \<and> framed B rest)"

definition headers_ok :: "u8 list \<Rightarrow> u8 list \<Rightarrow> u8 list \<Rightarrow> bool" where
  "headers_ok B s bs \<longleftrightarrow>
     (\<exists>u rest. bs = u @ rest \<and> first_end header_pattern s u \<and>
        (length s + length u \<le> MAX_MULTIPART_PART_HEADER_BYTES \<and> data_ok B [] rest))"

definition line_ok :: "u8 list \<Rightarrow> u8 list \<Rightarrow> bool" where
  "line_ok B bs \<longleftrightarrow> (\<exists>rest. bs = LF # rest \<and> headers_ok B [] rest)"

definition padding_ok :: "u8 list \<Rightarrow> nat \<Rightarrow> u8 list \<Rightarrow> bool" where
  "padding_ok B n bs \<longleftrightarrow>
     (\<exists>pad rest. bs = pad @ CR # rest \<and> set pad \<subseteq> {SPACE, TAB} \<and>
        n + length pad \<le> MAX_MULTIPART_BOUNDARY_PADDING_BYTES \<and> line_ok B rest)"

definition preamble_ok :: "u8 list \<Rightarrow> u8 list \<Rightarrow> u8 list \<Rightarrow> bool" where
  "preamble_ok B s bs \<longleftrightarrow>
     (\<exists>u rest. bs = u @ rest \<and> first_end (first_pattern B) s u \<and>
        (length s + length u \<le> MAX_MULTIPART_PREAMBLE_BYTES + length (first_pattern B) \<and> framed B rest))"

fun suffix_ok :: "u8 list \<Rightarrow> boundary_suffix \<Rightarrow> u8 list \<Rightarrow> bool" where
  "suffix_ok B SuffixStart bs = framed B bs"
| "suffix_ok B SuffixDash bs = (\<exists>rest. bs = DASH # rest)"
| "suffix_ok B (SuffixPadding n) bs = padding_ok B n bs"
| "suffix_ok B SuffixCarriageReturn bs = line_ok B bs"

fun state_ok :: "u8 list \<Rightarrow> multipart_structure_state \<Rightarrow> u8 list \<Rightarrow> u8 list \<Rightarrow> bool" where
  "state_ok B (FindingFirstBoundary n) s bs = preamble_ok B s bs"
| "state_ok B (ReadingBoundarySuffix sfx) s bs = suffix_ok B sfx bs"
| "state_ok B (ReadingHeaders n) s bs = headers_ok B s bs"
| "state_ok B ReadingData s bs = data_ok B s bs"
| "state_ok B StructureDone s bs = True"

lemma byte_distinct [simp]:
  "DASH \<noteq> SPACE" "DASH \<noteq> TAB" "DASH \<noteq> CR" "SPACE \<noteq> CR" "TAB \<noteq> CR"
  "SPACE \<noteq> DASH" "TAB \<noteq> DASH" "CR \<noteq> DASH" "CR \<noteq> SPACE" "CR \<noteq> TAB"
  by (simp_all add: DASH_def SPACE_def TAB_def CR_def)

lemma data_ok_Cons:
  "data_ok B s (b # bs) \<longleftrightarrow> (if suffix (field_pattern B) (s @ [b]) then framed B bs else data_ok B (s @ [b]) bs)"
  unfolding data_ok_def by (rule split_first_end_Cons)

lemma headers_ok_Cons:
  "headers_ok B s (b # bs) \<longleftrightarrow>
     (if suffix header_pattern (s @ [b]) then length (s @ [b]) \<le> MAX_MULTIPART_PART_HEADER_BYTES \<and> data_ok B [] bs
      else headers_ok B (s @ [b]) bs)"
  unfolding headers_ok_def
  by (subst split_first_end_Cons [where Q = "\<lambda>u rest. length s + length u \<le> MAX_MULTIPART_PART_HEADER_BYTES \<and> data_ok B [] rest"])
    simp

lemma headers_ok_bound:
  assumes "headers_ok B s bs"
  shows "length s < MAX_MULTIPART_PART_HEADER_BYTES"
proof -
  obtain u where "first_end header_pattern s u" "length s + length u \<le> MAX_MULTIPART_PART_HEADER_BYTES"
    using assms unfolding headers_ok_def by blast
  then show ?thesis by (cases u) simp_all
qed

lemma padding_ok_Cons:
  "padding_ok B n (b # bs) \<longleftrightarrow>
     (b = CR \<and> n \<le> MAX_MULTIPART_BOUNDARY_PADDING_BYTES \<and> line_ok B bs) \<or>
     (b \<in> {SPACE, TAB} \<and> padding_ok B (Suc n) bs)"
  (is "?l \<longleftrightarrow> ?r")
proof
  assume ?l
  then obtain pad rest where p: "b # bs = pad @ CR # rest" "set pad \<subseteq> {SPACE, TAB}"
    "n + length pad \<le> MAX_MULTIPART_BOUNDARY_PADDING_BYTES" "line_ok B rest" unfolding padding_ok_def by blast
  show ?r
  proof (cases pad)
    case Nil
    then show ?thesis using p by simp
  next
    case (Cons x pad')
    then show ?thesis using p unfolding padding_ok_def by auto
  qed
next
  assume ?r
  then show ?l
  proof
    assume "b = CR \<and> n \<le> MAX_MULTIPART_BOUNDARY_PADDING_BYTES \<and> line_ok B bs"
    then show ?l unfolding padding_ok_def by (intro exI [of _ "[]"] exI [of _ bs]) simp
  next
    assume a: "b \<in> {SPACE, TAB} \<and> padding_ok B (Suc n) bs"
    then obtain pad rest where "bs = pad @ CR # rest" "set pad \<subseteq> {SPACE, TAB}"
      "Suc n + length pad \<le> MAX_MULTIPART_BOUNDARY_PADDING_BYTES" "line_ok B rest" unfolding padding_ok_def by blast
    then show ?l using a unfolding padding_ok_def by (intro exI [of _ "b # pad"] exI [of _ rest]) simp
  qed
qed

lemma framed_iff: "framed B bs \<longleftrightarrow> (\<exists>rest. bs = DASH # DASH # rest) \<or> padding_ok B 0 bs"
  (is "_ \<longleftrightarrow> ?r")
proof
  assume "framed B bs"
  then show ?r
  proof cases
    case (closing epilogue)
    then show ?thesis by simp
  next
    case (part pad headers data rest)
    then have "data_ok B [] (data @ rest)"
      unfolding data_ok_def by (intro exI [of _ data] exI [of _ rest]) (simp add: first_end_Nil)
    then have "headers_ok B [] (headers @ data @ rest)"
      using part unfolding headers_ok_def
      by (intro exI [of _ headers] exI [of _ "data @ rest"]) (simp add: first_end_Nil)
    then show ?thesis
      using part unfolding padding_ok_def line_ok_def by (intro disjI2 exI [of _ pad] exI conjI) auto
  qed
next
  assume ?r
  then show "framed B bs"
  proof
    assume "\<exists>rest. bs = DASH # DASH # rest"
    then show ?thesis using framed.closing by fastforce
  next
    assume "padding_ok B 0 bs"
    then obtain pad h d rest where *: "bs = pad @ CR # LF # h @ d @ rest" "set pad \<subseteq> {SPACE, TAB}"
      "length pad \<le> MAX_MULTIPART_BOUNDARY_PADDING_BYTES" "first_end header_pattern [] h"
      "length h \<le> MAX_MULTIPART_PART_HEADER_BYTES" "first_end (field_pattern B) [] d" "framed B rest"
      unfolding padding_ok_def line_ok_def headers_ok_def data_ok_def by auto
    then show ?thesis using framed.part [of pad h B d rest] by (simp add: first_end_Nil)
  qed
qed

lemma framed_Cons:
  "framed B (b # bs) \<longleftrightarrow>
     (b = DASH \<and> suffix_ok B SuffixDash bs) \<or> (b \<in> {SPACE, TAB} \<and> padding_ok B 1 bs) \<or> (b = CR \<and> line_ok B bs)"
  by (auto simp: framed_iff [of B "b # bs"] padding_ok_Cons)

lemma preamble_ok_Cons:
  "preamble_ok B s (b # bs) \<longleftrightarrow>
     (if suffix (first_pattern B) (s @ [b])
      then length (s @ [b]) \<le> MAX_MULTIPART_PREAMBLE_BYTES + length (first_pattern B) \<and> framed B bs
      else preamble_ok B (s @ [b]) bs)"
  unfolding preamble_ok_def
  by (subst split_first_end_Cons [where Q = "\<lambda>u rest. length s + length u \<le> MAX_MULTIPART_PREAMBLE_BYTES +
      length (first_pattern B) \<and> framed B rest"]) simp

text \<open>Once the unmatched text is too long, no boundary can follow in time.\<close>

lemma preamble_overflow:
  assumes "longest_below (length p) p s k" and "N < length s - k" and "first_end p s u"
  shows "N + length p < length s + length u"
proof (rule ccontr)
  assume c: "\<not> N + length p < length s + length u"
  have sfx: "suffix p (s @ u)" and u: "u \<noteq> []" using assms(3) by (auto simp: first_end_def)
  obtain q where q: "s @ u = q @ p" using sfx by (auto simp: suffix_def)
  have lq: "length s + length u = length q + length p" using arg_cong [OF q, of length] by simp
  then have "length q \<le> N" using c by simp
  then have short: "length q < length s - k" using assms(2) by simp
  define j where "j = length s - length q"
  have j: "k < j" "j < length p" using short u lq unfolding j_def by (cases u; simp)+
  have "s = take (length s) (q @ p)" using q by (metis append_eq_conv_conj)
  then have "s = q @ take j p" using short by (simp add: j_def)
  then have "matched_at p s j" using j by (auto simp: matched_at_def suffix_def)
  then show False using assms(1) j by (auto simp: longest_below_def)
qed

fun state_inv :: "u8 list \<Rightarrow> u8 list \<Rightarrow> multipart_structure_validator \<Rightarrow> multipart_structure_state \<Rightarrow> bool" where
  "state_inv B s v (FindingFirstBoundary n) \<longleftrightarrow>
     n = length s \<and> tracks (first_pattern B) s (mv_first_boundary v) \<and>
     length s - bm_matched (mv_first_boundary v) \<le> MAX_MULTIPART_PREAMBLE_BYTES"
| "state_inv B s v (ReadingBoundarySuffix sfx) \<longleftrightarrow>
     (\<forall>n. sfx = SuffixPadding n \<longrightarrow> n \<le> MAX_MULTIPART_BOUNDARY_PADDING_BYTES)"
| "state_inv B s v (ReadingHeaders n) \<longleftrightarrow> n = length s \<and> tracks header_pattern s (mv_header_terminator v)"
| "state_inv B s v ReadingData \<longleftrightarrow> tracks (field_pattern B) s (mv_field_boundary v)"
| "state_inv B s v StructureDone \<longleftrightarrow> True"

definition validator_inv :: "u8 list \<Rightarrow> u8 list \<Rightarrow> multipart_structure_validator \<Rightarrow> bool" where
  "validator_inv B s v \<longleftrightarrow>
     matcher_for (first_pattern B) (mv_first_boundary v) \<and> matcher_for (field_pattern B) (mv_field_boundary v) \<and>
     matcher_for header_pattern (mv_header_terminator v) \<and> state_inv B s v (mv_state v)"

text \<open>A step is right: it refuses only what cannot be completed, and otherwise what must follow is what must
  follow in the new state.\<close>

definition step_ok ::
  "u8 list \<Rightarrow> u8 list \<Rightarrow> multipart_structure_validator \<Rightarrow> u8 \<Rightarrow> stream_error + multipart_structure_validator \<Rightarrow> bool" where
  "step_ok B s v b r \<longleftrightarrow>
     (case r of
        Inl err \<Rightarrow> err = InvalidMultipartStructure \<and> (\<forall>bs. \<not> state_ok B (mv_state v) s (b # bs))
      | Inr v' \<Rightarrow>
          \<exists>s'. validator_inv B s' v' \<and> (\<forall>bs. state_ok B (mv_state v) s (b # bs) \<longleftrightarrow> state_ok B (mv_state v') s' bs))"

lemma tracks_matcher_for: "tracks p s m \<Longrightarrow> matcher_for p m"
  by (simp add: tracks_def)

lemma push_preamble_ok:
  assumes "validator_inv B s v" and "mv_state v = FindingFirstBoundary n"
  shows "\<exists>r. push_byte b v = Some r \<and> step_ok B s v b r"
proof -
  let ?p = "first_pattern B"
  have inv: "n = length s" "tracks ?p s (mv_first_boundary v)"
    "length s - bm_matched (mv_first_boundary v) \<le> MAX_MULTIPART_PREAMBLE_BYTES"
    using assms by (auto simp: validator_inv_def)
  obtain m where m: "matcher_push b (mv_first_boundary v) = Some (suffix ?p (s @ [b]), m)"
    "tracks ?p (if suffix ?p (s @ [b]) then [] else s @ [b]) m"
    using matcher_push_ok [OF inv(2)] by auto
  show ?thesis
  proof (cases "suffix ?p (s @ [b])")
    case True
    have "matched_at ?p (s @ [b]) (Suc (length ?p - 1))" using True by (simp add: matched_at_def)
    then have "matched_at ?p s (length ?p - 1)" unfolding matched_at_snoc by simp
    then have "length ?p - 1 = bm_matched (mv_first_boundary v)"
      using inv(2) unfolding tracks_def longest_below_def by force
    then have len: "length (s @ [b]) \<le> MAX_MULTIPART_PREAMBLE_BYTES + length ?p" using inv(3) by simp
    then show ?thesis
      using True m assms tracks_matcher_for [OF m(2)]
      by (auto simp: push_byte_def step_ok_def validator_inv_def preamble_ok_Cons)
  next
    case False
    have long: "longest_below (length ?p) ?p (s @ [b]) (bm_matched m)" using m(2) False by (simp add: tracks_def)
    show ?thesis
    proof (cases "MAX_MULTIPART_PREAMBLE_BYTES < length (s @ [b]) - bm_matched m")
      case True
      have "\<not> preamble_ok B (s @ [b]) bs" for bs
        using preamble_overflow [OF long True] unfolding preamble_ok_def by (meson leD)
      then show ?thesis using False True m assms inv(1) by (simp add: push_byte_def step_ok_def preamble_ok_Cons)
    next
      case fits: False
      let ?v = "v\<lparr>mv_first_boundary := m, mv_state := FindingFirstBoundary (n + 1)\<rparr>"
      have "push_byte b v = Some (Inr ?v)"
        using False fits m(1) assms inv(1) by (simp add: push_byte_def)
      moreover have "validator_inv B (s @ [b]) ?v"
        using False fits m(2) assms inv(1) tracks_matcher_for [OF m(2)] by (simp add: validator_inv_def)
      ultimately show ?thesis
        using False assms by (auto simp: step_ok_def preamble_ok_Cons)
    qed
  qed
qed

lemma push_headers_ok:
  assumes "validator_inv B s v" and "mv_state v = ReadingHeaders n"
  shows "\<exists>r. push_byte b v = Some r \<and> step_ok B s v b r"
proof -
  have inv: "n = length s" "tracks header_pattern s (mv_header_terminator v)"
    using assms by (auto simp: validator_inv_def)
  obtain m where m: "matcher_push b (mv_header_terminator v) = Some (suffix header_pattern (s @ [b]), m)"
    "tracks header_pattern (if suffix header_pattern (s @ [b]) then [] else s @ [b]) m"
    using matcher_push_ok [OF inv(2)] by auto
  note m_for = tracks_matcher_for [OF m(2)]
  consider (over) "MAX_MULTIPART_PART_HEADER_BYTES < n + 1"
    | (hit) "\<not> MAX_MULTIPART_PART_HEADER_BYTES < n + 1" "suffix header_pattern (s @ [b])"
    | (on) "\<not> MAX_MULTIPART_PART_HEADER_BYTES < n + 1" "\<not> suffix header_pattern (s @ [b])" by blast
  then show ?thesis
  proof cases
    case over
    have "\<not> headers_ok B s (b # bs)" for bs using headers_ok_bound [of B s "b # bs"] over inv(1) by auto
    then show ?thesis using over assms(2) by (simp add: push_byte_def step_ok_def)
  next
    case hit
    let ?v = "v\<lparr>mv_header_terminator := m, mv_field_boundary := matcher_reset (mv_field_boundary v),
        mv_state := ReadingData\<rparr>"
    have "push_byte b v = Some (Inr ?v)" using hit m(1) assms(2) by (simp add: push_byte_def)
    moreover have "validator_inv B [] ?v"
      using assms m_for tracks_reset [of "field_pattern B"] by (simp add: validator_inv_def)
    ultimately show ?thesis using hit assms(2) inv(1) by (auto simp: step_ok_def headers_ok_Cons)
  next
    case on
    let ?v = "v\<lparr>mv_header_terminator := m, mv_state := ReadingHeaders (n + 1)\<rparr>"
    have "push_byte b v = Some (Inr ?v)" using on m(1) assms(2) by (simp add: push_byte_def)
    moreover have "validator_inv B (s @ [b]) ?v"
      using on assms m_for m(2) inv(1) by (simp add: validator_inv_def)
    ultimately show ?thesis using on assms(2) by (auto simp: step_ok_def headers_ok_Cons)
  qed
qed

lemma push_data_ok:
  assumes "validator_inv B s v" and "mv_state v = ReadingData"
  shows "\<exists>r. push_byte b v = Some r \<and> step_ok B s v b r"
proof -
  let ?p = "field_pattern B"
  have inv: "tracks ?p s (mv_field_boundary v)" using assms by (auto simp: validator_inv_def)
  obtain m where m: "matcher_push b (mv_field_boundary v) = Some (suffix ?p (s @ [b]), m)"
    "tracks ?p (if suffix ?p (s @ [b]) then [] else s @ [b]) m"
    using matcher_push_ok [OF inv] by auto
  show ?thesis
  proof (cases "suffix ?p (s @ [b])")
    case True
    then show ?thesis
      using m assms tracks_matcher_for [OF m(2)] by (auto simp: push_byte_def step_ok_def validator_inv_def data_ok_Cons)
  next
    case False
    have "push_byte b v = Some (Inr (v\<lparr>mv_field_boundary := m\<rparr>))" using False m(1) assms(2) by (simp add: push_byte_def)
    moreover have "validator_inv B (s @ [b]) (v\<lparr>mv_field_boundary := m\<rparr>)"
      using False assms tracks_matcher_for [OF m(2)] m(2) by (simp add: validator_inv_def)
    ultimately show ?thesis using False assms(2) by (auto simp: step_ok_def data_ok_Cons)
  qed
qed

lemma padding_ok_bound: "padding_ok B n bs \<Longrightarrow> n \<le> MAX_MULTIPART_BOUNDARY_PADDING_BYTES"
  by (auto simp: padding_ok_def)

lemma line_ok_Cons: "line_ok B (b # bs) \<longleftrightarrow> b = LF \<and> headers_ok B [] bs"
  by (auto simp: line_ok_def)

lemma push_suffix_ok:
  assumes "validator_inv B s v" and "mv_state v = ReadingBoundarySuffix sfx"
  shows "step_ok B s v b (push_suffix b sfx v)"
proof (cases sfx)
  case SuffixStart
  then show ?thesis
    using assms by (auto simp: push_suffix_def step_ok_def validator_inv_def framed_Cons
        MAX_MULTIPART_BOUNDARY_PADDING_BYTES_def)
next
  case SuffixDash
  then show ?thesis using assms by (auto simp: push_suffix_def step_ok_def validator_inv_def)
next
  case (SuffixPadding n)
  have "\<not> padding_ok B (Suc n) bs" if "MAX_MULTIPART_BOUNDARY_PADDING_BYTES < Suc n" for bs
    using padding_ok_bound [of B "Suc n" bs] that by auto
  then show ?thesis
    using SuffixPadding assms by (auto simp: push_suffix_def step_ok_def validator_inv_def padding_ok_Cons)
next
  case SuffixCarriageReturn
  then show ?thesis
    using assms tracks_reset [of header_pattern "mv_header_terminator v"]
    by (auto simp: push_suffix_def step_ok_def validator_inv_def line_ok_Cons intro!: exI [of _ "[]"])
qed

lemma push_byte_ok:
  assumes "validator_inv B s v"
  shows "\<exists>r. push_byte b v = Some r \<and> step_ok B s v b r"
proof (cases "mv_state v")
  case (ReadingBoundarySuffix sfx)
  then show ?thesis using push_suffix_ok [OF assms] by (simp add: push_byte_def)
next
  case StructureDone
  then show ?thesis using assms by (auto simp: push_byte_def step_ok_def)
qed (use push_preamble_ok push_headers_ok push_data_ok assms in blast)+

lemma validator_push_ok:
  "validator_inv B s v \<Longrightarrow> \<exists>r. validator_push bs v = Some r \<and>
     (case r of
        Inl err \<Rightarrow> err = InvalidMultipartStructure \<and> (\<forall>cs. \<not> state_ok B (mv_state v) s (bs @ cs))
      | Inr v' \<Rightarrow>
          \<exists>s'. validator_inv B s' v' \<and> (\<forall>cs. state_ok B (mv_state v) s (bs @ cs) \<longleftrightarrow> state_ok B (mv_state v') s' cs))"
proof (induction bs arbitrary: s v)
  case Nil
  then show ?case by auto
next
  case (Cons b bs)
  from push_byte_ok [OF Cons.prems] obtain r where r: "push_byte b v = Some r" "step_ok B s v b r" by blast
  show ?case
  proof (cases r)
    case (Inl err)
    then show ?thesis using r by (simp add: step_ok_def)
  next
    case (Inr v')
    then obtain s' where s': "validator_inv B s' v'"
      "\<And>bs. state_ok B (mv_state v) s (b # bs) \<longleftrightarrow> state_ok B (mv_state v') s' bs"
      using r(2) by (auto simp: step_ok_def)
    show ?thesis unfolding append_Cons s'(2) using Cons.IH [OF s'(1)] r(1) Inr by simp
  qed
qed

lemma state_ok_Nil: "state_ok B (mv_state v) s [] \<longleftrightarrow> mv_state v = StructureDone"
proof -
  have "\<not> framed B []" by (auto simp: framed_iff padding_ok_def)
  then have "\<not> suffix_ok B sfx []" for sfx by (cases sfx) (auto simp: padding_ok_def line_ok_def)
  then show ?thesis
    by (cases "mv_state v") (auto simp: preamble_ok_def headers_ok_def data_ok_def)
qed

lemma guard_chunks_ok:
  "validator_inv B s v \<Longrightarrow> \<exists>out r. guard_chunks cs v = Some (out, r) \<and> prefix (map Some out) cs \<and>
     (r = Inr () \<longleftrightarrow> None \<notin> set cs \<and> state_ok B (mv_state v) s (concat (map the cs))) \<and>
     (r = Inr () \<longrightarrow> map Some out = cs) \<and> (None \<notin> set cs \<longrightarrow> r \<noteq> Inl ReadFailed)"
proof (induction cs arbitrary: s v)
  case Nil
  then show ?case by (simp add: validator_finish_def state_ok_Nil)
next
  case (Cons c cs)
  show ?case
  proof (cases c)
    case None
    then show ?thesis by simp
  next
    case (Some bs)
    from validator_push_ok [OF Cons.prems, of bs] obtain r where r: "validator_push bs v = Some r"
      and step: "case r of
        Inl err \<Rightarrow> err = InvalidMultipartStructure \<and> (\<forall>cs. \<not> state_ok B (mv_state v) s (bs @ cs))
      | Inr v' \<Rightarrow>
          \<exists>s'. validator_inv B s' v' \<and> (\<forall>cs. state_ok B (mv_state v) s (bs @ cs) \<longleftrightarrow> state_ok B (mv_state v') s' cs)"
      by blast
    show ?thesis
    proof (cases r)
      case (Inl err)
      then show ?thesis using r step Some by simp
    next
      case (Inr v')
      then obtain s' where s': "validator_inv B s' v'"
        "\<And>cs. state_ok B (mv_state v) s (bs @ cs) \<longleftrightarrow> state_ok B (mv_state v') s' cs" using step by auto
      show ?thesis using Cons.IH [OF s'(1)] r Inr Some by (auto simp: s'(2))
    qed
  qed
qed

lemma validator_new_ok: "\<exists>v. validator_new B = Some v \<and> validator_inv B [] v \<and> mv_state v = FindingFirstBoundary 0"
proof -
  obtain a where a: "matcher_new (first_pattern B) = Some a" "tracks (first_pattern B) [] a"
    using matcher_new_ok [of "first_pattern B"] by auto
  obtain b where b: "matcher_new (field_pattern B) = Some b" "tracks (field_pattern B) [] b"
    using matcher_new_ok [of "field_pattern B"] by auto
  obtain c where c: "matcher_new header_pattern = Some c" "tracks header_pattern [] c"
    using matcher_new_ok [of header_pattern] by auto
  show ?thesis using a b c by (auto simp: validator_new_def validator_inv_def tracks_matcher_for)
qed

lemma preamble_ok_iff: "preamble_ok B [] bs \<longleftrightarrow> well_framed B bs"
proof
  assume "preamble_ok B [] bs"
  then obtain u rest where u: "bs = u @ rest" "ends_first (first_pattern B) u"
    "length u \<le> MAX_MULTIPART_PREAMBLE_BYTES + length (first_pattern B)" "framed B rest"
    by (auto simp: preamble_ok_def first_end_Nil)
  then obtain q where "u = q @ first_pattern B" by (auto simp: ends_first_def suffix_def)
  then show "well_framed B bs" using u unfolding well_framed_def by (intro exI [of _ q] exI [of _ rest]) simp
next
  assume "well_framed B bs"
  then obtain q rest where "bs = q @ first_pattern B @ rest" "ends_first (first_pattern B) (q @ first_pattern B)"
    "length q \<le> MAX_MULTIPART_PREAMBLE_BYTES" "framed B rest" unfolding well_framed_def by auto
  then show "preamble_ok B [] bs"
    unfolding preamble_ok_def by (intro exI [of _ "q @ first_pattern B"] exI [of _ rest]) (simp add: first_end_Nil)
qed

text \<open>C36. The streaming guard on multipart bodies, built from three Knuth-Morris-Pratt matchers, is exact for every
  boundary and every division of the body into chunks: it never panics or loops, it ends without error exactly if
  every chunk could be read and the whole body is well framed, that is, the first boundary starts within the bound,
  each boundary line, header block and part ends at the first place where its terminator occurs and within its
  bound, and a closing boundary follows; it passes on the chunks unchanged, all of them if it ends without error.\<close>

theorem multipart_guard_exact:
  "\<exists>out r. guard_multipart_stream boundary cs = Some (out, r) \<and> prefix (map Some out) cs \<and>
     (r = Inr () \<longleftrightarrow> None \<notin> set cs \<and> well_framed boundary (concat (map the cs))) \<and>
     (r \<noteq> Inr () \<or> map Some out = cs) \<and> (None \<in> set cs \<or> r \<noteq> Inl ReadFailed)"
proof -
  obtain v where v: "validator_new boundary = Some v" "validator_inv boundary [] v" "mv_state v = FindingFirstBoundary 0"
    using validator_new_ok by blast
  show ?thesis
    using guard_chunks_ok [OF v(2), of cs] v(1,3) by (auto simp: guard_multipart_stream_def preamble_ok_iff)
qed

definition sample_chunks :: "u8 list list" where
  "sample_chunks = [[45, 45], [98, 13, 10, 97, 58, 49, 13, 10, 13], [10, 120, 13, 10, 45, 45, 98], [45, 45]]"

lemma sample_guard: "guard_multipart_stream [98] (map Some sample_chunks) = Some (sample_chunks, Inr ())"
  by (simp add: sample_chunks_def guard_multipart_stream_def validator_new_def matcher_new_def extend_match_def
      fall_back.simps nth_checked_def upt_rec push_byte_def push_suffix_def matcher_push_def matcher_reset_def
      validator_finish_def DASH_def SPACE_def TAB_def CR_def LF_def MAX_MULTIPART_PREAMBLE_BYTES_def
      MAX_MULTIPART_PART_HEADER_BYTES_def MAX_MULTIPART_BOUNDARY_PADDING_BYTES_def)

theorem multipart_guard_exact_witness:
  "guard_multipart_stream [98] (map Some sample_chunks) = Some (sample_chunks, Inr ()) \<and>
   well_framed [98] (concat sample_chunks)"
  using multipart_guard_exact [of "[98]" "map Some sample_chunks"] sample_guard by (simp add: comp_def)

end
