(* ===== verification/Request_Body.thy ===== *)
theory Request_Body
  imports Request_Policy Multipart_Framing
begin

text \<open>
  Request bodies of \<^verbatim>\<open>src/application/request_body.rs\<close>: the writer that keeps a captured body
  in memory or spills it to a temporary file, its replay, the inspection of image edit forms, and the body as the
  proxy prepares it: the request policy, the fast mode filter, the upstream model and the form rebuilt for the
  upstream.

  The file system is an argument: \<open>bi_ok\<close> says of each call whether it succeeds. The multipart parser is
  the parameter \<open>parse\<close>; it yields the parts of a stream of chunks, and \<open>None\<close> where it
  fails.
\<close>

section \<open>Errors and limits\<close>

datatype image_edit_body_error =
    RequestPolicyRejection request_policy_error | BodyTooLarge | FileTooLarge | Unreadable | UnsupportedContentType
  | UnsupportedContentEncoding | MalformedMultipart | TooManyFields | FieldNameTooLong | FileNameTooLong
  | UnexpectedFileField | TooManyImages | TooManyMasks | TextFieldTooLarge | MissingImage | MissingModel
  | DuplicateModel | InvalidModel | EmptyModel | ModelTooLong | StreamingUnsupported | InvalidJson
  | JsonTransformUnsupported | CodexTooManyImages | CodexMissingField | CodexDuplicateField | CodexInvalidField
  | CodexImageContentType | StorageUnavailable

definition BODY_READ_CHUNK_BYTES :: nat where "BODY_READ_CHUNK_BYTES = 64 * 1024"
definition MAX_MULTIPART_FIELDS :: nat where "MAX_MULTIPART_FIELDS = 64"
definition MAX_MULTIPART_BOUNDARY_BYTES :: nat where "MAX_MULTIPART_BOUNDARY_BYTES = 70"
definition MAX_MULTIPART_TEXT_FIELD_BYTES :: nat where "MAX_MULTIPART_TEXT_FIELD_BYTES = 64 * 1024"
definition MAX_MULTIPART_TEXT_BYTES :: nat where "MAX_MULTIPART_TEXT_BYTES = 1024 * 1024"
definition MAX_MULTIPART_FIELD_NAME_BYTES :: nat where "MAX_MULTIPART_FIELD_NAME_BYTES = 128"
definition MAX_MULTIPART_FILE_NAME_BYTES :: nat where "MAX_MULTIPART_FILE_NAME_BYTES = 255"
definition MAX_IMAGE_EDIT_IMAGES :: nat where "MAX_IMAGE_EDIT_IMAGES = 16"
definition MAX_IMAGE_EDIT_MASKS :: nat where "MAX_IMAGE_EDIT_MASKS = 1"
definition REBUILT_BODY_OVERHEAD_BYTES :: nat where "REBUILT_BODY_OVERHEAD_BYTES = 64 * 1024"

definition usize_max :: nat where "usize_max = 2 ^ 64 - 1"

section \<open>The spool of bodies\<close>

record spool_metrics =
  sm_active_files :: u64
  sm_active_bytes :: u64
  sm_spooled_total :: u64
  sm_spooled_bytes_total :: u64
  sm_storage_failures_total :: u64

text \<open>The file system with the counters: the number of calls made so far selects the outcome of the next.\<close>

record body_io =
  bi_ok :: "nat \<Rightarrow> bool"
  bi_calls :: nat
  bi_metrics :: spool_metrics

definition io_call :: "body_io \<Rightarrow> bool \<times> body_io" where
  "io_call w = (bi_ok w (bi_calls w), w\<lparr>bi_calls := bi_calls w + 1\<rparr>)"

definition storage_failed :: "body_io \<Rightarrow> body_io" where
  "storage_failed w =
     w\<lparr>bi_metrics := (bi_metrics w)\<lparr>sm_storage_failures_total := sm_storage_failures_total (bi_metrics w) + 1\<rparr>\<rparr>"

definition accounting_new :: "body_io \<Rightarrow> body_io" where
  "accounting_new w = w\<lparr>bi_metrics := (bi_metrics w)\<lparr>sm_active_files := sm_active_files (bi_metrics w) + 1\<rparr>\<rparr>"

definition add_active_bytes :: "nat \<Rightarrow> body_io \<Rightarrow> body_io" where
  "add_active_bytes n w =
     w\<lparr>bi_metrics := (bi_metrics w)\<lparr>sm_active_bytes := sm_active_bytes (bi_metrics w) + of_nat n\<rparr>\<rparr>"

text \<open>The end of an accounting of the given length.\<close>

definition drop_accounting :: "u64 \<Rightarrow> body_io \<Rightarrow> body_io" where
  "drop_accounting n w =
     w\<lparr>bi_metrics := (bi_metrics w)\<lparr>sm_active_files := sm_active_files (bi_metrics w) - 1,
                                     sm_active_bytes := sm_active_bytes (bi_metrics w) - n\<rparr>\<rparr>"

text \<open>A temporary file: what was written to it, and the length of its accounting.\<close>

datatype writer_storage = MemoryStorage "u8 list" | TempFileStorage "u8 list" u64

record body_writer =
  bw_storage :: writer_storage
  bw_length :: nat
  bw_memory_bytes :: nat
  bw_max_bytes :: nat

definition writer_new :: "nat \<Rightarrow> nat \<Rightarrow> body_writer" where
  "writer_new memory_bytes max_bytes =
     \<lparr>bw_storage = MemoryStorage [], bw_length = 0, bw_memory_bytes = memory_bytes, bw_max_bytes = max_bytes\<rparr>"

text \<open>\<^verbatim>\<open>slice::chunks\<close>.\<close>

function chunks_of :: "nat \<Rightarrow> 'a list \<Rightarrow> 'a list list" where
  "chunks_of n xs = (if xs = [] \<or> n = 0 then [] else take n xs # chunks_of n (drop n xs))"
  by pat_completeness auto
termination
  by (relation "measure (\<lambda>(n, xs). length xs)") auto

declare chunks_of.simps [simp del]

fun write_chunks ::
  "u8 list list \<Rightarrow> u8 list \<Rightarrow> u64 \<Rightarrow> body_io \<Rightarrow> bool \<times> u8 list \<times> u64 \<times> body_io" where
  "write_chunks [] content accounted w = (True, content, accounted, w)"
| "write_chunks (c # cs) content accounted w =
     (let (ok, w1) = io_call w
      in if ok
         then write_chunks cs (content @ c) (accounted + of_nat (length c)) (add_active_bytes (length c) w1)
         else (False, content, accounted, storage_failed w1))"

text \<open>The directory is created, then a file in it; either may fail.\<close>

definition create_file :: "body_io \<Rightarrow> bool \<times> body_io" where
  "create_file w =
     (let (ok, w1) = io_call w
      in if \<not> ok then (False, storage_failed w1)
         else
           (let (ok', w2) = io_call w1
            in if ok' then (True, accounting_new w2) else (False, storage_failed w2)))"

definition spill :: "body_writer \<Rightarrow> body_io \<Rightarrow> (image_edit_body_error + unit) \<times> body_writer \<times> body_io" where
  "spill wr w =
     (case bw_storage wr of
        TempFileStorage _ _ \<Rightarrow> (Inr (), wr, w)
      | MemoryStorage memory \<Rightarrow>
          (let emptied = wr\<lparr>bw_storage := MemoryStorage []\<rparr>; (ok, w1) = create_file w
           in if \<not> ok then (Inl StorageUnavailable, emptied, w1)
              else
                (let (written, content, accounted, w2) = write_chunks (chunks_of BODY_READ_CHUNK_BYTES memory) [] 0 w1
                 in if written then (Inr (), wr\<lparr>bw_storage := TempFileStorage content accounted\<rparr>, w2)
                    else (Inl StorageUnavailable, emptied, drop_accounting accounted w2))))"

definition writer_write ::
  "u8 list \<Rightarrow> body_writer \<Rightarrow> body_io \<Rightarrow> (image_edit_body_error + unit) \<times> body_writer \<times> body_io" where
  "writer_write bytes wr w =
     (let next = bw_length wr + length bytes
      in if usize_max < next then (Inl BodyTooLarge, wr, w)
         else if bw_max_bytes wr < next then (Inl BodyTooLarge, wr, w)
         else
           (let (r, wr1, w1) =
              (case bw_storage wr of
                 MemoryStorage _ \<Rightarrow> if bw_memory_bytes wr < next then spill wr w else (Inr (), wr, w)
               | TempFileStorage _ _ \<Rightarrow> (Inr (), wr, w))
            in case r of
                 Inl err \<Rightarrow> (Inl err, wr1, w1)
               | Inr _ \<Rightarrow>
                   (case bw_storage wr1 of
                      MemoryStorage body \<Rightarrow>
                        (Inr (), wr1\<lparr>bw_storage := MemoryStorage (body @ bytes), bw_length := next\<rparr>, w1)
                    | TempFileStorage content accounted \<Rightarrow>
                        (let (written, content', accounted', w2) =
                           write_chunks (chunks_of BODY_READ_CHUNK_BYTES bytes) content accounted w1
                         in if written
                            then (Inr (), wr1\<lparr>bw_storage := TempFileStorage content' accounted', bw_length := next\<rparr>, w2)
                            else (Inl StorageUnavailable, wr1\<lparr>bw_storage := TempFileStorage content' accounted'\<rparr>, w2)))))"

definition drop_writer :: "body_writer \<Rightarrow> body_io \<Rightarrow> body_io" where
  "drop_writer wr w =
     (case bw_storage wr of MemoryStorage _ \<Rightarrow> w | TempFileStorage _ accounted \<Rightarrow> drop_accounting accounted w)"

datatype replayable_request_body = MemoryBody "u8 list" | TempFileBody "u8 list" u64 nat

fun replayable_len :: "replayable_request_body \<Rightarrow> nat" where
  "replayable_len (MemoryBody body) = length body"
| "replayable_len (TempFileBody _ _ len) = len"

text \<open>The writer is consumed: where it fails its accounting ends.\<close>

definition writer_finish :: "body_writer \<Rightarrow> body_io \<Rightarrow> (image_edit_body_error + replayable_request_body) \<times> body_io" where
  "writer_finish wr w =
     (case bw_storage wr of
        MemoryStorage body \<Rightarrow> (Inr (MemoryBody body), w)
      | TempFileStorage content accounted \<Rightarrow>
          (let (flushed, w1) = io_call w
           in if \<not> flushed then (Inl StorageUnavailable, drop_writer wr (storage_failed w1))
              else
                (let (sought, w2) = io_call w1
                 in if \<not> sought then (Inl StorageUnavailable, drop_writer wr (storage_failed w2))
                    else
                      (Inr (TempFileBody content accounted (bw_length wr)),
                       w2\<lparr>bi_metrics := (bi_metrics w2)
                            \<lparr>sm_spooled_total := sm_spooled_total (bi_metrics w2) + 1,
                             sm_spooled_bytes_total := sm_spooled_bytes_total (bi_metrics w2) + of_nat (bw_length wr)\<rparr>\<rparr>))))"

text \<open>A sequence of writes; \<open>None\<close> is a piece that could not be read, for the given reason.\<close>

fun write_pieces ::
  "image_edit_body_error \<Rightarrow> u8 list option list \<Rightarrow> body_writer \<Rightarrow> body_io \<Rightarrow>
   (image_edit_body_error + body_writer) \<times> body_io" where
  "write_pieces reason [] wr w = (Inr wr, w)"
| "write_pieces reason (None # ps) wr w = (Inl reason, drop_writer wr w)"
| "write_pieces reason (Some p # ps) wr w =
     (let (r, wr1, w1) = writer_write p wr w
      in case r of Inl err \<Rightarrow> (Inl err, drop_writer wr1 w1) | Inr _ \<Rightarrow> write_pieces reason ps wr1 w1)"

definition write_body ::
  "image_edit_body_error \<Rightarrow> nat \<Rightarrow> nat \<Rightarrow> u8 list option list \<Rightarrow> body_io \<Rightarrow>
   (image_edit_body_error + replayable_request_body) \<times> body_io" where
  "write_body reason memory_bytes max_bytes pieces w =
     (let (r, w1) = write_pieces reason pieces (writer_new memory_bytes max_bytes) w
      in case r of Inl err \<Rightarrow> (Inl err, w1) | Inr wr \<Rightarrow> writer_finish wr w1)"

section \<open>Replay\<close>

text \<open>Reading a file from its start: \<open>reads\<close> gives the size of each read, \<open>None\<close> where it fails.
  The code also counts a failing read as a storage failure when the consumer reaches it; how far the parser reads is
  its own choice, so the counter is left alone here and no theorem speaks of it.\<close>

function file_chunks :: "(nat \<Rightarrow> nat option) \<Rightarrow> nat \<Rightarrow> u8 list \<Rightarrow> u8 list option list" where
  "file_chunks reads k content =
     (if content = [] then []
      else
        (case reads k of
           None \<Rightarrow> [None]
         | Some n \<Rightarrow>
             (let n' = max 1 (min n BODY_READ_CHUNK_BYTES)
              in Some (take n' content) # file_chunks reads (k + 1) (drop n' content))))"
  by pat_completeness auto
termination
  by (relation "measure (\<lambda>(_, _, content). length content)") (auto simp: BODY_READ_CHUNK_BYTES_def)

declare file_chunks.simps [simp del]

definition replay_stream ::
  "(nat \<Rightarrow> nat option) \<Rightarrow> replayable_request_body \<Rightarrow> body_io \<Rightarrow>
   (image_edit_body_error + u8 list option list) \<times> body_io" where
  "replay_stream reads body w =
     (case body of
        MemoryBody bytes \<Rightarrow> (Inr (map Some (chunks_of BODY_READ_CHUNK_BYTES bytes)), w)
      | TempFileBody content _ _ \<Rightarrow>
          (let (sought, w1) = io_call w
           in if sought then (Inr (file_chunks reads 0 content), w1) else (Inl StorageUnavailable, storage_failed w1)))"

section \<open>Forms\<close>

text \<open>A part as the parser yields it; \<open>None\<close> among the chunks of its data is a failure.\<close>

record multipart_part =
  mp_name :: "string option"
  mp_file_name :: "string option"
  mp_headers :: header_map
  mp_data :: "u8 list option list"

definition as_bytes :: "string \<Rightarrow> u8 list" where
  "as_bytes s = map (\<lambda>c. of_nat (of_char c)) s"

definition from_bytes :: "u8 list \<Rightarrow> string" where
  "from_bytes bs = map (\<lambda>b. char_of (unat b)) bs"

definition is_image_field :: "string \<Rightarrow> bool" where
  "is_image_field n \<longleftrightarrow> n \<in> {''image'', ''image[]''}"

record multipart_inspection =
  mi_field_count :: nat
  mi_text_fields :: "(string \<times> u8 list) list"
  mi_text_bytes :: nat
  mi_model :: "string option"
  mi_image_count :: nat
  mi_image_bytes :: nat
  mi_mask_count :: nat

fun file_length :: "nat \<Rightarrow> u8 list option list \<Rightarrow> nat \<Rightarrow> image_edit_body_error + nat" where
  "file_length max_file_bytes [] len = Inr len"
| "file_length max_file_bytes (None # cs) len = Inl MalformedMultipart"
| "file_length max_file_bytes (Some c # cs) len =
     (if max_file_bytes < len + length c then Inl FileTooLarge
      else file_length max_file_bytes cs (len + length c))"

fun text_value :: "u8 list option list \<Rightarrow> u8 list \<Rightarrow> image_edit_body_error + u8 list" where
  "text_value [] value = Inr value"
| "text_value (None # cs) value = Inl MalformedMultipart"
| "text_value (Some c # cs) value =
     (if MAX_MULTIPART_TEXT_FIELD_BYTES < length value + length c then Inl TextFieldTooLarge
      else text_value cs (value @ c))"

text \<open>The decision on a field of an image edit form. \<open>None\<close> is the panic for a missing interface.\<close>

definition policy_then ::
  "(request_policy_error + field_disposition) option \<Rightarrow> (field_disposition \<Rightarrow> (image_edit_body_error + 'a) option) \<Rightarrow>
   (image_edit_body_error + 'a) option" where
  "policy_then r f =
     Option.bind r (\<lambda>d. case d of Inl err \<Rightarrow> Some (Inl (RequestPolicyRejection err)) | Inr d \<Rightarrow> f d)"

definition inspect_file ::
  "nat \<Rightarrow> string \<Rightarrow> multipart_part \<Rightarrow> multipart_inspection \<Rightarrow> image_edit_body_error + multipart_inspection" where
  "inspect_file max_file_bytes name part st =
     (if \<not> is_image_field name \<and> name \<noteq> ''mask'' then Inl UnexpectedFileField
      else
        (case file_length max_file_bytes (mp_data part) 0 of
           Inl err \<Rightarrow> Inl err
         | Inr len \<Rightarrow>
             if is_image_field name then
               (if MAX_IMAGE_EDIT_IMAGES < mi_image_count st + 1 then Inl TooManyImages
                else Inr (st\<lparr>mi_image_count := mi_image_count st + 1, mi_image_bytes := mi_image_bytes st + len\<rparr>))
             else if MAX_IMAGE_EDIT_MASKS < mi_mask_count st + 1 then Inl TooManyMasks
             else Inr (st\<lparr>mi_mask_count := mi_mask_count st + 1\<rparr>)))"

definition inspect_model :: "u8 list \<Rightarrow> multipart_inspection \<Rightarrow> image_edit_body_error + multipart_inspection" where
  "inspect_model value st =
     (if mi_model st \<noteq> None then Inl DuplicateModel
      else
        (case from_utf8 (map unat value) of
           None \<Rightarrow> Inl InvalidModel
         | Some parsed \<Rightarrow>
             if text_trim parsed = [] then Inl EmptyModel
             else if 300 < length parsed then Inl ModelTooLong
             else Inr (st\<lparr>mi_model := Some (from_bytes value)\<rparr>)))"

definition inspect_text ::
  "string \<Rightarrow> multipart_part \<Rightarrow> multipart_inspection \<Rightarrow> image_edit_body_error + multipart_inspection" where
  "inspect_text name part st =
     (case text_value (mp_data part) [] of
        Inl err \<Rightarrow> Inl err
      | Inr value \<Rightarrow>
          (let st1 = st\<lparr>mi_text_bytes := mi_text_bytes st + length value\<rparr>
           in if MAX_MULTIPART_TEXT_BYTES < mi_text_bytes st1 then Inl TextFieldTooLarge
              else
                (case (if name = ''model'' then inspect_model value st1 else Inr st1) of
                   Inl err \<Rightarrow> Inl err
                 | Inr st2 \<Rightarrow> Inr (st2\<lparr>mi_text_fields := mi_text_fields st2 @ [(name, value)]\<rparr>))))"

definition inspect_part ::
  "'v request_policy_contract \<Rightarrow> nat \<Rightarrow> multipart_part \<Rightarrow> multipart_inspection \<Rightarrow>
   (image_edit_body_error + multipart_inspection) option" where
  "inspect_part c max_file_bytes part st =
     (let st1 = st\<lparr>mi_field_count := mi_field_count st + 1\<rparr>
      in if MAX_MULTIPART_FIELDS < mi_field_count st1 then Some (Inl TooManyFields)
         else
           (case mp_name part of
              None \<Rightarrow> Some (Inl MalformedMultipart)
            | Some name \<Rightarrow>
                if MAX_MULTIPART_FIELD_NAME_BYTES < length name then Some (Inl FieldNameTooLong)
                else if (case mp_file_name part of None \<Rightarrow> False | Some f \<Rightarrow> MAX_MULTIPART_FILE_NAME_BYTES < length f)
                then Some (Inl FileNameTooLong)
                else if is_image_field name \<or> name = ''mask'' \<or> mp_file_name part \<noteq> None then
                  policy_then
                    (body_field_disposition c ClientLayer ImagesEditInterface
                       (if name = ''image[]'' then ''image'' else name) None)
                    (\<lambda>_. Some (inspect_file max_file_bytes name part st1))
                else Some (inspect_text name part st1)))"

fun inspect_parts ::
  "'v request_policy_contract \<Rightarrow> nat \<Rightarrow> multipart_part option list \<Rightarrow> multipart_inspection \<Rightarrow>
   (image_edit_body_error + multipart_inspection) option" where
  "inspect_parts c max_file_bytes [] st = Some (Inr st)"
| "inspect_parts c max_file_bytes (None # ps) st = Some (Inl MalformedMultipart)"
| "inspect_parts c max_file_bytes (Some p # ps) st =
     Option.bind (inspect_part c max_file_bytes p st) (\<lambda>r.
       case r of Inl err \<Rightarrow> Some (Inl err) | Inr st' \<Rightarrow> inspect_parts c max_file_bytes ps st')"

definition inspection_start :: multipart_inspection where
  "inspection_start =
     \<lparr>mi_field_count = 0, mi_text_fields = [], mi_text_bytes = 0, mi_model = None, mi_image_count = 0,
      mi_image_bytes = 0, mi_mask_count = 0\<rparr>"

text \<open>The outcome with the model.\<close>

definition inspect_multipart ::
  "'v request_policy_contract \<Rightarrow> nat \<Rightarrow> multipart_part option list \<Rightarrow>
   (image_edit_body_error + string \<times> multipart_inspection) option" where
  "inspect_multipart c max_file_bytes parts =
     map_option (\<lambda>r.
       case r of
         Inl err \<Rightarrow> Inl err
       | Inr st \<Rightarrow>
           if mi_image_count st = 0 then Inl MissingImage
           else (case mi_model st of None \<Rightarrow> Inl MissingModel | Some model \<Rightarrow> Inr (model, st)))
       (inspect_parts c max_file_bytes parts inspection_start)"

section \<open>Capture\<close>

record image_edit_body_policy =
  ep_max_body_bytes :: nat
  ep_max_file_bytes :: nat
  ep_memory_bytes :: nat

record image_edit_request_body =
  ie_body :: replayable_request_body
  ie_boundary :: string
  ie_content_type :: string
  ie_text_fields :: "(string \<times> u8 list) list"
  ie_ignored_part_fields :: "string list"
  ie_wire_model :: string
  ie_model :: string
  ie_image_count :: nat
  ie_image_bytes :: nat
  ie_mask_count :: nat
  ie_policy :: image_edit_body_policy

definition reject_encoded_body :: "http_ops \<Rightarrow> header_map \<Rightarrow> bool" where
  "reject_encoded_body H hs \<longleftrightarrow>
     \<not> list_all (\<lambda>v.
          case ho_to_str H v of
            None \<Rightarrow> False
          | Some s \<Rightarrow> list_all (\<lambda>p. eq_ignore_ascii_case (str_trim p) ''identity'') (split_comma s))
        (hd_get_all hs ''content-encoding'')"

text \<open>\<^verbatim>\<open>str::parse::<u64>\<close>.\<close>

definition parse_u64 :: "string \<Rightarrow> nat option" where
  "parse_u64 s =
     (let ds = (case s of c # cs \<Rightarrow> if c = CHR ''+'' then cs else s | [] \<Rightarrow> [])
      in if ds \<noteq> [] \<and> list_all is_ascii_digit ds \<and> foldl (\<lambda>n c. 10 * n + ((of_char c :: nat) - 48)) 0 ds < 2 ^ 64
         then Some (foldl (\<lambda>n c. 10 * n + ((of_char c :: nat) - 48)) 0 ds) else None)"

text \<open>The content type with its boundary. \<open>boundary_of\<close> is \<^verbatim>\<open>multer::parse_boundary\<close>.\<close>

definition form_boundary :: "http_ops \<Rightarrow> (string \<Rightarrow> string option) \<Rightarrow> header_map \<Rightarrow> string option" where
  "form_boundary H boundary_of hs =
     (case hd_get_all hs ''content-type'' of
        [v] \<Rightarrow>
          Option.bind (Option.bind (ho_to_str H v) boundary_of) (\<lambda>b.
            if b = [] \<or> MAX_MULTIPART_BOUNDARY_BYTES < length b then None else Some b)
      | _ \<Rightarrow> None)"

definition declared_too_long :: "http_ops \<Rightarrow> nat \<Rightarrow> header_map \<Rightarrow> bool" where
  "declared_too_long H max_bytes hs =
     (case hd_get_all hs ''content-length'' of
        [] \<Rightarrow> False
      | v # _ \<Rightarrow> (case Option.bind (ho_to_str H v) parse_u64 of None \<Rightarrow> False | Some n \<Rightarrow> max_bytes < n))"

text \<open>\<open>parse boundary (chunks, end)\<close> are the parts the parser yields for a stream of chunks with its end.\<close>

type_synonym multipart_parser = "u8 list \<Rightarrow> u8 list list \<times> (stream_error + unit) \<Rightarrow> multipart_part option list"

definition drop_body :: "replayable_request_body \<Rightarrow> body_io \<Rightarrow> body_io" where
  "drop_body body w = (case body of MemoryBody _ \<Rightarrow> w | TempFileBody _ accounted _ \<Rightarrow> drop_accounting accounted w)"

definition capture ::
  "'v request_policy_contract \<Rightarrow> http_ops \<Rightarrow> (string \<Rightarrow> string option) \<Rightarrow> multipart_parser \<Rightarrow> (nat \<Rightarrow> nat option) \<Rightarrow>
   image_edit_body_policy \<Rightarrow> header_map \<Rightarrow> u8 list option list \<Rightarrow> body_io \<Rightarrow>
   ((image_edit_body_error + image_edit_request_body) \<times> body_io) option" where
  "capture c H boundary_of parse reads ep hs cs w =
     (if reject_encoded_body H hs then Some (Inl UnsupportedContentEncoding, w)
      else
        (case form_boundary H boundary_of hs of
           None \<Rightarrow> Some (Inl UnsupportedContentType, w)
         | Some boundary \<Rightarrow>
             if declared_too_long H (ep_max_body_bytes ep) hs then Some (Inl BodyTooLarge, w)
             else
               (case write_body Unreadable (ep_memory_bytes ep) (ep_max_body_bytes ep) cs w of
                  (Inl err, w1) \<Rightarrow> Some (Inl err, w1)
                | (Inr body, w1) \<Rightarrow>
                    (case replay_stream reads body w1 of
                       (Inl err, w2) \<Rightarrow> Some (Inl err, drop_body body w2)
                     | (Inr chunks, w2) \<Rightarrow>
                         Option.bind (guard_multipart_stream (as_bytes boundary) chunks) (\<lambda>guarded.
                           map_option (\<lambda>r.
                             case r of
                               Inl err \<Rightarrow> (Inl err, drop_body body w2)
                             | Inr (model, st) \<Rightarrow>
                                 (Inr \<lparr>ie_body = body, ie_boundary = boundary,
                                       ie_content_type = hd (hd_get_all hs ''content-type''),
                                       ie_text_fields = mi_text_fields st, ie_ignored_part_fields = [],
                                       ie_wire_model = model, ie_model = model, ie_image_count = mi_image_count st,
                                       ie_image_bytes = mi_image_bytes st, ie_mask_count = mi_mask_count st,
                                       ie_policy = ep\<rparr>, w2))
                             (inspect_multipart c (ep_max_file_bytes ep) (parse (as_bytes boundary) guarded)))))))"

section \<open>The body of a request\<close>

text \<open>The state of the loops of \<open>apply_field_policy\<close>: the form, the ignored names and whether anything
  changed.\<close>

definition ignore_file ::
  "'v request_policy_contract \<Rightarrow> request_policy_layer \<Rightarrow> request_interface \<Rightarrow> string \<Rightarrow> bool \<Rightarrow>
   image_edit_request_body \<times> string set \<times> bool \<Rightarrow>
   (request_policy_error + image_edit_request_body \<times> string set \<times> bool) option" where
  "ignore_file c layer i field present st =
     (if \<not> present then Some (Inr st)
      else
        map_option (\<lambda>r.
          case r of
            Inl err \<Rightarrow> Inl err
          | Inr AllowField \<Rightarrow> Inr st
          | Inr IgnoreField \<Rightarrow>
              (case st of (b, ignored, _) \<Rightarrow>
                 if field = ''image''
                 then Inr (b\<lparr>ie_image_count := 0, ie_image_bytes := 0\<rparr>, insert ''image[]'' (insert field ignored), True)
                 else Inr (b\<lparr>ie_mask_count := 0\<rparr>, insert field ignored, True)))
          (body_field_disposition c layer i field None))"

fun ignore_texts ::
  "'v request_policy_contract \<Rightarrow> (string \<Rightarrow> 'v) \<Rightarrow> request_policy_layer \<Rightarrow> request_interface \<Rightarrow>
   (string \<times> u8 list) list \<Rightarrow> (string \<times> u8 list) list \<times> string set \<times> bool \<Rightarrow>
   (request_policy_error + (string \<times> u8 list) list \<times> string set \<times> bool) option" where
  "ignore_texts c str layer i [] st = Some (Inr st)"
| "ignore_texts c str layer i ((name, value) # fs) (retained, ignored, changed) =
     Option.bind
       (body_field_disposition c layer i name
          (if from_utf8 (map unat value) = None then None else Some (str (from_bytes value))))
       (\<lambda>r.
          case r of
            Inl err \<Rightarrow> Some (Inl err)
          | Inr AllowField \<Rightarrow> ignore_texts c str layer i fs (retained @ [(name, value)], ignored, changed)
          | Inr IgnoreField \<Rightarrow> ignore_texts c str layer i fs (retained, insert name ignored, True))"

definition apply_field_policy ::
  "'v request_policy_contract \<Rightarrow> (string \<Rightarrow> 'v) \<Rightarrow> request_policy_layer \<Rightarrow> request_interface \<Rightarrow> image_edit_request_body \<Rightarrow>
   (request_policy_error + image_edit_request_body \<times> bool) option" where
  "apply_field_policy c str layer i body =
     Option.bind (ignore_file c layer i ''image'' (0 < ie_image_count body) (body, set (ie_ignored_part_fields body), False)) (\<lambda>r.
       case r of
         Inl err \<Rightarrow> Some (Inl err)
       | Inr st \<Rightarrow>
           Option.bind (ignore_file c layer i ''mask'' (0 < ie_mask_count body) st) (\<lambda>r.
             case r of
               Inl err \<Rightarrow> Some (Inl err)
             | Inr (b, ignored, changed) \<Rightarrow>
                 map_option (\<lambda>r.
                   case r of
                     Inl err \<Rightarrow> Inl err
                   | Inr (retained, ignored', changed') \<Rightarrow>
                       Inr (if changed'
                            then b\<lparr>ie_text_fields := retained, ie_ignored_part_fields := sorted_list_of_set ignored'\<rparr>
                            else b, changed'))
                   (ignore_texts c str layer i (ie_text_fields body) ([], ignored, changed))))"

definition image_rewrite_model :: "string \<Rightarrow> image_edit_request_body \<Rightarrow> image_edit_body_error + image_edit_request_body" where
  "image_rewrite_model upstream_model body =
     (if CHR 0x0D \<in> set upstream_model \<or> CHR 0x0A \<in> set upstream_model then Inl InvalidModel
      else
        Inr (body\<lparr>ie_model := upstream_model,
                  ie_text_fields :=
                    map (\<lambda>(n, v). (n, if n = ''model'' then as_bytes upstream_model else v)) (ie_text_fields body)\<rparr>))"

definition is_stale_rebuilt_part_header :: "string \<Rightarrow> bool" where
  "is_stale_rebuilt_part_header n \<longleftrightarrow>
     n \<in> {''content-length'', ''content-md5'', ''digest'', ''content-digest'', ''repr-digest'', ''etag'', ''last-modified''}"

text \<open>The writes for one part: nothing but the draining of a part that is left out.\<close>

definition drained :: "multipart_part \<Rightarrow> u8 list option list" where
  "drained part = (if None \<in> set (mp_data part) then [None] else [])"

definition header_line :: "string \<times> string \<Rightarrow> u8 list list" where
  "header_line h = [as_bytes (fst h), as_bytes '': '', as_bytes (snd h), [CR, LF]]"

definition part_pieces :: "string list \<Rightarrow> string \<Rightarrow> string \<Rightarrow> multipart_part \<Rightarrow> u8 list option list" where
  "part_pieces ignored boundary model part =
     (if (case mp_name part of None \<Rightarrow> False | Some n \<Rightarrow> contains_sorted ignored n) then drained part
      else
        (let replace = (mp_name part = Some ''model'')
         in map Some ([[DASH, DASH], as_bytes boundary, [CR, LF]] @
              concat (map header_line
                (filter (\<lambda>h. \<not> (replace \<and> is_stale_rebuilt_part_header (fst h))) (mp_headers part))) @ [[CR, LF]]) @
            (if replace then drained part @ [Some (as_bytes model)] else mp_data part) @ [Some [CR, LF]]))"

definition rebuild_pieces :: "string list \<Rightarrow> string \<Rightarrow> string \<Rightarrow> multipart_part option list \<Rightarrow> u8 list option list" where
  "rebuild_pieces ignored boundary model parts =
     concat (map (\<lambda>p. case p of None \<Rightarrow> [None] | Some p \<Rightarrow> part_pieces ignored boundary model p) parts) @
     map Some [[DASH, DASH], as_bytes boundary, [DASH, DASH, CR, LF]]"

definition is_replaced :: "string list \<Rightarrow> multipart_part option list \<Rightarrow> bool" where
  "is_replaced ignored parts \<longleftrightarrow>
     list_ex (\<lambda>p. case p of None \<Rightarrow> False
                   | Some p \<Rightarrow> mp_name p = Some ''model'' \<and> \<not> contains_sorted ignored ''model'') parts"

definition rebuild_parts ::
  "multipart_parser \<Rightarrow> (nat \<Rightarrow> nat option) \<Rightarrow> image_edit_request_body \<Rightarrow> body_io \<Rightarrow>
   (image_edit_body_error + replayable_request_body) \<times> body_io" where
  "rebuild_parts parse reads body w =
     (case replay_stream reads (ie_body body) w of
        (Inl err, w1) \<Rightarrow> (Inl err, w1)
      | (Inr chunks, w1) \<Rightarrow>
          (let parts = parse (as_bytes (ie_boundary body))
                 (map the (takeWhile (\<lambda>c. c \<noteq> None) chunks), if None \<in> set chunks then Inl ReadFailed else Inr ());
               max_bytes = min usize_max (min usize_max (replayable_len (ie_body body) + length (ie_model body)) +
                             REBUILT_BODY_OVERHEAD_BYTES)
           in (case write_pieces MalformedMultipart
                      (rebuild_pieces (ie_ignored_part_fields body) (ie_boundary body) (ie_model body) parts)
                      (writer_new (ep_memory_bytes (ie_policy body)) max_bytes) w1 of
                 (Inl err, w2) \<Rightarrow> (Inl err, w2)
               | (Inr wr, w2) \<Rightarrow>
                   if is_replaced (ie_ignored_part_fields body) parts then writer_finish wr w2
                   else (Inl MalformedMultipart, drop_writer wr w2))))"

definition image_into_openai_replayable ::
  "multipart_parser \<Rightarrow> (nat \<Rightarrow> nat option) \<Rightarrow> image_edit_request_body \<Rightarrow> body_io \<Rightarrow>
   (image_edit_body_error + replayable_request_body) \<times> body_io" where
  "image_into_openai_replayable parse reads body w =
     (if ie_model body = ie_wire_model body \<and> ie_ignored_part_fields body = [] then (Inr (ie_body body), w)
      else rebuild_parts parse reads body w)"

datatype prepared_request_body = JsonRequest "u8 list" | ImageEditRequest image_edit_request_body

definition apply_policy ::
  "'v request_policy_contract \<Rightarrow> ('r, 'v) body_json \<Rightarrow> request_policy_layer \<Rightarrow> request_interface \<Rightarrow> prepared_request_body \<Rightarrow>
   (request_policy_error + prepared_request_body \<times> bool) option" where
  "apply_policy c J layer i body =
     (case body of
        JsonRequest b \<Rightarrow>
          map_option (map_sum id (\<lambda>a. (JsonRequest (aj_body a), aj_changed a))) (apply_json_body_policy c J layer i b)
      | ImageEditRequest e \<Rightarrow>
          map_option (map_sum id (\<lambda>(e', changed). (ImageEditRequest e', changed)))
            (apply_field_policy c (bj_string J) layer i e))"

definition filter_fast_mode ::
  "('r, 'v) body_json \<Rightarrow> bool \<Rightarrow> request_interface \<Rightarrow> prepared_request_body \<Rightarrow>
   request_policy_error + prepared_request_body \<times> bool" where
  "filter_fast_mode J enabled i body =
     (if \<not> enabled then Inr (body, False)
      else
        (case body of
           JsonRequest b \<Rightarrow> map_sum id (\<lambda>a. (JsonRequest (aj_body a), aj_changed a)) (apply_client_fast_mode_filter J i b True)
         | ImageEditRequest e \<Rightarrow> Inr (ImageEditRequest e, False)))"

definition rewrite_model ::
  "('r, 'v) body_json \<Rightarrow> string \<Rightarrow> string \<Rightarrow> prepared_request_body \<Rightarrow> image_edit_body_error + prepared_request_body" where
  "rewrite_model J client_model upstream_model body =
     (if client_model = upstream_model then Inr body
      else
        (case body of
           JsonRequest b \<Rightarrow>
             (case bj_value J b of
                None \<Rightarrow> Inl InvalidJson
              | Some v \<Rightarrow>
                  if bj_object J v = None then Inl InvalidJson
                  else
                    (case bj_to_vec J (bj_insert J ''model'' (bj_string J upstream_model) v) of
                       None \<Rightarrow> Inl InvalidJson
                     | Some b' \<Rightarrow> Inr (JsonRequest b')))
         | ImageEditRequest e \<Rightarrow> map_sum id ImageEditRequest (image_rewrite_model upstream_model e)))"

definition into_openai_replayable ::
  "multipart_parser \<Rightarrow> (nat \<Rightarrow> nat option) \<Rightarrow> prepared_request_body \<Rightarrow> body_io \<Rightarrow>
   (image_edit_body_error + replayable_request_body) \<times> body_io" where
  "into_openai_replayable parse reads body w =
     (case body of
        JsonRequest b \<Rightarrow> (Inr (MemoryBody b), w)
      | ImageEditRequest e \<Rightarrow> image_into_openai_replayable parse reads e w)"

section \<open>The writer\<close>

text \<open>The files and bytes that are accounted for.\<close>

definition active :: "body_io \<Rightarrow> u64 \<times> u64" where
  "active w = (sm_active_files (bi_metrics w), sm_active_bytes (bi_metrics w))"

fun storage_content :: "writer_storage \<Rightarrow> u8 list" where
  "storage_content (MemoryStorage b) = b"
| "storage_content (TempFileStorage b _) = b"

fun storage_held :: "writer_storage \<Rightarrow> u64 \<times> u64" where
  "storage_held (MemoryStorage b) = (0, 0)"
| "storage_held (TempFileStorage b n) = (1, n)"

fun body_content :: "replayable_request_body \<Rightarrow> u8 list" where
  "body_content (MemoryBody b) = b"
| "body_content (TempFileBody b _ _) = b"

fun body_held :: "replayable_request_body \<Rightarrow> u64 \<times> u64" where
  "body_held (MemoryBody b) = (0, 0)"
| "body_held (TempFileBody b n _) = (1, n)"

definition plus2 :: "u64 \<times> u64 \<Rightarrow> u64 \<times> u64 \<Rightarrow> u64 \<times> u64" where
  "plus2 a b = (fst a + fst b, snd a + snd b)"

lemma plus2_zero [simp]: "plus2 a (0, 0) = a"
  by (simp add: plus2_def)

lemma io_simps [simp]:
  "active (storage_failed w) = active w" "bi_ok (storage_failed w) = bi_ok w"
  "active (accounting_new w) = plus2 (active w) (1, 0)" "bi_ok (accounting_new w) = bi_ok w"
  "active (add_active_bytes n w) = plus2 (active w) (0, of_nat n)" "bi_ok (add_active_bytes n w) = bi_ok w"
  "bi_ok (drop_accounting m w) = bi_ok w"
  by (simp_all add: active_def storage_failed_def accounting_new_def add_active_bytes_def drop_accounting_def plus2_def)

lemma io_call_iff: "io_call w = (ok, w') \<longleftrightarrow> ok = bi_ok w (bi_calls w) \<and> w' = w\<lparr>bi_calls := bi_calls w + 1\<rparr>"
  by (auto simp: io_call_def)

lemma io_calls_update [simp]: "active (w\<lparr>bi_calls := n\<rparr>) = active w" "bi_ok (w\<lparr>bi_calls := n\<rparr>) = bi_ok w"
  by (simp_all add: active_def)

lemma active_drop: "active w = plus2 a (1, n) \<Longrightarrow> active (drop_accounting n w) = a"
  by (cases a) (auto simp: active_def drop_accounting_def plus2_def)

lemma chunks_of_simps [simp]: "chunks_of n [] = []" "0 < n \<Longrightarrow> concat (chunks_of n xs) = xs"
proof -
  show "chunks_of n [] = []" by (simp add: chunks_of.simps)
  show "0 < n \<Longrightarrow> concat (chunks_of n xs) = xs"
  proof (induction n xs rule: chunks_of.induct)
    case (1 n xs)
    then show ?case by (subst chunks_of.simps) auto
  qed
qed

lemma chunk_bytes_pos [simp]: "0 < BODY_READ_CHUNK_BYTES"
  by (simp add: BODY_READ_CHUNK_BYTES_def)

lemma write_chunks_ok:
  "write_chunks cs content n w = (ok, content', n', w') \<Longrightarrow>
   bi_ok w' = bi_ok w \<and> (\<exists>d. n' = n + d \<and> active w' = plus2 (active w) (0, d) \<and>
     (ok \<longrightarrow> content' = content @ concat cs \<and> d = of_nat (length (concat cs)))) \<and>
   (\<not> ok \<longrightarrow> (\<exists>k. \<not> bi_ok w k))"
proof (induction cs content n w rule: write_chunks.induct)
  case (1 content n w)
  then show ?case by (auto intro: exI [of _ 0])
next
  case (2 c cs content n w)
  obtain b w1 where io: "io_call w = (b, w1)" by force
  have w1: "active w1 = active w" "bi_ok w1 = bi_ok w" using io by (auto simp: io_call_iff)
  show ?case
  proof (cases b)
    case False
    then have r: "\<not> ok" "n' = n" "w' = storage_failed w1" and bad: "\<not> bi_ok w (bi_calls w)"
      using 2(2) io by (auto simp: io_call_iff)
    have "\<exists>d. n' = n + d \<and> active w' = plus2 (active w) (0, d) \<and>
        (ok \<longrightarrow> content' = content @ concat (c # cs) \<and> d = of_nat (length (concat (c # cs))))"
      using r w1 by (intro exI [of _ 0]) simp
    then show ?thesis using r w1 bad by auto
  next
    case True
    then have "write_chunks cs (content @ c) (n + of_nat (length c)) (add_active_bytes (length c) w1) = (ok, content', n', w')"
      using 2(2) io by simp
    from 2(1) [OF io [symmetric] refl True this] obtain d where d: "bi_ok w' = bi_ok w"
      "n' = n + of_nat (length c) + d" "active w' = plus2 (plus2 (active w) (0, of_nat (length c))) (0, d)"
      "ok \<longrightarrow> content' = (content @ c) @ concat cs \<and> d = of_nat (length (concat cs))"
      "\<not> ok \<longrightarrow> (\<exists>k. \<not> bi_ok w k)"
      by (auto simp: w1)
    then show ?thesis by (intro conjI exI [of _ "of_nat (length c) + d"]) (auto simp: plus2_def)
  qed
qed

lemma create_file_ok:
  "create_file w = (ok, w') \<Longrightarrow>
   bi_ok w' = bi_ok w \<and> active w' = plus2 (active w) (if ok then (1, 0) else (0, 0)) \<and> (\<not> ok \<longrightarrow> (\<exists>k. \<not> bi_ok w k))"
  by (auto simp: create_file_def Let_def io_call_def split: if_splits prod.splits)

text \<open>A writer that has accepted \<open>s\<close>, opened when \<open>a\<close> was accounted for.\<close>

definition writer_holds :: "u64 \<times> u64 \<Rightarrow> u8 list \<Rightarrow> body_writer \<Rightarrow> body_io \<Rightarrow> bool" where
  "writer_holds a s wr w \<longleftrightarrow>
     bw_length wr = length s \<and> length s \<le> min usize_max (bw_max_bytes wr) \<and> storage_content (bw_storage wr) = s \<and>
     active w = plus2 a (storage_held (bw_storage wr)) \<and>
     ((\<exists>b. bw_storage wr = MemoryStorage b) \<longleftrightarrow> length s \<le> bw_memory_bytes wr)"

definition writer_balanced :: "u64 \<times> u64 \<Rightarrow> body_writer \<Rightarrow> body_io \<Rightarrow> bool" where
  "writer_balanced a wr w \<longleftrightarrow> active w = plus2 a (storage_held (bw_storage wr))"

lemma drop_writer_balanced: "writer_balanced a wr w \<Longrightarrow> active (drop_writer wr w) = a"
  by (cases "bw_storage wr") (auto simp: writer_balanced_def drop_writer_def active_drop)

lemma spill_ok:
  assumes "bw_storage wr = MemoryStorage m" and "active w = a" and "spill wr w = (r, wr', w')"
  shows "bi_ok w' = bi_ok w \<and> (case r of
      Inl err \<Rightarrow> err = StorageUnavailable \<and> (\<exists>k. \<not> bi_ok w k) \<and> writer_balanced a wr' w'
    | Inr _ \<Rightarrow> \<exists>n. wr' = wr\<lparr>bw_storage := TempFileStorage m n\<rparr> \<and> active w' = plus2 a (1, n))"
proof -
  obtain ok w1 where c: "create_file w = (ok, w1)" by force
  note cf = create_file_ok [OF c]
  show ?thesis
  proof (cases ok)
    case False
    then show ?thesis using assms c cf by (auto simp: spill_def Let_def writer_balanced_def)
  next
    case True
    obtain b content n w2 where wc: "write_chunks (chunks_of BODY_READ_CHUNK_BYTES m) [] 0 w1 = (b, content, n, w2)"
      by (metis prod_cases4)
    note ch = write_chunks_ok [OF wc]
    have act: "active w2 = plus2 a (1, n)" using ch cf True assms(2) by (auto simp: plus2_def)
    show ?thesis
    proof (cases b)
      case ok': True
      then show ?thesis using assms c True wc ch cf act by (auto simp: spill_def Let_def)
    next
      case bad: False
      then show ?thesis
        using assms c True wc ch cf active_drop [OF act] by (auto simp: spill_def Let_def writer_balanced_def)
    qed
  qed
qed

lemma writer_write_ok:
  assumes "writer_holds a s wr w" and "writer_write p wr w = (r, wr', w')"
  shows "bi_ok w' = bi_ok w \<and> (case r of
      Inl err \<Rightarrow> writer_balanced a wr' w' \<and>
        (err = BodyTooLarge \<and> min usize_max (bw_max_bytes wr) < length (s @ p) \<or>
         err = StorageUnavailable \<and> (\<exists>k. \<not> bi_ok w k))
    | Inr _ \<Rightarrow> writer_holds a (s @ p) wr' w' \<and> bw_max_bytes wr' = bw_max_bytes wr \<and>
        bw_memory_bytes wr' = bw_memory_bytes wr)"
proof (cases "min usize_max (bw_max_bytes wr) < length (s @ p)")
  case True
  then have "usize_max < bw_length wr + length p \<or> bw_max_bytes wr < bw_length wr + length p"
    using assms(1) by (auto simp: writer_holds_def)
  then have "(r, wr', w') = (Inl BodyTooLarge, wr, w)"
    using assms(2) unfolding writer_write_def Let_def by (auto split: if_splits)
  then show ?thesis using assms(1) True by (auto simp: writer_holds_def writer_balanced_def)
next
  case False
  then have fits: "\<not> usize_max < bw_length wr + length p" "\<not> bw_max_bytes wr < bw_length wr + length p"
    and len: "bw_length wr = length s" and act: "active w = plus2 a (storage_held (bw_storage wr))"
    and content: "storage_content (bw_storage wr) = s"
    and mem: "(\<exists>b. bw_storage wr = MemoryStorage b) \<longleftrightarrow> length s \<le> bw_memory_bytes wr"
    using assms(1) by (auto simp: writer_holds_def)
  have append: "bi_ok w' = bi_ok w0 \<and> (case r of
      Inl err \<Rightarrow> writer_balanced a wr' w' \<and> err = StorageUnavailable \<and> (\<exists>k. \<not> bi_ok w0 k)
    | Inr _ \<Rightarrow> writer_holds a (s @ p) wr' w' \<and> bw_max_bytes wr' = bw_max_bytes wr \<and>
        bw_memory_bytes wr' = bw_memory_bytes wr)"
    if temp: "wr0 = wr\<lparr>bw_storage := TempFileStorage s n\<rparr>" "active w0 = plus2 a (1, n)"
      "bw_memory_bytes wr < length (s @ p)"
      and res: "(let (written, content', accounted', w2) = write_chunks (chunks_of BODY_READ_CHUNK_BYTES p) s n w0
         in if written
            then (Inr (), wr0\<lparr>bw_storage := TempFileStorage content' accounted', bw_length := bw_length wr + length p\<rparr>, w2)
            else (Inl StorageUnavailable, wr0\<lparr>bw_storage := TempFileStorage content' accounted'\<rparr>, w2)) = (r, wr', w')"
    for wr0 w0 n
  proof -
    obtain b c' n' w2 where wc: "write_chunks (chunks_of BODY_READ_CHUNK_BYTES p) s n w0 = (b, c', n', w2)"
      by (metis prod_cases4)
    note ch = write_chunks_ok [OF wc]
    have act2: "active w2 = plus2 a (1, n')" using ch temp(2) by (auto simp: plus2_def)
    show ?thesis
      using res wc ch act2 temp fits len
      by (cases b) (auto simp: writer_holds_def writer_balanced_def)
  qed
  consider (stay) b where "bw_storage wr = MemoryStorage b" "\<not> bw_memory_bytes wr < length (s @ p)"
    | (spill) b where "bw_storage wr = MemoryStorage b" "bw_memory_bytes wr < length (s @ p)"
    | (temp) b n where "bw_storage wr = TempFileStorage b n" by (cases "bw_storage wr") auto
  then show ?thesis
  proof cases
    case stay
    then have "(r, wr', w') = (Inr (), wr\<lparr>bw_storage := MemoryStorage (s @ p), bw_length := length (s @ p)\<rparr>, w)"
      using assms(2) fits len content by (simp add: writer_write_def Let_def)
    then show ?thesis using stay fits len act by (auto simp: writer_holds_def)
  next
    case temp
    then have "bw_memory_bytes wr < length (s @ p)" and eq: "wr = wr\<lparr>bw_storage := TempFileStorage s n\<rparr>"
      using mem content by auto
    from append [OF eq _ this(1), of w] show ?thesis
      using assms(2) fits temp act content by (auto simp: writer_write_def Let_def split: sum.splits)
  next
    case spill
    obtain r1 wr1 w1 where sp: "spill wr w = (r1, wr1, w1)" by (metis prod_cases3)
    have a: "active w = a" using act spill by simp
    note so = spill_ok [OF spill(1) a sp]
    have m: "bw_memory_bytes wr < bw_length wr + length p" using spill(2) len by simp
    show ?thesis
    proof (cases r1)
      case (Inl err)
      then have "(r, wr', w') = (Inl err, wr1, w1)"
        using assms(2) fits m spill sp by (simp add: writer_write_def Let_def)
      then show ?thesis using so Inl by auto
    next
      case (Inr u)
      then obtain n where n: "wr1 = wr\<lparr>bw_storage := TempFileStorage s n\<rparr>" "active w1 = plus2 a (1, n)" "bi_ok w1 = bi_ok w"
        using so spill content by auto
      show ?thesis
        using append [OF n(1,2) spill(2)] assms(2) fits m spill sp Inr n
        by (auto simp: writer_write_def Let_def split: sum.splits)
    qed
  qed
qed

lemma write_pieces_ok:
  "writer_holds a s wr w \<Longrightarrow> write_pieces reason ps wr w = (r, w') \<Longrightarrow>
   bi_ok w' = bi_ok w \<and> (case r of
      Inl err \<Rightarrow> active w' = a \<and>
        (err = reason \<and> None \<in> set ps \<or>
         err = BodyTooLarge \<and>
           (\<exists>qs. prefix (map Some qs) ps \<and> min usize_max (bw_max_bytes wr) < length (s @ concat qs)) \<or>
         err = StorageUnavailable \<and> (\<exists>k. \<not> bi_ok w k))
    | Inr wr' \<Rightarrow> None \<notin> set ps \<and> writer_holds a (s @ concat (map the ps)) wr' w' \<and>
        bw_max_bytes wr' = bw_max_bytes wr \<and> bw_memory_bytes wr' = bw_memory_bytes wr)"
proof (induction reason ps wr w arbitrary: s rule: write_pieces.induct)
  case (1 reason wr w)
  then show ?case by auto
next
  case (2 reason ps wr w)
  then show ?case
    using drop_writer_balanced [of a wr w] by (auto simp: writer_holds_def writer_balanced_def drop_writer_def split: writer_storage.splits)
next
  case (3 reason p ps wr w)
  obtain r1 wr1 w1 where ww: "writer_write p wr w = (r1, wr1, w1)" by (metis prod_cases3)
  note wo = writer_write_ok [OF 3(2) ww]
  show ?case
  proof (cases r1)
    case (Inl err)
    then have eq: "r = Inl err" "w' = drop_writer wr1 w1" using 3(3) ww by auto
    have bal: "writer_balanced a wr1 w1" using wo Inl by auto
    have ok: "bi_ok w' = bi_ok w" using wo eq by (auto simp: drop_writer_def split: writer_storage.splits)
    have big: "\<exists>qs. prefix (map Some qs) (Some p # ps) \<and> min usize_max (bw_max_bytes wr) < length (s @ concat qs)"
      if "err = BodyTooLarge" using wo Inl that by (intro exI [of _ "[p]"]) auto
    have "err = BodyTooLarge \<or> err = StorageUnavailable \<and> (\<exists>k. \<not> bi_ok w k)" using wo Inl by auto
    then show ?thesis using eq ok drop_writer_balanced [OF bal] big by auto
  next
    case (Inr u)
    then have holds: "writer_holds a (s @ p) wr1 w1" and same: "bw_max_bytes wr1 = bw_max_bytes wr"
      "bw_memory_bytes wr1 = bw_memory_bytes wr" "bi_ok w1 = bi_ok w" using wo by auto
    have rest: "write_pieces reason ps wr1 w1 = (r, w')" using 3(3) ww Inr by simp
    note IH = 3(1) [OF ww [symmetric] refl refl Inr holds rest]
    show ?thesis
    proof (cases r)
      case (Inl err)
      have "\<exists>qs. prefix (map Some qs) (Some p # ps) \<and> min usize_max (bw_max_bytes wr) < length (s @ concat qs)"
        if "prefix (map Some qs) ps" "min usize_max (bw_max_bytes wr) < length ((s @ p) @ concat qs)" for qs
        using that by (intro exI [of _ "p # qs"]) auto
      then show ?thesis using IH Inl same by auto
    next
      case (Inr wr')
      then show ?thesis using IH same by auto
    qed
  qed
qed

lemma writer_new_holds: "writer_holds (active w) [] (writer_new m n) w"
  by (simp add: writer_holds_def writer_new_def)

lemma writer_finish_ok:
  assumes "writer_holds a s wr w" and "writer_finish wr w = (r, w')"
  shows "bi_ok w' = bi_ok w \<and> (case r of
      Inl err \<Rightarrow> active w' = a \<and> err = StorageUnavailable \<and> (\<exists>k. \<not> bi_ok w k)
    | Inr body \<Rightarrow> body_content body = s \<and> replayable_len body = length s \<and> active w' = plus2 a (body_held body) \<and>
        ((\<exists>b. body = MemoryBody b) \<longleftrightarrow> length s \<le> bw_memory_bytes wr))"
proof (cases "bw_storage wr")
  case (MemoryStorage b)
  then show ?thesis using assms by (auto simp: writer_finish_def writer_holds_def)
next
  case (TempFileStorage b n)
  have act: "active w = plus2 a (1, n)" and mem: "\<not> length s \<le> bw_memory_bytes wr" and s: "b = s" "bw_length wr = length s"
    using assms(1) TempFileStorage by (auto simp: writer_holds_def)
  have drop: "active (drop_writer wr (storage_failed (w\<lparr>bi_calls := k\<rparr>))) = a" for k
    using TempFileStorage act by (simp add: drop_writer_def active_drop)
  have dropok: "bi_ok (drop_writer wr x) = bi_ok x" for x using TempFileStorage by (simp add: drop_writer_def)
  consider (flush) "\<not> bi_ok w (bi_calls w)" | (seek) "bi_ok w (bi_calls w)" "\<not> bi_ok w (Suc (bi_calls w))"
    | (fine) "bi_ok w (bi_calls w)" "bi_ok w (Suc (bi_calls w))" by blast
  then show ?thesis
  proof cases
    case flush
    then show ?thesis
      using assms(2) TempFileStorage drop dropok by (auto simp: writer_finish_def io_call_def Let_def)
  next
    case seek
    then show ?thesis
      using assms(2) TempFileStorage drop dropok by (auto simp: writer_finish_def io_call_def Let_def)
  next
    case fine
    then show ?thesis
      using assms(2) TempFileStorage act mem s
      by (auto simp: writer_finish_def io_call_def Let_def active_def)
  qed
qed

text \<open>A body that was written is the concatenation of its pieces, within the limit, and accounted for exactly while it
  exists.\<close>

lemma write_body_ok:
  assumes "write_body reason memory_bytes max_bytes ps w = (r, w')"
  shows "bi_ok w' = bi_ok w \<and> (case r of
      Inl err \<Rightarrow> active w' = active w \<and>
        (err = reason \<and> None \<in> set ps \<or>
         err = BodyTooLarge \<and> (\<exists>qs. prefix (map Some qs) ps \<and> min usize_max max_bytes < length (concat qs)) \<or>
         err = StorageUnavailable \<and> (\<exists>k. \<not> bi_ok w k))
    | Inr body \<Rightarrow> None \<notin> set ps \<and> body_content body = concat (map the ps) \<and>
        replayable_len body = length (body_content body) \<and>
        length (body_content body) \<le> min usize_max max_bytes \<and>
        active w' = plus2 (active w) (body_held body) \<and>
        ((\<exists>b. body = MemoryBody b) \<longleftrightarrow> length (body_content body) \<le> memory_bytes))"
proof -
  obtain r1 w1 where wp: "write_pieces reason ps (writer_new memory_bytes max_bytes) w = (r1, w1)" by force
  note po = write_pieces_ok [OF writer_new_holds wp]
  show ?thesis
  proof (cases r1)
    case (Inl err)
    then show ?thesis using assms wp po by (auto simp: write_body_def writer_new_def)
  next
    case (Inr wr)
    then have fin: "writer_finish wr w1 = (r, w')" using assms wp by (simp add: write_body_def)
    have holds: "writer_holds (active w) (concat (map the ps)) wr w1" and none: "None \<notin> set ps"
      and same: "bw_max_bytes wr = max_bytes" "bw_memory_bytes wr = memory_bytes" "bi_ok w1 = bi_ok w"
      using po Inr by (auto simp: writer_new_def)
    note fo = writer_finish_ok [OF holds fin]
    have len: "length (concat (map the ps)) \<le> min usize_max max_bytes" using holds same by (simp add: writer_holds_def)
    show ?thesis
    proof (cases r)
      case (Inl err)
      then show ?thesis using fo same by auto
    next
      case (Inr body)
      then show ?thesis using fo same none len by auto
    qed
  qed
qed

section \<open>Replay\<close>

lemma file_chunks_ok: "None \<notin> set (file_chunks reads k content) \<Longrightarrow> concat (map the (file_chunks reads k content)) = content"
proof (induction reads k content rule: file_chunks.induct)
  case (1 reads k content)
  show ?case
  proof (cases "content = []")
    case True
    then show ?thesis by (simp add: file_chunks.simps)
  next
    case False
    then obtain n where n: "reads k = Some n"
      using 1(2) by (cases "reads k") (auto simp: file_chunks.simps [of reads k content])
    define n' where "n' = max 1 (min n BODY_READ_CHUNK_BYTES)"
    have eq: "file_chunks reads k content = Some (take n' content) # file_chunks reads (k + 1) (drop n' content)"
      using False n by (subst file_chunks.simps) (simp add: n'_def Let_def)
    show ?thesis using 1(1) [OF False n n'_def] 1(2) unfolding eq by simp
  qed
qed

lemma replay_stream_ok:
  assumes "replay_stream reads body w = (r, w')"
  shows "bi_ok w' = bi_ok w \<and> active w' = active w \<and> (case r of
      Inl err \<Rightarrow> err = StorageUnavailable \<and> (\<exists>k. \<not> bi_ok w k)
    | Inr cs \<Rightarrow> None \<notin> set cs \<longrightarrow> concat (map the cs) = body_content body)"
  using assms file_chunks_ok
  by (cases body) (auto simp: replay_stream_def io_call_def Let_def comp_def split: if_splits)

lemma drop_body_active: "active w = plus2 a (body_held body) \<Longrightarrow> active (drop_body body w) = a"
  by (cases body) (auto simp: drop_body_def active_drop)

section \<open>Inspection\<close>

definition part_bytes :: "multipart_part \<Rightarrow> u8 list" where
  "part_bytes p = concat (map the (mp_data p))"

definition named :: "string \<Rightarrow> multipart_part \<Rightarrow> bool" where
  "named n p \<longleftrightarrow> mp_name p = Some n"

definition is_image_part :: "multipart_part \<Rightarrow> bool" where
  "is_image_part p \<longleftrightarrow> named ''image'' p \<or> named ''image[]'' p"

definition is_text_part :: "multipart_part \<Rightarrow> bool" where
  "is_text_part p \<longleftrightarrow> \<not> is_image_part p \<and> \<not> named ''mask'' p \<and> mp_file_name p = None"

definition text_fields_of :: "multipart_part list \<Rightarrow> (string \<times> u8 list) list" where
  "text_fields_of ps = map (\<lambda>p. (the (mp_name p), part_bytes p)) (filter is_text_part ps)"

text \<open>A model: well-formed, not blank and of at most 300 characters.\<close>

definition model_text :: "u8 list \<Rightarrow> bool" where
  "model_text v \<longleftrightarrow> (\<exists>t. from_utf8 (map unat v) = Some t \<and> text_trim t \<noteq> [] \<and> length t \<le> 300)"

text \<open>What an inspection has established of the parts it has seen.\<close>

definition part_ok :: "nat \<Rightarrow> multipart_part \<Rightarrow> bool" where
  "part_ok max_file_bytes p \<longleftrightarrow>
     mp_name p \<noteq> None \<and> None \<notin> set (mp_data p) \<and> length (the (mp_name p)) \<le> MAX_MULTIPART_FIELD_NAME_BYTES \<and>
     (if is_text_part p then length (part_bytes p) \<le> MAX_MULTIPART_TEXT_FIELD_BYTES
      else (is_image_part p \<or> named ''mask'' p) \<and> length (part_bytes p) \<le> max_file_bytes)"

definition models_of :: "multipart_part list \<Rightarrow> u8 list list" where
  "models_of ps = map snd (filter (\<lambda>(n, v). n = ''model'') (text_fields_of ps))"

definition model_ok :: "string option \<Rightarrow> u8 list list \<Rightarrow> bool" where
  "model_ok m vs = (case m of None \<Rightarrow> vs = [] | Some m \<Rightarrow> \<exists>v. vs = [v] \<and> m = from_bytes v \<and> model_text v)"

lemma model_ok_simps [simp]:
  "model_ok None vs \<longleftrightarrow> vs = []" "model_ok (Some m) vs \<longleftrightarrow> (\<exists>v. vs = [v] \<and> m = from_bytes v \<and> model_text v)"
  by (simp_all add: model_ok_def)

definition form_ok :: "nat \<Rightarrow> multipart_part list \<Rightarrow> multipart_inspection \<Rightarrow> bool" where
  "form_ok max_file_bytes ps st \<longleftrightarrow>
     (\<forall>p \<in> set ps. part_ok max_file_bytes p) \<and>
     mi_field_count st = length ps \<and> length ps \<le> MAX_MULTIPART_FIELDS \<and>
     mi_text_fields st = text_fields_of ps \<and>
     mi_text_bytes st = sum_list (map (length \<circ> snd) (text_fields_of ps)) \<and>
     mi_text_bytes st \<le> MAX_MULTIPART_TEXT_BYTES \<and>
     mi_image_count st = length (filter is_image_part ps) \<and> mi_image_count st \<le> MAX_IMAGE_EDIT_IMAGES \<and>
     mi_image_bytes st = sum_list (map (length \<circ> part_bytes) (filter is_image_part ps)) \<and>
     mi_mask_count st = length (filter (named ''mask'') ps) \<and> mi_mask_count st \<le> MAX_IMAGE_EDIT_MASKS \<and>
     model_ok (mi_model st) (models_of ps)"

lemma form_ok_start: "form_ok mx [] inspection_start"
  by (simp add: form_ok_def inspection_start_def text_fields_of_def models_of_def)

lemma file_length_ok:
  "file_length mx cs n = Inr m \<Longrightarrow> None \<notin> set cs \<and> m = n + length (concat (map the cs)) \<and> (n \<le> mx \<longrightarrow> m \<le> mx)"
  by (induction mx cs n rule: file_length.induct) (auto split: if_splits)

lemma text_value_ok:
  "text_value cs v = Inr v' \<Longrightarrow> None \<notin> set cs \<and> v' = v @ concat (map the cs) \<and>
     (length v \<le> MAX_MULTIPART_TEXT_FIELD_BYTES \<longrightarrow> length v' \<le> MAX_MULTIPART_TEXT_FIELD_BYTES)"
  by (induction cs v rule: text_value.induct) (auto split: if_splits)

lemma text_fields_snoc:
  "text_fields_of (ps @ [p]) = text_fields_of ps @ (if is_text_part p then [(the (mp_name p), part_bytes p)] else [])"
  by (simp add: text_fields_of_def)

lemma models_snoc:
  assumes "mp_name p = Some n"
  shows "models_of (ps @ [p]) = models_of ps @ (if is_text_part p \<and> n = ''model'' then [part_bytes p] else [])"
  using assms by (simp add: models_of_def text_fields_snoc)

lemma inspect_file_ok:
  assumes "form_ok mx ps st" and "length ps < MAX_MULTIPART_FIELDS" and "mp_name p = Some n"
    and "length n \<le> MAX_MULTIPART_FIELD_NAME_BYTES" and "is_image_field n \<or> n = ''mask'' \<or> mp_file_name p \<noteq> None"
    and "inspect_file mx n p (st\<lparr>mi_field_count := mi_field_count st + 1\<rparr>) = Inr st'"
  shows "form_ok mx (ps @ [p]) st'"
proof -
  have img: "is_image_field n \<longleftrightarrow> is_image_part p" and msk: "n = ''mask'' \<longleftrightarrow> named ''mask'' p"
    using assms(3) by (auto simp: is_image_field_def is_image_part_def named_def)
  have kind: "is_image_part p \<or> named ''mask'' p" and excl: "\<not> (is_image_part p \<and> named ''mask'' p)"
    using assms(6) img msk by (auto simp: inspect_file_def is_image_part_def named_def split: if_splits)
  then have nt: "\<not> is_text_part p" by (auto simp: is_text_part_def)
  obtain len where len: "file_length mx (mp_data p) 0 = Inr len"
    using assms(6) by (auto simp: inspect_file_def split: if_splits sum.splits)
  note fl = file_length_ok [OF len]
  have pok: "part_ok mx p" using fl kind nt assms(3,4) by (simp add: part_ok_def part_bytes_def)
  have fields: "text_fields_of (ps @ [p]) = text_fields_of ps" "models_of (ps @ [p]) = models_of ps"
    using nt by (simp_all add: text_fields_snoc models_snoc [OF assms(3)])
  show ?thesis
  proof (cases "is_image_part p")
    case True
    then have st': "st' = st\<lparr>mi_field_count := mi_field_count st + 1, mi_image_count := mi_image_count st + 1,
        mi_image_bytes := mi_image_bytes st + len\<rparr>" and cnt: "mi_image_count st + 1 \<le> MAX_IMAGE_EDIT_IMAGES"
      using assms(6) len img by (auto simp: inspect_file_def split: if_splits)
    show ?thesis
      using assms(1,2) pok fields cnt True excl fl unfolding form_ok_def st' by (simp add: part_bytes_def)
  next
    case False
    then have st': "st' = st\<lparr>mi_field_count := mi_field_count st + 1, mi_mask_count := mi_mask_count st + 1\<rparr>"
      and cnt: "mi_mask_count st + 1 \<le> MAX_IMAGE_EDIT_MASKS"
      using assms(6) len img by (auto simp: inspect_file_def split: if_splits)
    show ?thesis
      using assms(1,2) pok fields cnt False kind unfolding form_ok_def st' by simp
  qed
qed

lemma inspect_text_ok:
  assumes "form_ok mx ps st" and "length ps < MAX_MULTIPART_FIELDS" and "mp_name p = Some n"
    and "length n \<le> MAX_MULTIPART_FIELD_NAME_BYTES" and "\<not> (is_image_field n \<or> n = ''mask'' \<or> mp_file_name p \<noteq> None)"
    and "inspect_text n p (st\<lparr>mi_field_count := mi_field_count st + 1\<rparr>) = Inr st'"
  shows "form_ok mx (ps @ [p]) st'"
proof -
  have tp: "is_text_part p" "\<not> is_image_part p" "\<not> named ''mask'' p"
    using assms(3,5) by (auto simp: is_text_part_def is_image_part_def is_image_field_def named_def)
  obtain v where v: "text_value (mp_data p) [] = Inr v"
    using assms(6) by (auto simp: inspect_text_def split: sum.splits)
  note tv = text_value_ok [OF v]
  have pb: "v = part_bytes p" using tv by (simp add: part_bytes_def)
  have pok: "part_ok mx p" using tv tp assms(3,4) pb by (simp add: part_ok_def part_bytes_def)
  let ?st1 = "st\<lparr>mi_field_count := mi_field_count st + 1, mi_text_bytes := mi_text_bytes st + length v\<rparr>"
  obtain st2 where st2: "(if n = ''model'' then inspect_model v ?st1 else Inr ?st1) = Inr st2"
    and st': "st' = st2\<lparr>mi_text_fields := mi_text_fields st2 @ [(n, v)]\<rparr>"
    and bytes: "mi_text_bytes st + length v \<le> MAX_MULTIPART_TEXT_BYTES"
    using assms(6) v by (auto simp: inspect_text_def Let_def not_less split: if_splits sum.splits)
  show ?thesis
  proof (cases "n = ''model''")
    case True
    then have m: "mi_model st = None" "st2 = ?st1\<lparr>mi_model := Some (from_bytes v)\<rparr>" "model_text v"
      using st2 by (auto simp: inspect_model_def model_text_def not_less split: if_splits option.splits)
    show ?thesis
      using assms(1,2) pok tp bytes True assms(3) pb m(1,3)
      unfolding form_ok_def st' m(2) by (simp add: text_fields_snoc models_snoc [OF assms(3)])
  next
    case False
    then have "st2 = ?st1" using st2 by simp
    then show ?thesis
      using assms(1,2) pok tp bytes False assms(3) pb
      unfolding form_ok_def st' by (simp add: text_fields_snoc models_snoc [OF assms(3)])
  qed
qed

lemma inspect_part_ok:
  assumes "form_ok mx ps st" and "inspect_part c mx p st = Some (Inr st')"
  shows "form_ok mx (ps @ [p]) st'"
proof -
  obtain n where n: "mp_name p = Some n" "length n \<le> MAX_MULTIPART_FIELD_NAME_BYTES" and len: "length ps < MAX_MULTIPART_FIELDS"
    using assms by (auto simp: inspect_part_def form_ok_def Let_def not_less split: if_splits option.splits)
  have cnt: "\<not> MAX_MULTIPART_FIELDS < Suc (mi_field_count st)" using assms(1) len by (simp add: form_ok_def)
  show ?thesis
  proof (cases "is_image_field n \<or> n = ''mask'' \<or> mp_file_name p \<noteq> None")
    case True
    then have "inspect_file mx n p (st\<lparr>mi_field_count := mi_field_count st + 1\<rparr>) = Inr st'"
      using assms(2) n cnt
      by (auto simp: inspect_part_def Let_def policy_then_def split: if_splits sum.splits bind_splits)
    then show ?thesis by (rule inspect_file_ok [OF assms(1) len n True])
  next
    case False
    then have "inspect_text n p (st\<lparr>mi_field_count := mi_field_count st + 1\<rparr>) = Inr st'"
      using assms(2) n cnt by (auto simp: inspect_part_def Let_def split: if_splits option.splits)
    then show ?thesis by (rule inspect_text_ok [OF assms(1) len n False])
  qed
qed

lemma inspect_parts_ok:
  "form_ok mx qs st \<Longrightarrow> inspect_parts c mx ps st = Some (Inr st') \<Longrightarrow>
   None \<notin> set ps \<and> form_ok mx (qs @ map the ps) st'"
proof (induction c mx ps st arbitrary: qs rule: inspect_parts.induct)
  case (3 c mx p ps st)
  then obtain st1 where st1: "inspect_part c mx p st = Some (Inr st1)" "inspect_parts c mx ps st1 = Some (Inr st')"
    by (auto split: bind_splits sum.splits)
  from 3(1) [OF st1(1) refl inspect_part_ok [OF 3(2) st1(1)] st1(2)] show ?case by simp
qed auto

lemma disposition_total:
  assumes "validate_contract H c = Inr ()"
  obtains r where "body_field_disposition c layer i f v = Some r"
  using validate_contract_body [OF assms, of i] by (auto simp: body_field_disposition_def)

lemma inspect_part_total:
  assumes "validate_contract H c = Inr ()"
  shows "\<exists>r. inspect_part c mx p st = Some r"
proof (cases "mp_name p")
  case None
  then show ?thesis by (simp add: inspect_part_def Let_def)
next
  case (Some n)
  obtain r where "body_field_disposition c ClientLayer ImagesEditInterface (if n = ''image[]'' then ''image'' else n) None =
      Some r" by (rule disposition_total [OF assms])
  then show ?thesis using Some by (cases r) (simp_all add: inspect_part_def Let_def policy_then_def)
qed

lemma inspect_parts_total:
  assumes "validate_contract H c = Inr ()"
  shows "\<exists>r. inspect_parts c mx ps st = Some r"
proof (induction ps arbitrary: st)
  case (Cons q ps)
  show ?case
  proof (cases q)
    case (Some p)
    obtain r where "inspect_part c mx p st = Some r" using inspect_part_total [OF assms] by blast
    then show ?thesis using Some Cons.IH by (cases r) simp_all
  qed simp
qed simp

section \<open>Captured forms\<close>

text \<open>A captured form and the parts it was read from.\<close>

definition form_of_parts :: "image_edit_body_policy \<Rightarrow> multipart_part list \<Rightarrow> image_edit_request_body \<Rightarrow> bool" where
  "form_of_parts ep ps e \<longleftrightarrow>
     (\<forall>p \<in> set ps. part_ok (ep_max_file_bytes ep) p) \<and> length ps \<le> MAX_MULTIPART_FIELDS \<and>
     ie_text_fields e = text_fields_of ps \<and>
     sum_list (map (length \<circ> snd) (ie_text_fields e)) \<le> MAX_MULTIPART_TEXT_BYTES \<and>
     ie_image_count e = length (filter is_image_part ps) \<and> 1 \<le> ie_image_count e \<and> ie_image_count e \<le> MAX_IMAGE_EDIT_IMAGES \<and>
     ie_image_bytes e = sum_list (map (length \<circ> part_bytes) (filter is_image_part ps)) \<and>
     ie_mask_count e = length (filter (named ''mask'') ps) \<and> ie_mask_count e \<le> MAX_IMAGE_EDIT_MASKS \<and>
     ie_model e = ie_wire_model e \<and> ie_ignored_part_fields e = [] \<and>
     (\<exists>v. models_of ps = [v] \<and> ie_model e = from_bytes v \<and> model_text v)"

lemma inspect_multipart_ok:
  assumes "inspect_multipart c mx parts = Some (Inr (model, st))"
  shows "\<exists>ps. parts = map Some ps \<and> form_ok mx ps st \<and> mi_image_count st \<noteq> 0 \<and> mi_model st = Some model"
proof -
  obtain z where z: "inspect_parts c mx parts inspection_start = Some z"
    using assms by (auto simp: inspect_multipart_def)
  have ip: "inspect_parts c mx parts inspection_start = Some (Inr st)" and "mi_image_count st \<noteq> 0" "mi_model st = Some model"
    using assms unfolding inspect_multipart_def z by (auto split: sum.splits if_splits option.splits)
  moreover have "parts = map Some (map the parts)"
  proof -
    have "Some (the x) = x" if "x \<in> set parts" for x
      using inspect_parts_ok [OF form_ok_start ip] that by (cases x) auto
    then show ?thesis by (simp add: map_idI)
  qed
  ultimately show ?thesis using inspect_parts_ok [OF form_ok_start ip] by (intro exI [of _ "map the parts"]) simp
qed

lemma inspect_multipart_total:
  assumes "validate_contract H c = Inr ()"
  obtains r where "inspect_multipart c mx parts = Some r"
  using inspect_parts_total [OF assms, of mx parts inspection_start] by (auto simp: inspect_multipart_def)

lemma guard_total: obtains g where "guard_multipart_stream b chunks = Some g"
proof -
  obtain v where v: "validator_new b = Some v" "validator_inv b [] v" using validator_new_ok by blast
  from guard_chunks_ok [OF v(2), of chunks] v(1) show ?thesis
    using that by (auto simp: guard_multipart_stream_def)
qed

text \<open>C38. Capturing an image edit form never panics, whatever the client sends and the file system does. A captured form
  has exactly the bytes of the request, within the configured limit, in memory exactly up to the memory threshold; its
  fields are those of the parts the parser yields from the guarded replay of these bytes: between one and sixteen
  images, at most one mask, at most 64 parts, every part within its limit and exactly one model, well-formed and not
  blank. The counters of temporary files and bytes grow by exactly the file it holds, and are unchanged when it is
  refused.\<close>

theorem captured_form_is_exact:
  assumes "validate_contract H c = Inr ()"
  shows "\<exists>r w'. capture c H boundary_of parse reads ep hs cs w = Some (r, w') \<and>
    (case r of
       Inl err \<Rightarrow> active w' = active w
     | Inr e \<Rightarrow>
         None \<notin> set cs \<and> body_content (ie_body e) = concat (map the cs) \<and>
         length (body_content (ie_body e)) \<le> ep_max_body_bytes ep \<and>
         ((\<exists>b. ie_body e = MemoryBody b) \<longleftrightarrow> length (body_content (ie_body e)) \<le> ep_memory_bytes ep) \<and>
         active w' = plus2 (active w) (body_held (ie_body e)) \<and>
         (\<exists>w1 chunks guarded ps. replay_stream reads (ie_body e) w1 = (Inr chunks, w') \<and>
            guard_multipart_stream (as_bytes (ie_boundary e)) chunks = Some guarded \<and>
            parse (as_bytes (ie_boundary e)) guarded = map Some ps \<and> form_of_parts ep ps e))"
proof -
  consider (enc) "reject_encoded_body H hs" | (ctype) "\<not> reject_encoded_body H hs" "form_boundary H boundary_of hs = None"
    | (long) b where "\<not> reject_encoded_body H hs" "form_boundary H boundary_of hs = Some b"
        "declared_too_long H (ep_max_body_bytes ep) hs"
    | (go) b where "\<not> reject_encoded_body H hs" "form_boundary H boundary_of hs = Some b"
        "\<not> declared_too_long H (ep_max_body_bytes ep) hs"
    by (cases "form_boundary H boundary_of hs") auto
  then show ?thesis
  proof cases
    case (go b)
    obtain r1 w1 where wb: "write_body Unreadable (ep_memory_bytes ep) (ep_max_body_bytes ep) cs w = (r1, w1)" by force
    note wo = write_body_ok [OF wb]
    show ?thesis
    proof (cases r1)
      case (Inl err)
      then show ?thesis using go wb wo by (simp add: capture_def)
    next
      case (Inr body)
      have body: "None \<notin> set cs" "body_content body = concat (map the cs)"
        "length (body_content body) \<le> ep_max_body_bytes ep" "active w1 = plus2 (active w) (body_held body)"
        "(\<exists>b. body = MemoryBody b) \<longleftrightarrow> length (body_content body) \<le> ep_memory_bytes ep"
        using wo Inr by auto
      obtain r2 w2 where rs: "replay_stream reads body w1 = (r2, w2)" by force
      have act: "active w2 = plus2 (active w) (body_held body)" using replay_stream_ok [OF rs] body(4) by simp
      show ?thesis
      proof (cases r2)
        case (Inl err)
        then show ?thesis using go wb Inr rs drop_body_active [OF act] by (simp add: capture_def)
      next
        case chunks: (Inr chunks)
        obtain g where g: "guard_multipart_stream (as_bytes b) chunks = Some g" by (rule guard_total)
        obtain r3 where r3: "inspect_multipart c (ep_max_file_bytes ep) (parse (as_bytes b) g) = Some r3"
          by (rule inspect_multipart_total [OF assms])
        show ?thesis
        proof (cases r3)
          case (Inl err)
          then show ?thesis using go wb Inr rs chunks g r3 drop_body_active [OF act] by (simp add: capture_def)
        next
          case ms: (Inr ms)
          obtain model st where m: "ms = (model, st)" by force
          from inspect_multipart_ok [OF r3 [unfolded ms m]] obtain ps where
            ps: "parse (as_bytes b) g = map Some ps" "form_ok (ep_max_file_bytes ep) ps st" "mi_image_count st \<noteq> 0"
              "mi_model st = Some model" by blast
          define e where "e = \<lparr>ie_body = body, ie_boundary = b, ie_content_type = hd (hd_get_all hs ''content-type''),
            ie_text_fields = mi_text_fields st, ie_ignored_part_fields = [], ie_wire_model = model, ie_model = model,
            ie_image_count = mi_image_count st, ie_image_bytes = mi_image_bytes st, ie_mask_count = mi_mask_count st,
            ie_policy = ep\<rparr>"
          have cap: "capture c H boundary_of parse reads ep hs cs w = Some (Inr e, w2)"
            using go wb Inr rs chunks g r3 ms m by (simp add: capture_def e_def)
          have form: "form_of_parts ep ps e"
            using ps unfolding form_ok_def form_of_parts_def e_def by (simp add: Suc_le_eq)
          have sel: "ie_body e = body" "ie_boundary e = b" by (simp_all add: e_def)
          have "replay_stream reads body w1 = (Inr chunks, w2)" using rs chunks by simp
          then have "\<exists>w1 chunks guarded ps. replay_stream reads (ie_body e) w1 = (Inr chunks, w2) \<and>
            guard_multipart_stream (as_bytes (ie_boundary e)) chunks = Some guarded \<and>
            parse (as_bytes (ie_boundary e)) guarded = map Some ps \<and> form_of_parts ep ps e"
            unfolding sel using g ps(1) form by blast
          then show ?thesis
            using body act cap sel by (intro exI [of _ "Inr e"] exI [of _ w2]) simp
        qed
      qed
    qed
  qed (simp_all add: capture_def)
qed

section \<open>JSON bodies\<close>

lemma ignored_fields_ok:
  "body_policy_wf p \<Longrightarrow> ignored_fields J layer i p fs = Inr gs \<Longrightarrow>
   fst ` set fs \<subseteq> set (bp_allow p) \<union> fst ` set (bp_ignore p) \<and>
   set gs = fst ` set fs - set (bp_allow p)"
proof (induction J layer i p fs arbitrary: gs rule: ignored_fields.induct)
  case (2 J layer i p f raw fs)
  obtain v d hs where *: "inspected_value J layer i p f raw = Inr v" "field_disposition_for_policy layer i p f v = Inr d"
    "ignored_fields J layer i p fs = Inr hs" "gs = (if d = IgnoreField then f # hs else hs)"
    using 2(3) by (auto split: sum.splits)
  note IH = 2(1) [OF *(1,2) 2(2) *(3)]
  have "field_verdict layer i p f v = Inr d" using *(2) field_disposition_verdict [OF 2(2)] by simp
  then have "f \<in> set (bp_allow p) \<and> d = AllowField \<or> f \<notin> set (bp_allow p) \<and> f \<in> fst ` set (bp_ignore p) \<and> d = IgnoreField"
    by (auto simp: field_verdict_def split: if_splits option.splits dest!: hm_get_SomeD intro: rev_image_eqI)
  then show ?case using IH *(4) by auto
qed simp

lemma json_members:
  assumes "body_json_laws J" and "bj_fields J b = Some fs" and "bj_value J b = Some v"
  obtains m where "bj_object J v = Some m" "dom m = fst ` set fs"
proof -
  have "\<forall>b fs v. bj_fields J b = Some fs \<and> bj_value J b = Some v \<longrightarrow>
      (\<exists>m. bj_object J v = Some m \<and> dom m = fst ` set fs)"
    using assms(1) unfolding body_json_laws_def by (elim conjE)
  from this [rule_format, OF conjI [OF assms(2,3)]] show ?thesis using that by auto
qed

lemma json_removed:
  "body_json_laws J \<Longrightarrow> bj_object J v = Some m \<Longrightarrow> bj_object J (bj_remove J k v) = Some (m(k := None))"
  by (simp add: body_json_laws_def)

lemma json_inserted:
  "body_json_laws J \<Longrightarrow> bj_object J v = Some m \<Longrightarrow> bj_object J (bj_insert J k x v) = Some (m(k \<mapsto> x))"
  by (simp add: body_json_laws_def)

lemma json_written:
  assumes "body_json_laws J" and "bj_object J v = Some m" and "bj_to_vec J v = Some b"
  obtains fs v' m' where "bj_fields J b = Some fs" "fst ` set fs = dom m" "bj_value J b = Some v'"
    "bj_object J v' = Some m'" "\<forall>k s. m k = Some (bj_string J s) \<longrightarrow> m' k = Some (bj_string J s)"
proof -
  have "\<forall>v m b. bj_object J v = Some m \<and> bj_to_vec J v = Some b \<longrightarrow>
      (\<exists>fs v' m'. bj_fields J b = Some fs \<and> fst ` set fs = dom m \<and> bj_value J b = Some v' \<and>
         bj_object J v' = Some m' \<and> (\<forall>k s. m k = Some (bj_string J s) \<longrightarrow> m' k = Some (bj_string J s)))"
    using assms(1) unfolding body_json_laws_def by (elim conjE)
  from this [rule_format, OF conjI [OF assms(2,3)]] show ?thesis using that by (elim exE conjE)
qed

lemma fold_remove_object:
  assumes "body_json_laws J"
  shows "bj_object J v = Some m \<Longrightarrow> bj_object J (fold (bj_remove J) gs v) = Some (m |` (- set gs))"
proof (induction gs arbitrary: v m)
  case (Cons g gs)
  from Cons.IH [OF json_removed [OF assms Cons.prems]] show ?case by (simp add: restrict_map_def fun_eq_iff)
qed (simp add: restrict_map_def)

lemma json_policy_ok:
  assumes "body_json_laws J" and "interface_policy c i = Some p" and "body_policy_wf p"
    and "apply_json_body_policy c J layer i b = Some (Inr a)"
  shows "\<exists>fs fs'. bj_fields J b = Some fs \<and> fst ` set fs \<subseteq> set (bp_allow p) \<union> fst ` set (bp_ignore p) \<and>
    bj_fields J (aj_body a) = Some fs' \<and> fst ` set fs' = fst ` set fs \<inter> set (bp_allow p) \<and>
    (aj_changed a \<or> aj_body a = b)"
proof -
  obtain fs gs where fs: "bj_fields J b = Some fs" "ignored_fields J layer i p fs = Inr gs"
    using assms(2,4) by (auto simp: apply_json_body_policy_def split: option.splits sum.splits)
  note ig = ignored_fields_ok [OF assms(3) fs(2)]
  show ?thesis
  proof (cases "gs = []")
    case True
    then have "a = \<lparr>aj_body = b, aj_changed = False\<rparr>"
      using assms(2,4) fs by (simp add: apply_json_body_policy_def)
    then show ?thesis using fs ig True by (intro exI [of _ fs]) auto
  next
    case False
    then obtain v b' where v: "bj_value J b = Some v" "bj_to_vec J (fold (bj_remove J) gs v) = Some b'"
      "a = \<lparr>aj_body = b', aj_changed = True\<rparr>"
      using assms(2,4) fs by (auto simp: apply_json_body_policy_def split: option.splits if_splits)
    obtain m where m: "bj_object J v = Some m" "dom m = fst ` set fs" by (rule json_members [OF assms(1) fs(1) v(1)])
    obtain fs' where fs': "bj_fields J b' = Some fs'" "fst ` set fs' = dom (m |` (- set gs))"
      by (rule json_written [OF assms(1) fold_remove_object [OF assms(1) m(1)] v(2)])
    have "fst ` set fs' = fst ` set fs \<inter> set (bp_allow p)" using fs'(2) m(2) ig by auto
    then show ?thesis using fs(1) fs'(1) v(3) ig by (intro exI [of _ fs] exI [of _ fs']) simp
  qed
qed

lemma fast_mode_ok:
  assumes "body_json_laws J" and "bj_fields J b = Some fs" and "apply_client_fast_mode_filter J i b True = Inr a"
  shows "\<exists>fs'. bj_fields J (aj_body a) = Some fs' \<and> fst ` set fs' = fst ` set fs - {''service_tier''} \<and>
    (aj_changed a \<or> aj_body a = b)"
proof -
  obtain v m where v: "bj_value J b = Some v" "bj_object J v = Some m"
    using assms(3) by (auto simp: apply_client_fast_mode_filter_def split: option.splits)
  have m: "dom m = fst ` set fs" by (rule json_members [OF assms(1,2) v(1)]) (simp add: v(2))
  show ?thesis
  proof (cases "m ''service_tier''")
    case None
    then have "a = \<lparr>aj_body = b, aj_changed = False\<rparr>"
      using assms(3) v by (simp add: apply_client_fast_mode_filter_def)
    moreover have "''service_tier'' \<notin> fst ` set fs" using None m by (metis domIff)
    ultimately show ?thesis using assms(2) by auto
  next
    case (Some x)
    then obtain b' where b': "bj_to_vec J (bj_remove J ''service_tier'' v) = Some b'" "a = \<lparr>aj_body = b', aj_changed = True\<rparr>"
      using assms(3) v by (auto simp: apply_client_fast_mode_filter_def split: option.splits)
    obtain fs' where "bj_fields J b' = Some fs'" "fst ` set fs' = dom (m(''service_tier'' := None))"
      by (rule json_written [OF assms(1) json_removed [OF assms(1) v(2)] b'(1)])
    then show ?thesis using b'(2) m by auto
  qed
qed

lemma json_model_ok:
  assumes "body_json_laws J" and "bj_fields J b = Some fs" and "cm \<noteq> um" and "rewrite_model J cm um (JsonRequest b) = Inr q"
  obtains b' fs' v m where "q = JsonRequest b'" "bj_fields J b' = Some fs'" "fst ` set fs' = insert ''model'' (fst ` set fs)"
    "bj_value J b' = Some v" "bj_object J v = Some m" "m ''model'' = Some (bj_string J um)"
proof -
  obtain v m b' where v: "bj_value J b = Some v" "bj_object J v = Some m"
    "bj_to_vec J (bj_insert J ''model'' (bj_string J um) v) = Some b'" "q = JsonRequest b'"
    using assms(3,4) by (auto simp: rewrite_model_def split: option.splits if_splits)
  have m: "dom m = fst ` set fs" by (rule json_members [OF assms(1,2) v(1)]) (simp add: v(2))
  obtain fs' v' m' where "bj_fields J b' = Some fs'" "fst ` set fs' = dom (m(''model'' \<mapsto> bj_string J um))"
    "bj_value J b' = Some v'" "bj_object J v' = Some m'"
    "\<forall>k s. (m(''model'' \<mapsto> bj_string J um)) k = Some (bj_string J s) \<longrightarrow> m' k = Some (bj_string J s)"
    by (rule json_written [OF assms(1) json_inserted [OF assms(1) v(2)] v(3)])
  then show ?thesis using v(4) m that by auto
qed

lemma map_sum_Inr_iff: "map_sum id f z = Inr y \<longleftrightarrow> (\<exists>a. z = Inr a \<and> y = f a)"
  by (cases z) auto

text \<open>C37. Of a JSON body only fields that the contract allows leave the gateway: after the request policy, the fast mode
  filter and the rewriting of the model, the body has exactly the allowed fields of the client's, without
  \<^verbatim>\<open>service_tier\<close> if the filter is on, and the upstream model if it differs; a client body
  with a field that is neither allowed nor ignored does not get this far. If no step reports a change, the body is the
  client's, byte for byte.\<close>

theorem only_allowed_fields_leave:
  assumes "validate_contract H c = Inr ()" and "body_json_laws J"
    and "apply_policy c J layer i (JsonRequest b) = Some (Inr (q1, changed))"
    and "filter_fast_mode J enabled i q1 = Inr (q2, filtered)"
    and "rewrite_model J client_model upstream_model q2 = Inr q3"
  shows "\<exists>p fs b3 fs3. interface_policy c i = Some p \<and> bj_fields J b = Some fs \<and>
    fst ` set fs \<subseteq> set (bp_allow p) \<union> fst ` set (bp_ignore p) \<and>
    q3 = JsonRequest b3 \<and> bj_fields J b3 = Some fs3 \<and> fst ` set fs3 \<subseteq> set (bp_allow p) \<and>
    fst ` set fs3 = (fst ` set fs \<inter> set (bp_allow p)) - (if enabled then {''service_tier''} else {}) \<union>
      (if client_model = upstream_model then {} else {''model''}) \<and>
    (client_model = upstream_model \<or>
       (\<exists>v m. bj_value J b3 = Some v \<and> bj_object J v = Some m \<and> m ''model'' = Some (bj_string J upstream_model))) \<and>
    (changed \<or> filtered \<or> client_model \<noteq> upstream_model \<or> b3 = b)"
proof -
  obtain p where p: "interface_policy c i = Some p" "body_policy_wf p" using validate_contract_body [OF assms(1)] by blast
  obtain a where a: "apply_json_body_policy c J layer i b = Some (Inr a)" "q1 = JsonRequest (aj_body a)" "changed = aj_changed a"
    using assms(3) by (auto simp: apply_policy_def map_sum_Inr_iff)
  obtain fs fs1 where fs: "bj_fields J b = Some fs" "fst ` set fs \<subseteq> set (bp_allow p) \<union> fst ` set (bp_ignore p)"
    "bj_fields J (aj_body a) = Some fs1" "fst ` set fs1 = fst ` set fs \<inter> set (bp_allow p)" "changed \<or> aj_body a = b"
    using json_policy_ok [OF assms(2) p a(1)] a(3) by blast
  have "\<exists>b2 fs2. q2 = JsonRequest b2 \<and> bj_fields J b2 = Some fs2 \<and>
      fst ` set fs2 = fst ` set fs1 - (if enabled then {''service_tier''} else {}) \<and> (filtered \<or> b2 = aj_body a)"
  proof (cases enabled)
    case True
    then obtain a2 where "apply_client_fast_mode_filter J i (aj_body a) True = Inr a2" "q2 = JsonRequest (aj_body a2)"
      "filtered = aj_changed a2"
      using assms(4) a(2) by (auto simp: filter_fast_mode_def map_sum_Inr_iff)
    then show ?thesis using fast_mode_ok [OF assms(2) fs(3)] True by auto
  next
    case False
    then show ?thesis using assms(4) a(2) fs(3) by (auto simp: filter_fast_mode_def)
  qed
  then obtain b2 fs2 where b2: "q2 = JsonRequest b2" "bj_fields J b2 = Some fs2"
    "fst ` set fs2 = fst ` set fs1 - (if enabled then {''service_tier''} else {})" "filtered \<or> b2 = aj_body a" by blast
  have allowed: "fst ` set fs2 \<subseteq> set (bp_allow p)" "''model'' \<in> set (bp_allow p)"
    using b2(3) fs(4) p(2) by (auto simp: body_policy_wf_def)
  show ?thesis
  proof (cases "client_model = upstream_model")
    case True
    then have q3: "q3 = JsonRequest b2" using assms(5) b2(1) by (simp add: rewrite_model_def)
    have names: "fst ` set fs2 = (fst ` set fs \<inter> set (bp_allow p)) - (if enabled then {''service_tier''} else {}) \<union>
      (if client_model = upstream_model then {} else {''model''})" using b2(3) fs(4) True by simp
    have same: "changed \<or> filtered \<or> client_model \<noteq> upstream_model \<or> b2 = b" using fs(5) b2(4) by blast
    have model: "client_model = upstream_model \<or>
        (\<exists>v m. bj_value J b2 = Some v \<and> bj_object J v = Some m \<and> m ''model'' = Some (bj_string J upstream_model))"
      using True ..
    note concl = p(1) fs(1,2) q3 b2(2) allowed(1) names model same
    show ?thesis
      by (rule exI [of _ p], rule exI [of _ fs], rule exI [of _ b2], rule exI [of _ fs2]) (intro conjI concl)
  next
    case False
    obtain b3 fs3 v m where b3: "q3 = JsonRequest b3" "bj_fields J b3 = Some fs3"
      "fst ` set fs3 = insert ''model'' (fst ` set fs2)" "bj_value J b3 = Some v" "bj_object J v = Some m"
      "m ''model'' = Some (bj_string J upstream_model)"
      by (rule json_model_ok [OF assms(2) b2(2) False assms(5) [unfolded b2(1)]])
    then have "\<exists>v m. bj_value J b3 = Some v \<and> bj_object J v = Some m \<and> m ''model'' = Some (bj_string J upstream_model)"
      by blast
    then have model: "client_model = upstream_model \<or>
        (\<exists>v m. bj_value J b3 = Some v \<and> bj_object J v = Some m \<and> m ''model'' = Some (bj_string J upstream_model))" ..
    have sub: "fst ` set fs3 \<subseteq> set (bp_allow p)" using b3(3) allowed by simp
    have names: "fst ` set fs3 = (fst ` set fs \<inter> set (bp_allow p)) - (if enabled then {''service_tier''} else {}) \<union>
      (if client_model = upstream_model then {} else {''model''})" using b3(3) b2(3) fs(4) False by auto
    have same: "changed \<or> filtered \<or> client_model \<noteq> upstream_model \<or> b3 = b" using False by blast
    note concl = p(1) fs(1,2) b3(1,2) sub names model same
    show ?thesis
      by (rule exI [of _ p], rule exI [of _ fs], rule exI [of _ b3], rule exI [of _ fs3]) (intro conjI concl)
  qed
qed

section \<open>Forms sent upstream\<close>

text \<open>The text of a form: its parts, each with its boundary line, headers and data, and the closing boundary.\<close>

definition part_text :: "string \<Rightarrow> multipart_part \<Rightarrow> u8 list" where
  "part_text boundary p =
     [DASH, DASH] @ as_bytes boundary @ [CR, LF] @
     concat (map (\<lambda>(n, v). as_bytes n @ as_bytes '': '' @ as_bytes v @ [CR, LF]) (mp_headers p)) @ [CR, LF] @
     part_bytes p @ [CR, LF]"

definition form_text :: "string \<Rightarrow> multipart_part list \<Rightarrow> u8 list" where
  "form_text boundary ps =
     concat (map (part_text boundary) ps) @ [DASH, DASH] @ as_bytes boundary @ [DASH, DASH, CR, LF]"

text \<open>A part with the upstream model in the place of the client's.\<close>

definition with_model :: "string \<Rightarrow> multipart_part \<Rightarrow> multipart_part" where
  "with_model model p =
     (if named ''model'' p
      then p\<lparr>mp_headers := filter (\<lambda>h. \<not> is_stale_rebuilt_part_header (fst h)) (mp_headers p), mp_data := [Some (as_bytes model)]\<rparr>
      else p)"

text \<open>The parser is a function of the bytes: from a beginning of the same content, in whatever chunks, it reports a
  failure or yields the same parts.\<close>

definition same_part :: "multipart_part \<Rightarrow> multipart_part \<Rightarrow> bool" where
  "same_part q p \<longleftrightarrow>
     mp_name q = mp_name p \<and> mp_headers q = mp_headers p \<and> None \<notin> set (mp_data q) \<and> part_bytes q = part_bytes p"

definition reparses :: "multipart_parser \<Rightarrow> u8 list \<Rightarrow> u8 list \<Rightarrow> multipart_part list \<Rightarrow> bool" where
  "reparses parse boundary content ps \<longleftrightarrow>
     (\<forall>cs e. prefix (concat cs) content \<longrightarrow>
        None \<in> set (parse boundary (cs, e)) \<or> (\<exists>qs. parse boundary (cs, e) = map Some qs \<and> list_all2 same_part qs ps))"

lemma file_chunks_prefix:
  "prefix (concat (map the (takeWhile (\<lambda>c. c \<noteq> None) (file_chunks reads k content)))) content"
proof (induction reads k content rule: file_chunks.induct)
  case (1 reads k content)
  show ?case
  proof (cases "content = [] \<or> reads k = None")
    case True
    then show ?thesis by (subst file_chunks.simps) (auto split: option.splits)
  next
    case False
    then obtain n where n: "reads k = Some n" by auto
    define n' where "n' = max 1 (min n BODY_READ_CHUNK_BYTES)"
    have eq: "file_chunks reads k content = Some (take n' content) # file_chunks reads (k + 1) (drop n' content)"
      using False n by (subst file_chunks.simps) (simp add: n'_def Let_def)
    let ?rest = "concat (map the (takeWhile (\<lambda>c. c \<noteq> None) (file_chunks reads (k + 1) (drop n' content))))"
    have "prefix ?rest (drop n' content)" using 1 [OF _ n n'_def] False by blast
    then have "prefix (take n' content @ ?rest) (take n' content @ drop n' content)" by (simp only: same_prefix_prefix)
    then have "prefix (take n' content @ ?rest) content" by (simp only: append_take_drop_id)
    then show ?thesis unfolding eq by simp
  qed
qed

lemma replay_prefix:
  assumes "replay_stream reads body w = (Inr cs, w')"
  shows "prefix (concat (map the (takeWhile (\<lambda>c. c \<noteq> None) cs))) (body_content body)"
proof (cases body)
  case (MemoryBody b)
  have tw: "takeWhile (\<lambda>c. c \<noteq> None) (map Some xs) = map Some xs" for xs :: "u8 list list" by (induction xs) auto
  have cs: "cs = map Some (chunks_of BODY_READ_CHUNK_BYTES b)" using assms MemoryBody by (simp add: replay_stream_def)
  show ?thesis unfolding cs tw MemoryBody by (simp add: comp_def)
next
  case (TempFileBody b n len)
  then show ?thesis using assms file_chunks_prefix by (auto simp: replay_stream_def io_call_def Let_def split: if_splits)
qed

text \<open>The pieces written for a form.\<close>

lemma map_the_Some [simp]: "map the (map Some xs) = xs"
  by (simp add: comp_def)

lemma header_lines_text:
  "concat (concat (map header_line hs)) = concat (map (\<lambda>(n, v). as_bytes n @ as_bytes '': '' @ as_bytes v @ [CR, LF]) hs)"
  by (induction hs) (auto simp: header_line_def)

lemma drained_ok: "None \<notin> set (mp_data q) \<Longrightarrow> drained q = []"
  by (simp add: drained_def)

lemma part_pieces_text:
  assumes "same_part q p" and "mp_name p = Some n"
  shows "None \<notin> set (part_pieces ignored boundary model q)"
    and "concat (map the (part_pieces ignored boundary model q)) =
      (if contains_sorted ignored n then [] else part_text boundary (with_model model p))"
proof -
  have q: "mp_name q = Some n" "mp_headers q = mp_headers p" "None \<notin> set (mp_data q)"
    "concat (map the (mp_data q)) = part_bytes p"
    using assms by (auto simp: same_part_def part_bytes_def)
  show "None \<notin> set (part_pieces ignored boundary model q)"
    using q by (auto simp: part_pieces_def drained_ok Let_def)
  show "concat (map the (part_pieces ignored boundary model q)) =
      (if contains_sorted ignored n then [] else part_text boundary (with_model model p))"
  proof (cases "n = ''model''")
    case True
    then show ?thesis
      using q assms(2) by (simp add: part_pieces_def drained_ok Let_def part_text_def with_model_def named_def header_lines_text part_bytes_def)
  next
    case False
    then show ?thesis
      using q assms(2) by (simp add: part_pieces_def drained_ok Let_def part_text_def with_model_def named_def header_lines_text part_bytes_def)
  qed
qed

lemma rebuild_pieces_text:
  assumes "list_all2 same_part qs ps" and "\<forall>p \<in> set ps. mp_name p \<noteq> None"
  shows "None \<notin> set (rebuild_pieces ignored boundary model (map Some qs))"
    and "concat (map the (rebuild_pieces ignored boundary model (map Some qs))) =
      form_text boundary (map (with_model model) (filter (\<lambda>p. \<not> contains_sorted ignored (the (mp_name p))) ps))"
proof -
  have "None \<notin> set (concat (map (part_pieces ignored boundary model) qs)) \<and>
      concat (map the (concat (map (part_pieces ignored boundary model) qs))) =
      concat (map (part_text boundary) (map (with_model model) (filter (\<lambda>p. \<not> contains_sorted ignored (the (mp_name p))) ps)))"
    using assms
  proof (induction qs ps rule: list_all2_induct)
    case (Cons q qs p ps)
    then obtain n where n: "mp_name p = Some n" by auto
    note pp = part_pieces_text [OF Cons(1) n, of ignored boundary model]
    show ?case using Cons(3,4) pp n by auto
  qed simp
  then show "None \<notin> set (rebuild_pieces ignored boundary model (map Some qs))"
    "concat (map the (rebuild_pieces ignored boundary model (map Some qs))) =
      form_text boundary (map (with_model model) (filter (\<lambda>p. \<not> contains_sorted ignored (the (mp_name p))) ps))"
    by (auto simp: rebuild_pieces_def form_text_def comp_def)
qed

lemma images_edit_policy:
  assumes "validate_contract H c = Inr ()"
  obtains p where "interface_policy c ImagesEditInterface = Some p" "body_policy_wf p"
    "{''image'', ''image[]'', ''mask''} \<subseteq> set (bp_allow p)"
proof -
  obtain p where p: "interface_policy c ImagesEditInterface = Some p" "body_policy_wf p"
    using validate_contract_body [OF assms] by blast
  have "validate_interface c ImagesEditInterface = Inr ()" using assms by (simp add: validate_contract_def)
  then show ?thesis
    using p that by (auto simp: validate_interface_def contains_sorted_iff body_policy_wf_def)
qed

lemma disposition_Inr:
  assumes "interface_policy c i = Some p" and "body_policy_wf p" and "body_field_disposition c layer i f v = Some (Inr d)"
  shows "f \<in> set (bp_allow p) \<and> d = AllowField \<or> f \<notin> set (bp_allow p) \<and> f \<in> fst ` set (bp_ignore p) \<and> d = IgnoreField"
proof -
  have "field_verdict layer i p f v = Inr d"
    using assms by (simp add: body_field_disposition_def field_disposition_verdict)
  then show ?thesis
    by (auto simp: field_verdict_def split: if_splits option.splits dest!: hm_get_SomeD intro: rev_image_eqI)
qed

lemma ignore_texts_ok:
  assumes "interface_policy c i = Some p" and "body_policy_wf p"
  shows "ignore_texts c str layer i fs (ret, ign, ch) = Some (Inr (ret', ign', ch')) \<Longrightarrow>
    fst ` set fs \<subseteq> set (bp_allow p) \<union> fst ` set (bp_ignore p) \<and> ign' = ign \<union> (fst ` set fs - set (bp_allow p)) \<and>
    (ch' \<longleftrightarrow> ch \<or> \<not> fst ` set fs \<subseteq> set (bp_allow p))"
proof (induction fs arbitrary: ret ign ch)
  case (Cons x fs)
  obtain n v where x: "x = (n, v)" by force
  obtain d where d: "body_field_disposition c layer i n (if from_utf8 (map unat v) = None then None else Some (str (from_bytes v))) =
      Some (Inr d)"
    using Cons.prems x by (auto split: bind_splits sum.splits)
  from disposition_Inr [OF assms d] show ?case
  proof
    assume n: "n \<in> set (bp_allow p) \<and> d = AllowField"
    then have "ignore_texts c str layer i fs (ret @ [(n, v)], ign, ch) = Some (Inr (ret', ign', ch'))"
      using Cons.prems x d by simp
    from Cons.IH [OF this] show ?thesis using n x by auto
  next
    assume n: "n \<notin> set (bp_allow p) \<and> n \<in> fst ` set (bp_ignore p) \<and> d = IgnoreField"
    then have "ignore_texts c str layer i fs (ret, insert n ign, True) = Some (Inr (ret', ign', ch'))"
      using Cons.prems x d by simp
    from Cons.IH [OF this] show ?thesis using n x by auto
  qed
qed simp

lemma ignore_file_allowed:
  assumes "interface_policy c i = Some p" and "body_policy_wf p" and "f \<in> set (bp_allow p)"
  shows "ignore_file c layer i f present st = Some (Inr st)"
proof -
  have "body_field_disposition c layer i f None = Some (Inr AllowField)"
    using assms by (simp add: body_field_disposition_def field_disposition_verdict field_verdict_def)
  then show ?thesis by (simp add: ignore_file_def)
qed

lemma field_policy_ok:
  assumes "interface_policy c i = Some p" and "body_policy_wf p" and "{''image'', ''image[]'', ''mask''} \<subseteq> set (bp_allow p)"
    and "ie_ignored_part_fields e = []" and "apply_field_policy c str layer i e = Some (Inr (e1, ch))"
  shows "fst ` set (ie_text_fields e) \<subseteq> set (bp_allow p) \<union> fst ` set (bp_ignore p) \<and>
    ie_ignored_part_fields e1 = sorted_list_of_set (fst ` set (ie_text_fields e) - set (bp_allow p)) \<and>
    ie_body e1 = ie_body e \<and> ie_boundary e1 = ie_boundary e \<and> ie_model e1 = ie_model e \<and>
    ie_wire_model e1 = ie_wire_model e"
proof -
  have img: "ignore_file c layer i ''image'' b st = Some (Inr st)" and msk: "ignore_file c layer i ''mask'' b st = Some (Inr st)"
    for b st
    using ignore_file_allowed [OF assms(1,2)] assms(3) by blast+
  obtain z where z: "ignore_texts c str layer i (ie_text_fields e) ([], {}, False) = Some z"
    using assms(4,5) unfolding apply_field_policy_def img msk by auto
  then obtain ret ign ch' where zr: "z = Inr (ret, ign, ch')"
    using assms(4,5) unfolding apply_field_policy_def img msk by (cases z) auto
  note t = z [unfolded zr]
  have e1: "e1 = (if ch' then e\<lparr>ie_text_fields := ret, ie_ignored_part_fields := sorted_list_of_set ign\<rparr> else e)"
    using assms(4,5) t unfolding apply_field_policy_def img msk by (cases ch') auto
  note it = ignore_texts_ok [OF assms(1,2) t]
  show ?thesis
  proof (cases ch')
    case True
    then show ?thesis using it e1 by simp
  next
    case False
    then have empty: "fst ` set (ie_text_fields e) - set (bp_allow p) = {}" using it by blast
    show ?thesis unfolding empty using it e1 False assms(4) by simp
  qed
qed

text \<open>A form of a captured body: the name of a part decides whether it is ignored.\<close>

lemma ignored_iff:
  assumes "form_of_parts ep ps e" and "{''image'', ''image[]'', ''mask''} \<subseteq> set (bp_allow p)" and "x \<in> set ps"
  shows "contains_sorted (sorted_list_of_set (fst ` set (ie_text_fields e) - set (bp_allow p))) (the (mp_name x)) \<longleftrightarrow>
    the (mp_name x) \<notin> set (bp_allow p)"
proof -
  have x: "part_ok (ep_max_file_bytes ep) x" and tf: "ie_text_fields e = text_fields_of ps"
    using assms(1,3) by (auto simp: form_of_parts_def)
  have "the (mp_name x) \<in> fst ` set (ie_text_fields e)" if "the (mp_name x) \<notin> set (bp_allow p)"
  proof -
    have "is_text_part x"
      using x that assms(2) by (auto simp: part_ok_def is_image_part_def named_def split: if_splits)
    then show ?thesis using assms(3) tf by (force simp: text_fields_of_def)
  qed
  moreover have "sorted_wrt (<) (sorted_list_of_set (fst ` set (ie_text_fields e) - set (bp_allow p)))"
    by (rule strict_sorted_list_of_set)
  ultimately show ?thesis by (auto simp: contains_sorted_iff)
qed

lemma rebuild_ok:
  assumes "form_of_parts ep ps e" and "reparses parse (as_bytes (ie_boundary e)) (body_content (ie_body e)) ps"
    and "{''image'', ''image[]'', ''mask''} \<subseteq> set (bp_allow p)" and "''model'' \<in> set (bp_allow p)"
    and "ie_body e1 = ie_body e" and "ie_boundary e1 = ie_boundary e"
    and "ie_ignored_part_fields e1 = sorted_list_of_set (fst ` set (ie_text_fields e) - set (bp_allow p))"
    and "rebuild_parts parse reads e1 w = (r, w')"
  shows "case r of
      Inl err \<Rightarrow> active w' = active w
    | Inr b \<Rightarrow>
        body_content b = form_text (ie_boundary e)
          (map (with_model (ie_model e1)) (filter (\<lambda>x. the (mp_name x) \<in> set (bp_allow p)) ps)) \<and>
        active w' = plus2 (active w) (body_held b)"
proof -
  obtain r1 w1 where rs: "replay_stream reads (ie_body e) w = (r1, w1)" by force
  note ro = replay_stream_ok [OF rs]
  show ?thesis
  proof (cases r1)
    case (Inl err)
    then show ?thesis using assms(5,8) rs ro by (auto simp: rebuild_parts_def)
  next
    case (Inr chunks)
    let ?ign = "sorted_list_of_set (fst ` set (ie_text_fields e) - set (bp_allow p))"
    define parts where "parts = parse (as_bytes (ie_boundary e))
      (map the (takeWhile (\<lambda>c. c \<noteq> None) chunks), if None \<in> set chunks then Inl ReadFailed else Inr ())"
    define pieces where "pieces = rebuild_pieces ?ign (ie_boundary e) (ie_model e1) parts"
    define wr0 where "wr0 = writer_new (ep_memory_bytes (ie_policy e1))
      (min usize_max (min usize_max (replayable_len (ie_body e) + length (ie_model e1)) + REBUILT_BODY_OVERHEAD_BYTES))"
    obtain r2 w2 where wp: "write_pieces MalformedMultipart pieces wr0 w1 = (r2, w2)" by force
    have res: "(r, w') = (case r2 of Inl err \<Rightarrow> (Inl err, w2)
        | Inr wr \<Rightarrow> if is_replaced ?ign parts then writer_finish wr w2 else (Inl MalformedMultipart, drop_writer wr w2))"
    proof -
      have "rebuild_parts parse reads e1 w = (case write_pieces MalformedMultipart pieces wr0 w1 of
          (Inl err, w2) \<Rightarrow> (Inl err, w2)
        | (Inr wr, w2) \<Rightarrow> if is_replaced ?ign parts then writer_finish wr w2 else (Inl MalformedMultipart, drop_writer wr w2))"
        unfolding rebuild_parts_def assms(5-7) rs Inr Let_def prod.case sum.case parts_def pieces_def wr0_def ..
      then show ?thesis using assms(8) unfolding wp by (cases r2) simp_all
    qed
    have holds: "writer_holds (active w) [] wr0 w1"
      using writer_new_holds [of w1] ro by (simp add: wr0_def)
    note po = write_pieces_ok [OF holds wp]
    show ?thesis
    proof (cases r2)
      case (Inl err)
      then show ?thesis using res po by simp
    next
      case wr: (Inr wr)
      have none: "None \<notin> set pieces" and written: "writer_holds (active w) (concat (map the pieces)) wr w2"
        using po wr by auto
      have "None \<notin> set parts"
      proof
        assume "None \<in> set parts"
        then have "None \<in> set pieces" unfolding pieces_def rebuild_pieces_def by force
        then show False using none by blast
      qed
      then obtain qs where qs: "parts = map Some qs" "list_all2 same_part qs ps"
        using assms(2) replay_prefix [OF rs [unfolded Inr]] unfolding reparses_def parts_def by blast
      have named: "\<forall>x \<in> set ps. mp_name x \<noteq> None" using assms(1) by (auto simp: form_of_parts_def part_ok_def)
      have "filter (\<lambda>x. \<not> contains_sorted ?ign (the (mp_name x))) ps = filter (\<lambda>x. the (mp_name x) \<in> set (bp_allow p)) ps"
        using ignored_iff [OF assms(1,3)] by (intro filter_cong) auto
      then have content: "concat (map the pieces) = form_text (ie_boundary e)
          (map (with_model (ie_model e1)) (filter (\<lambda>x. the (mp_name x) \<in> set (bp_allow p)) ps))"
        using rebuild_pieces_text(2) [OF qs(2) named, of ?ign "ie_boundary e" "ie_model e1"]
        unfolding pieces_def qs(1) by simp
      show ?thesis
      proof (cases "is_replaced ?ign parts")
        case True
        then have fin: "writer_finish wr w2 = (r, w')" using res wr by simp
        show ?thesis using writer_finish_ok [OF written fin] content by (auto split: sum.splits)
      next
        case False
        have "writer_balanced (active w) wr w2" using written by (simp add: writer_holds_def writer_balanced_def)
        then show ?thesis using res wr False drop_writer_balanced by simp
      qed
    qed
  qed
qed

text \<open>C39. An image edit form is sent upstream part by part as the contract says: every part of a captured form is allowed
  or ignored, and what is sent is the captured body itself, if nothing is ignored and the model is not rewritten, and
  otherwise the form of exactly the allowed parts in their order, byte for byte, with the upstream model as the only
  change. A failure leaves the counters of temporary files as they were.\<close>

theorem sent_form_is_exact:
  assumes "validate_contract H c = Inr ()" and "form_of_parts ep ps e"
    and "reparses parse (as_bytes (ie_boundary e)) (body_content (ie_body e)) ps"
    and "apply_policy c J layer ImagesEditInterface (ImageEditRequest e) = Some (Inr (q1, changed))"
    and "rewrite_model J (ie_model e) upstream_model q1 = Inr q2"
    and "into_openai_replayable parse reads q2 w = (r, w')"
  shows "\<exists>p. interface_policy c ImagesEditInterface = Some p \<and>
    (\<forall>x \<in> set ps. the (mp_name x) \<in> set (bp_allow p) \<union> fst ` set (bp_ignore p)) \<and>
    (case r of
       Inl err \<Rightarrow> active w' = active w
     | Inr b \<Rightarrow>
         if upstream_model = ie_model e \<and> (\<forall>x \<in> set ps. the (mp_name x) \<in> set (bp_allow p)) then b = ie_body e \<and> w' = w
         else
           body_content b = form_text (ie_boundary e)
             (map (with_model upstream_model) (filter (\<lambda>x. the (mp_name x) \<in> set (bp_allow p)) ps)) \<and>
           active w' = plus2 (active w) (body_held b))"
proof -
  obtain p where p: "interface_policy c ImagesEditInterface = Some p" "body_policy_wf p"
    "{''image'', ''image[]'', ''mask''} \<subseteq> set (bp_allow p)" by (rule images_edit_policy [OF assms(1)])
  have model: "''model'' \<in> set (bp_allow p)" using p(2) by (simp add: body_policy_wf_def)
  have e: "ie_ignored_part_fields e = []" "ie_wire_model e = ie_model e" "ie_text_fields e = text_fields_of ps"
    using assms(2) by (auto simp: form_of_parts_def)
  obtain e1 where e1: "apply_field_policy c (bj_string J) layer ImagesEditInterface e = Some (Inr (e1, changed))"
    "q1 = ImageEditRequest e1"
    using assms(4) by (auto simp: apply_policy_def map_sum_Inr_iff)
  note fp = field_policy_ok [OF p e(1) e1(1)]
  obtain e2 where e2: "q2 = ImageEditRequest e2" "ie_body e2 = ie_body e" "ie_boundary e2 = ie_boundary e"
    "ie_wire_model e2 = ie_model e" "ie_model e2 = upstream_model"
    "ie_ignored_part_fields e2 = sorted_list_of_set (fst ` set (ie_text_fields e) - set (bp_allow p))"
    using assms(5) e1(2) fp e(2)
    by (auto simp: rewrite_model_def map_sum_Inr_iff image_rewrite_model_def split: if_splits)
  have parts: "the (mp_name x) \<in> set (bp_allow p) \<union> fst ` set (bp_ignore p)" if "x \<in> set ps" for x
  proof (cases "the (mp_name x) \<in> set (bp_allow p)")
    case False
    then have "contains_sorted (ie_ignored_part_fields e2) (the (mp_name x))"
      using ignored_iff [OF assms(2) p(3) that] e2(6) by simp
    then have "the (mp_name x) \<in> fst ` set (ie_text_fields e)"
      using strict_sorted_list_of_set [of "fst ` set (ie_text_fields e) - set (bp_allow p)"] by (auto simp: e2(6) contains_sorted_iff)
    then show ?thesis using fp by blast
  qed simp
  have kept_all: "ie_ignored_part_fields e2 = [] \<longleftrightarrow> (\<forall>x \<in> set ps. the (mp_name x) \<in> set (bp_allow p))"
  proof
    assume "ie_ignored_part_fields e2 = []"
    then show "\<forall>x \<in> set ps. the (mp_name x) \<in> set (bp_allow p)"
      using ignored_iff [OF assms(2) p(3)] e2(6) by (simp add: contains_sorted_def)
  next
    assume "\<forall>x \<in> set ps. the (mp_name x) \<in> set (bp_allow p)"
    then have empty: "fst ` set (ie_text_fields e) - set (bp_allow p) = {}" by (auto simp: e(3) text_fields_of_def)
    show "ie_ignored_part_fields e2 = []" unfolding e2(6) empty by simp
  qed
  have out: "image_into_openai_replayable parse reads e2 w = (r, w')"
    using assms(6) e2(1) by (simp add: into_openai_replayable_def)
  show ?thesis
  proof (cases "upstream_model = ie_model e \<and> (\<forall>x \<in> set ps. the (mp_name x) \<in> set (bp_allow p))")
    case True
    then have "ie_ignored_part_fields e2 = []" using kept_all by blast
    then have "(r, w') = (Inr (ie_body e), w)" using out e2(2,4,5) True by (simp add: image_into_openai_replayable_def)
    then show ?thesis using p(1) parts True by (intro exI [of _ p]) simp
  next
    case False
    then have "rebuild_parts parse reads e2 w = (r, w')"
      using out kept_all e2(4,5) by (auto simp: image_into_openai_replayable_def split: if_splits)
    from rebuild_ok [OF assms(2,3) p(3) model e2(2,3,6) this] show ?thesis
      using p(1) parts False unfolding e2(5) by (intro exI [of _ p]) (auto split: sum.splits)
  qed
qed

section \<open>Instances\<close>

subsection \<open>JSON\<close>

datatype sample_json = SampleText string | SampleObject "(string \<times> sample_json) list"

fun sample_object :: "sample_json \<Rightarrow> (string \<rightharpoonup> sample_json) option" where
  "sample_object (SampleText s) = None"
| "sample_object (SampleObject kvs) = Some (map_of kvs)"

fun sample_remove :: "string \<Rightarrow> sample_json \<Rightarrow> sample_json" where
  "sample_remove k (SampleText s) = SampleText s"
| "sample_remove k (SampleObject kvs) = SampleObject (filter (\<lambda>(n, v). n \<noteq> k) kvs)"

fun sample_insert :: "string \<Rightarrow> sample_json \<Rightarrow> sample_json \<Rightarrow> sample_json" where
  "sample_insert k x (SampleText s) = SampleText s"
| "sample_insert k x (SampleObject kvs) = SampleObject ((k, x) # filter (\<lambda>(n, v). n \<noteq> k) kvs)"

text \<open>Three bodies: with model and tier, without the tier, and with the upstream model.\<close>

definition sample_bodies :: "(u8 list \<times> (string \<times> sample_json) list) list" where
  "sample_bodies =
     [([0], [(''model'', SampleText ''small''), (''service_tier'', SampleText ''priority'')]),
      ([1], [(''model'', SampleText ''small'')]),
      ([2], [(''model'', SampleText ''large'')])]"

definition sample_body_json :: "(sample_json, sample_json) body_json" where
  "sample_body_json =
     \<lparr>bj_fields = map_of sample_bodies, bj_from_raw = Some, bj_value = (\<lambda>b. map_option SampleObject (map_of sample_bodies b)),
      bj_object = sample_object, bj_remove = sample_remove, bj_insert = sample_insert, bj_string = SampleText,
      bj_to_vec = (\<lambda>v. map_of (map (\<lambda>(b, kvs). (SampleObject kvs, b)) sample_bodies) v)\<rparr>"

lemma map_of_filter_name: "map_of (filter (\<lambda>(n, v). n \<noteq> k) kvs) = (map_of kvs)(k := None)"
  by (induction kvs) (auto simp: fun_eq_iff)

lemma sample_to_vec:
  assumes "map_of (map (\<lambda>(b, kvs). (SampleObject kvs, b)) sample_bodies) v = Some b"
  shows "\<exists>kvs. v = SampleObject kvs \<and> map_of sample_bodies b = Some kvs"
  using assms by (auto simp: sample_bodies_def split: if_splits)

lemma sample_body_json_laws: "body_json_laws sample_body_json"
proof -
  have members: "\<exists>m. sample_object (SampleObject fs) = Some m \<and> dom m = fst ` set fs" for fs
    by (simp add: dom_map_of_conv_image_fst)
  have removed: "sample_object (sample_remove k v) = Some (m(k := None))" if "sample_object v = Some m" for v m k
    using that by (cases v) (auto simp: map_of_filter_name)
  have inserted: "sample_object (sample_insert k x v) = Some (m(k \<mapsto> x))" if "sample_object v = Some m" for v m k x
    using that by (cases v) (auto simp: map_of_filter_name)
  have written: "\<exists>fs v' m'. map_of sample_bodies b = Some fs \<and> fst ` set fs = dom m \<and>
      map_option SampleObject (map_of sample_bodies b) = Some v' \<and> sample_object v' = Some m' \<and>
      (\<forall>k s. m k = Some (SampleText s) \<longrightarrow> m' k = Some (SampleText s))"
    if v: "sample_object v = Some m"
      and b: "map_of (map (\<lambda>(b, kvs). (SampleObject kvs, b)) sample_bodies) v = Some b" for v m b
  proof -
    obtain kvs where "v = SampleObject kvs" "map_of sample_bodies b = Some kvs" using sample_to_vec [OF b] by blast
    then show ?thesis using v dom_map_of_conv_image_fst [of kvs] by simp
  qed
  show ?thesis
    unfolding body_json_laws_def
    using members removed inserted written by (auto simp: sample_body_json_def)
qed

abbreviation body_contract :: "sample_json request_policy_contract" where
  "body_contract \<equiv> embedded_contract SampleText"

lemma body_contract_valid: "validate_contract sample_http body_contract = Inr ()"
  by (rule embedded_contract_valid [OF sample_http_laws])

lemma body_contract_policy:
  "interface_policy body_contract ChatCompletionsInterface = Some (embedded_chat_completions SampleText)"
  "interface_policy body_contract ImagesEditInterface = Some (embedded_images_edit SampleText)"
  by (simp_all add: interface_policy_def embedded_contract_def hm_get_def)

lemma body_contract_wf:
  "body_policy_wf (embedded_chat_completions SampleText)" "body_policy_wf (embedded_images_edit SampleText)"
  using validate_contract_body [OF body_contract_valid, of ChatCompletionsInterface]
    validate_contract_body [OF body_contract_valid, of ImagesEditInterface] by (simp_all add: body_contract_policy)

lemma allowed_verdict:
  assumes "body_policy_wf p" and "f \<in> set (bp_allow p)"
  shows "field_disposition_for_policy layer i p f v = Inr AllowField"
  using assms by (simp add: field_disposition_verdict field_verdict_def)

lemma chat_allows: "{''model'', ''service_tier''} \<subseteq> set (bp_allow (embedded_chat_completions SampleText))"
  by (simp add: embedded_chat_completions_def)

lemma chat_ignores: "bp_ignore (embedded_chat_completions SampleText) = []"
  by (simp add: embedded_chat_completions_def)

lemma sample_policy:
  "apply_policy body_contract sample_body_json ClientLayer ChatCompletionsInterface (JsonRequest [0]) =
     Some (Inr (JsonRequest [0], False))"
proof -
  have "field_disposition_for_policy layer i (embedded_chat_completions SampleText) ''model'' v = Inr AllowField"
    "field_disposition_for_policy layer i (embedded_chat_completions SampleText) ''service_tier'' v = Inr AllowField" for layer i v
    using chat_allows by (simp_all add: allowed_verdict [OF body_contract_wf(1)])
  moreover have "bj_fields sample_body_json [0] =
      Some [(''model'', SampleText ''small''), (''service_tier'', SampleText ''priority'')]"
    by (simp add: sample_body_json_def sample_bodies_def)
  ultimately show ?thesis
    by (simp add: apply_policy_def apply_json_body_policy_def body_contract_policy inspected_value_def chat_ignores)
qed

lemma sample_filter:
  "filter_fast_mode sample_body_json True ChatCompletionsInterface (JsonRequest [0]) = Inr (JsonRequest [1], True)"
  by (simp add: filter_fast_mode_def apply_client_fast_mode_filter_def sample_body_json_def sample_bodies_def)

lemma sample_rewrite: "rewrite_model sample_body_json ''small'' ''large'' (JsonRequest [1]) = Inr (JsonRequest [2])"
  by (simp add: rewrite_model_def sample_body_json_def sample_bodies_def)

theorem only_allowed_fields_leave_witness:
  "\<exists>fs3. bj_fields sample_body_json [2] = Some fs3 \<and> fst ` set fs3 = {''model''} \<and>
     fst ` set fs3 \<subseteq> set (bp_allow (embedded_chat_completions SampleText))"
  using only_allowed_fields_leave [OF body_contract_valid sample_body_json_laws sample_policy sample_filter sample_rewrite]
  by (auto simp: body_contract_policy sample_body_json_def sample_bodies_def)

subsection \<open>Forms\<close>

definition sample_parts :: "multipart_part list" where
  "sample_parts =
     [\<lparr>mp_name = Some ''model'', mp_file_name = None, mp_headers = [(''a'', ''1'')], mp_data = [Some [109]]\<rparr>,
      \<lparr>mp_name = Some ''image'', mp_file_name = Some ''i'', mp_headers = [(''b'', ''2'')], mp_data = [Some [7, 8]]\<rparr>]"

definition sample_parser :: multipart_parser where
  "sample_parser boundary stream = map Some sample_parts"

definition sample_io :: body_io where
  "sample_io =
     \<lparr>bi_ok = (\<lambda>_. True), bi_calls = 0,
      bi_metrics = \<lparr>sm_active_files = 0, sm_active_bytes = 0, sm_spooled_total = 0, sm_spooled_bytes_total = 0,
        sm_storage_failures_total = 0\<rparr>\<rparr>"

definition sample_form :: image_edit_request_body where
  "sample_form =
     \<lparr>ie_body = MemoryBody [45, 45, 98, 45, 45], ie_boundary = ''b'', ie_content_type = ''multipart/form-data'',
      ie_text_fields = [(''model'', [109])], ie_ignored_part_fields = [], ie_wire_model = ''m'', ie_model = ''m'',
      ie_image_count = 1, ie_image_bytes = 2, ie_mask_count = 0,
      ie_policy = \<lparr>ep_max_body_bytes = 100, ep_max_file_bytes = 100, ep_memory_bytes = 100\<rparr>\<rparr>"

lemma sample_image_allowed:
  "body_field_disposition body_contract ClientLayer ImagesEditInterface ''image'' v = Some (Inr AllowField)"
  "body_field_disposition body_contract ClientLayer ImagesEditInterface ''model'' v = Some (Inr AllowField)"
proof -
  have "{''image'', ''model''} \<subseteq> set (bp_allow (embedded_images_edit SampleText))" by (simp add: embedded_images_edit_def)
  then show
    "body_field_disposition body_contract ClientLayer ImagesEditInterface ''image'' v = Some (Inr AllowField)"
    "body_field_disposition body_contract ClientLayer ImagesEditInterface ''model'' v = Some (Inr AllowField)"
    by (simp_all add: body_field_disposition_def body_contract_policy allowed_verdict [OF body_contract_wf(2)])
qed

lemma char_m: "char_of (109 :: nat) = CHR ''m''"
  by code_simp

lemma sample_inspection:
  "inspect_multipart body_contract 100 (map Some sample_parts) =
     Some (Inr (''m'', \<lparr>mi_field_count = 2, mi_text_fields = [(''model'', [109])], mi_text_bytes = 1, mi_model = Some ''m'',
       mi_image_count = 1, mi_image_bytes = 2, mi_mask_count = 0\<rparr>))"
  by (simp add: inspect_multipart_def sample_parts_def inspection_start_def inspect_part_def inspect_text_def inspect_model_def
      inspect_file_def policy_then_def sample_image_allowed is_image_field_def MAX_MULTIPART_FIELDS_def
      MAX_MULTIPART_FIELD_NAME_BYTES_def MAX_MULTIPART_FILE_NAME_BYTES_def MAX_MULTIPART_TEXT_FIELD_BYTES_def
      MAX_MULTIPART_TEXT_BYTES_def MAX_IMAGE_EDIT_IMAGES_def text_trim_def is_whitespace_def from_bytes_def char_m)

definition sample_form_headers :: header_map where
  "sample_form_headers = [(''content-type'', ''multipart/form-data'')]"

lemma sample_form_guard: "guard_multipart_stream (as_bytes ''b'') [Some [45, 45, 98, 45, 45]] = Some ([[45, 45, 98, 45, 45]], Inr ())"
  by (simp add: as_bytes_def guard_multipart_stream_def validator_new_def matcher_new_def extend_match_def
      fall_back.simps nth_checked_def upt_rec push_byte_def push_suffix_def matcher_push_def matcher_reset_def
      validator_finish_def DASH_def SPACE_def TAB_def CR_def LF_def MAX_MULTIPART_PREAMBLE_BYTES_def)

lemma sample_capture:
  "capture body_contract sample_http (\<lambda>_. Some ''b'') sample_parser (\<lambda>_. None) (ie_policy sample_form) sample_form_headers
     [Some [45, 45], Some [98, 45, 45]] sample_io = Some (Inr sample_form, sample_io)"
proof -
  have written: "write_body Unreadable 100 100 [Some [45, 45], Some [98, 45, 45]] sample_io =
      (Inr (MemoryBody [45, 45, 98, 45, 45]), sample_io)"
    by (simp add: write_body_def writer_new_def writer_write_def usize_max_def writer_finish_def)
  have replayed: "replay_stream (\<lambda>_. None) (MemoryBody [45, 45, 98, 45, 45]) sample_io =
      (Inr [Some [45, 45, 98, 45, 45]], sample_io)"
    by (simp add: replay_stream_def chunks_of.simps [of _ "[45, 45, 98, 45, 45]"] BODY_READ_CHUNK_BYTES_def)
  have head: "\<not> reject_encoded_body sample_http sample_form_headers"
    "form_boundary sample_http (\<lambda>_. Some ''b'') sample_form_headers = Some ''b''"
    "\<not> declared_too_long sample_http 100 sample_form_headers"
    by (simp_all add: reject_encoded_body_def form_boundary_def declared_too_long_def sample_form_headers_def hd_get_all_def
        sample_http_def is_visible_def MAX_MULTIPART_BOUNDARY_BYTES_def)
  show ?thesis
    using head written replayed sample_form_guard sample_inspection
    by (simp add: capture_def sample_form_def sample_parser_def sample_form_headers_def hd_get_all_def)
qed

theorem captured_form_is_exact_witness:
  "capture body_contract sample_http (\<lambda>_. Some ''b'') sample_parser (\<lambda>_. None) (ie_policy sample_form) sample_form_headers
     [Some [45, 45], Some [98, 45, 45]] sample_io = Some (Inr sample_form, sample_io) \<and>
   (\<exists>ps. form_of_parts (ie_policy sample_form) ps sample_form)"
  using captured_form_is_exact [OF body_contract_valid, of "\<lambda>_. Some ''b''" sample_parser "\<lambda>_. None" "ie_policy sample_form"
      sample_form_headers "[Some [45, 45], Some [98, 45, 45]]" sample_io] sample_capture
  by auto

lemma sample_form_of_parts: "form_of_parts (ie_policy sample_form) sample_parts sample_form"
proof -
  have m: "model_text [109]" by (simp add: model_text_def text_trim_def is_whitespace_def)
  show ?thesis
    using m
    by (simp add: form_of_parts_def sample_form_def sample_parts_def part_ok_def is_text_part_def is_image_part_def named_def
        part_bytes_def text_fields_of_def models_of_def from_bytes_def char_m MAX_MULTIPART_FIELDS_def
        MAX_MULTIPART_FIELD_NAME_BYTES_def MAX_MULTIPART_TEXT_FIELD_BYTES_def MAX_MULTIPART_TEXT_BYTES_def
        MAX_IMAGE_EDIT_IMAGES_def MAX_IMAGE_EDIT_MASKS_def)
qed

lemma sample_reparses: "reparses sample_parser b content sample_parts"
proof -
  have "list_all2 same_part sample_parts sample_parts"
    by (simp add: sample_parts_def same_part_def)
  then show ?thesis unfolding reparses_def sample_parser_def by blast
qed

lemma sample_form_policy:
  "apply_policy body_contract sample_body_json ClientLayer ImagesEditInterface (ImageEditRequest sample_form) =
     Some (Inr (ImageEditRequest sample_form, False))"
  by (simp add: apply_policy_def apply_field_policy_def ignore_file_def sample_image_allowed sample_form_def)

lemma sample_form_rewrite:
  "rewrite_model sample_body_json (ie_model sample_form) ''n'' (ImageEditRequest sample_form) =
     Inr (ImageEditRequest (sample_form\<lparr>ie_model := ''n'', ie_text_fields := [(''model'', as_bytes ''n'')]\<rparr>))"
  by (simp add: rewrite_model_def image_rewrite_model_def sample_form_def)

lemma sample_form_sent:
  "\<exists>b. into_openai_replayable sample_parser (\<lambda>_. None)
     (ImageEditRequest (sample_form\<lparr>ie_model := ''n'', ie_text_fields := [(''model'', as_bytes ''n'')]\<rparr>)) sample_io = (Inr b, sample_io)"
  by (simp add: into_openai_replayable_def image_into_openai_replayable_def rebuild_parts_def sample_form_def sample_parser_def
      sample_parts_def replay_stream_def rebuild_pieces_def part_pieces_def drained_def header_line_def is_replaced_def
      contains_sorted_def is_stale_rebuilt_part_header_def as_bytes_def writer_new_def writer_write_def usize_max_def
      REBUILT_BODY_OVERHEAD_BYTES_def writer_finish_def)

theorem sent_form_is_exact_witness:
  "\<exists>b. into_openai_replayable sample_parser (\<lambda>_. None)
     (ImageEditRequest (sample_form\<lparr>ie_model := ''n'', ie_text_fields := [(''model'', as_bytes ''n'')]\<rparr>)) sample_io = (Inr b, sample_io) \<and>
     body_content b = form_text ''b'' (map (with_model ''n'') sample_parts)"
proof -
  obtain b where b: "into_openai_replayable sample_parser (\<lambda>_. None)
     (ImageEditRequest (sample_form\<lparr>ie_model := ''n'', ie_text_fields := [(''model'', as_bytes ''n'')]\<rparr>)) sample_io = (Inr b, sample_io)"
    using sample_form_sent by blast
  have "filter (\<lambda>x. the (mp_name x) \<in> set (bp_allow (embedded_images_edit SampleText))) sample_parts = sample_parts"
    by (simp add: sample_parts_def embedded_images_edit_def)
  moreover have "ie_model sample_form = ''m''" "ie_boundary sample_form = ''b''" by (simp_all add: sample_form_def)
  ultimately show ?thesis
    using sent_form_is_exact [OF body_contract_valid sample_form_of_parts sample_reparses sample_form_policy
        sample_form_rewrite b] b
    by (auto simp: body_contract_policy)
qed

end
