(* ===== verification/Outbound_Headers.thy ===== *)
theory Outbound_Headers
  imports Request_Body
begin

text \<open>
  The headers of a request on their way from the client to the upstream: the credential of a channel of
  \<^verbatim>\<open>src/domain/upstream_credential.rs\<close>, the header plan of
  \<^verbatim>\<open>src/transforms/mod.rs\<close>, the headers a connector adds in
  \<^verbatim>\<open>src/application/connector.rs\<close>, and the order in which
  \<^verbatim>\<open>src/application/proxy.rs\<close> puts them together with the policy of
  \<open>Request_Policy\<close>.

  The connectors are the standard one and a plugin; the headers of the built-in Codex connector are not modelled. What
  a plugin answers is an argument.
\<close>

section \<open>Credentials\<close>

datatype upstream_credential_error =
    InvalidAuth | MissingHeader | InvalidHeader | UnsafeHeader | MissingSecret | BlankSecret | InvalidSecret
  | InvalidCredentialTarget

definition compile_secret :: "http_ops \<Rightarrow> string option \<Rightarrow> upstream_credential_error + string" where
  "compile_secret H value =
     (case value of
        None \<Rightarrow> Inl MissingSecret
      | Some v \<Rightarrow>
          if text_trim (str_chars v) = [] then Inl BlankSecret
          else if ho_header_value H v = None then Inl InvalidSecret
          else Inr v)"

definition unsafe_auth_header :: "'v request_policy_contract \<Rightarrow> string \<Rightarrow> bool" where
  "unsafe_auth_header c n \<longleftrightarrow>
     n \<in> {''authorization'', ''host'', ''content-length'', ''content-encoding'', ''connection'', ''transfer-encoding'',
           ''accept-encoding'', ''proxy-authorization'', ''proxy-authenticate'', ''keep-alive'', ''te'', ''trailer'',
           ''upgrade'', ''proxy-connection''} \<or>
     starts_with n ''sec-websocket-'' \<or> client_header_explicitly_ignored c n"

definition compile_auth ::
  "'v request_policy_contract \<Rightarrow> http_ops \<Rightarrow> string \<Rightarrow> string option \<Rightarrow> string option \<Rightarrow>
   upstream_credential_error + upstream_auth" where
  "compile_auth c H kind header_name secret =
     (if kind = ''none'' \<and> header_name = None \<and> secret = None then Inr NoAuth
      else if kind = ''bearer'' \<and> header_name = None then
        (case compile_secret H secret of Inl err \<Rightarrow> Inl err | Inr s \<Rightarrow> Inr (Bearer s))
      else if kind = ''header'' then
        (case header_name of
           None \<Rightarrow> Inl MissingHeader
         | Some name \<Rightarrow>
             (case ho_header_name H name of
                None \<Rightarrow> Inl InvalidHeader
              | Some n \<Rightarrow>
                  if unsafe_auth_header c n then Inl UnsafeHeader
                  else (case compile_secret H secret of Inl err \<Rightarrow> Inl err | Inr s \<Rightarrow> Inr (HeaderAuth n s))))
      else Inl InvalidAuth)"

section \<open>Header plans\<close>

datatype header_operation = SetHeader string string | RemoveHeader string | RenameHeader string string

datatype header_scope = RequestScope | ResponseScope

fun is_protected_header :: "string \<Rightarrow> header_scope \<Rightarrow> bool" where
  "is_protected_header n RequestScope \<longleftrightarrow> header_is_hop_by_hop n \<or> request_header_is_protected n"
| "is_protected_header n ResponseScope \<longleftrightarrow>
     header_is_hop_by_hop n \<or> n \<in> {''content-length'', ''content-type'', ''set-cookie'', ''content-encoding''}"

definition trim_ascii_bytes :: "string \<Rightarrow> string" where
  "trim_ascii_bytes s =
     (if list_all is_ascii_whitespace s then s
      else rev (dropWhile is_ascii_whitespace (rev (dropWhile is_ascii_whitespace s))))"

definition parse_connection_header_names :: "http_ops \<Rightarrow> string \<Rightarrow> string list" where
  "parse_connection_header_names H v =
     List.map_filter (\<lambda>p. ho_header_name H (trim_ascii_bytes p)) (split_comma v)"

definition connection_names :: "http_ops \<Rightarrow> header_map \<Rightarrow> string set" where
  "connection_names H hs = set (concat (map (parse_connection_header_names H) (hd_get_all hs ''connection'')))"

datatype transform_apply_error =
    ProtectedHeader | InvalidJsonBody | InvalidJsonPointer | PatchFailed | SerializationFailed | SseFrameTooLarge

text \<open>The check that \<open>ensure_runtime_header_allowed\<close> makes.\<close>

definition runtime_header_allowed :: "string \<Rightarrow> string set \<Rightarrow> header_scope \<Rightarrow> bool" where
  "runtime_header_allowed n names scope \<longleftrightarrow> \<not> (is_protected_header n scope \<or> n \<in> names)"

definition rename_header :: "string \<Rightarrow> string \<Rightarrow> header_map \<Rightarrow> header_map" where
  "rename_header from to hs =
     (let values = hd_get_all hs from
      in if values = [] then hs else hd_remove from hs @ map (Pair to) values)"

fun apply_header_operations ::
  "header_scope \<Rightarrow> string set \<Rightarrow> header_operation list \<Rightarrow> header_map \<Rightarrow> transform_apply_error + header_map" where
  "apply_header_operations scope names [] hs = Inr hs"
| "apply_header_operations scope names (SetHeader n v # ops) hs =
     (if runtime_header_allowed n names scope then apply_header_operations scope names ops (hd_insert n v hs)
      else Inl ProtectedHeader)"
| "apply_header_operations scope names (RemoveHeader n # ops) hs =
     (if runtime_header_allowed n names scope then apply_header_operations scope names ops (hd_remove n hs)
      else Inl ProtectedHeader)"
| "apply_header_operations scope names (RenameHeader from to # ops) hs =
     (if runtime_header_allowed from names scope \<and> runtime_header_allowed to names scope
      then apply_header_operations scope names ops (rename_header from to hs)
      else Inl ProtectedHeader)"

definition apply_header_plan_in_scope ::
  "http_ops \<Rightarrow> header_scope \<Rightarrow> header_operation list \<Rightarrow> header_map \<Rightarrow> transform_apply_error + header_map" where
  "apply_header_plan_in_scope H scope plan hs = apply_header_operations scope (connection_names H hs) plan hs"

section \<open>Forwarding\<close>

definition is_hop_by_hop :: "string \<Rightarrow> string set \<Rightarrow> bool" where
  "is_hop_by_hop n names \<longleftrightarrow> n \<in> names \<or> header_is_hop_by_hop n"

definition forward_headers :: "'v request_policy_contract \<Rightarrow> http_ops \<Rightarrow> header_map \<Rightarrow> bool \<Rightarrow> header_map" where
  "forward_headers c H hs request =
     (let names = connection_names H hs
      in filter (\<lambda>(n, v).
           \<not> (is_hop_by_hop n names \<or>
              request \<and>
                (n \<in> {''host'', ''content-length'', ''authorization'', ''proxy-authorization'', ''accept-encoding''} \<or>
                 client_header_explicitly_ignored c n))) hs)"

definition forward_request_headers :: "'v request_policy_contract \<Rightarrow> http_ops \<Rightarrow> header_map \<Rightarrow> header_map" where
  "forward_request_headers c H hs = forward_headers c H hs True"

definition remove_rewritten_request_entity_headers :: "header_map \<Rightarrow> header_map" where
  "remove_rewritten_request_entity_headers hs =
     fold hd_remove
       [''content-encoding'', ''content-md5'', ''digest'', ''content-digest'', ''repr-digest'', ''etag'', ''last-modified''] hs"

section \<open>Connectors\<close>

text \<open>A client error carries its message, parameter and code.\<close>

datatype connector_attempt_error =
    ClientRequest string string string | RequestBody image_edit_body_error | InvalidTarget | InvalidCredentials

definition inject_standard_auth ::
  "http_ops \<Rightarrow> upstream_auth \<Rightarrow> header_map \<Rightarrow> connector_attempt_error + header_map" where
  "inject_standard_auth H auth hs =
     (case auth of
        NoAuth \<Rightarrow> Inr hs
      | Bearer token \<Rightarrow>
          (case ho_header_value H (''Bearer '' @ token) of
             None \<Rightarrow> Inl InvalidCredentials | Some v \<Rightarrow> Inr (hd_insert ''authorization'' v hs))
      | HeaderAuth n value \<Rightarrow>
          (case ho_header_value H value of
             None \<Rightarrow> Inl InvalidCredentials | Some v \<Rightarrow> Inr (hd_insert n v hs)))"

text \<open>The answer of a plugin: the members \<^verbatim>\<open>remove\<close> and \<^verbatim>\<open>set\<close>,
  \<open>None\<close> where they do not have the expected JSON type.\<close>

record plugin_header_plan =
  pl_remove :: "string option list option"
  pl_set :: "(string \<times> string option) list option"

fun plugin_removals ::
  "http_ops \<Rightarrow> string option list \<Rightarrow> header_map \<Rightarrow> connector_attempt_error + header_map" where
  "plugin_removals H [] hs = Inr hs"
| "plugin_removals H (name # names) hs =
     (case Option.bind name (ho_header_name H) of
        None \<Rightarrow> Inl InvalidCredentials
      | Some n \<Rightarrow> plugin_removals H names (hd_remove n hs))"

fun plugin_sets ::
  "'v request_policy_contract \<Rightarrow> http_ops \<Rightarrow> (string \<times> string option) list \<Rightarrow> string set \<Rightarrow> header_map \<Rightarrow>
   connector_attempt_error + header_map" where
  "plugin_sets c H [] seen hs = Inr hs"
| "plugin_sets c H ((name, value) # rest) seen hs =
     (case ho_header_name H name of
        None \<Rightarrow> Inl InvalidCredentials
      | Some n \<Rightarrow>
          if n \<in> seen \<or> connector_header_is_forbidden c n then Inl InvalidCredentials
          else
            (case Option.bind value (ho_header_value H) of
               None \<Rightarrow> Inl InvalidCredentials
             | Some v \<Rightarrow> plugin_sets c H rest (insert n seen) (hd_insert n v hs)))"

definition apply_plugin_headers ::
  "'v request_policy_contract \<Rightarrow> http_ops \<Rightarrow> plugin_header_plan \<Rightarrow> header_map \<Rightarrow> connector_attempt_error + header_map" where
  "apply_plugin_headers c H plan hs =
     (case (pl_remove plan, pl_set plan) of
        (Some rm, Some st) \<Rightarrow>
          (case plugin_removals H rm hs of
             Inl err \<Rightarrow> Inl err
           | Inr hs' \<Rightarrow> plugin_sets c H st {} hs')
      | _ \<Rightarrow> Inl InvalidCredentials)"

text \<open>The standard connector, or a plugin with its answer, if the call succeeded, and the content type it gave an image
  upload.\<close>

datatype connector_attempt = OpenAiCompatibleAttempt | ExternalAttempt "plugin_header_plan option" "string option"

definition inject_headers ::
  "'v request_policy_contract \<Rightarrow> http_ops \<Rightarrow> connector_attempt \<Rightarrow> upstream_auth \<Rightarrow> header_map \<Rightarrow>
   connector_attempt_error + header_map" where
  "inject_headers c H attempt auth hs =
     (case attempt of
        OpenAiCompatibleAttempt \<Rightarrow> inject_standard_auth H auth hs
      | ExternalAttempt output content_type \<Rightarrow>
          (case output of
             None \<Rightarrow> Inl InvalidCredentials
           | Some plan \<Rightarrow>
               (case apply_plugin_headers c H plan hs of
                  Inl err \<Rightarrow> Inl err
                | Inr hs1 \<Rightarrow>
                    (let hs2 = (case content_type of None \<Rightarrow> hs1 | Some v \<Rightarrow> hd_insert ''content-type'' v hs1)
                     in inject_standard_auth H auth (hd_remove ''authorization'' hs2)))))"

section \<open>The request sent upstream\<close>

datatype outbound_error =
    PolicyRejected request_policy_error | TransformFailed transform_apply_error | AttemptFailed connector_attempt_error

definition UPSTREAM_ACCEPT_ENCODING :: string where
  "UPSTREAM_ACCEPT_ENCODING = ''gzip, deflate, br, zstd''"

definition finish_outbound_headers :: "'v request_policy_contract \<Rightarrow> http_ops \<Rightarrow> bool \<Rightarrow> header_map \<Rightarrow> header_map" where
  "finish_outbound_headers c H body_encoded hs =
     (let sane = sanitize_outbound_request_headers c H hs;
          coded = (if body_encoded
                   then hd_insert ''content-type'' ''application/json'' (hd_insert ''content-encoding'' ''zstd'' sane)
                   else hd_remove ''content-encoding'' sane)
      in hd_insert ''accept-encoding''
           (if hd_get_all coded ''range'' \<noteq> [] then ''identity'' else UPSTREAM_ACCEPT_ENCODING) coded)"

definition outbound_request_headers ::
  "'v request_policy_contract \<Rightarrow> http_ops \<Rightarrow> request_interface \<Rightarrow> bool \<Rightarrow> header_operation list \<Rightarrow> connector_attempt \<Rightarrow>
   upstream_auth \<Rightarrow> bool \<Rightarrow> header_map \<Rightarrow> outbound_error + header_map" where
  "outbound_request_headers c H i body_changed plan attempt auth body_encoded client =
     (case filter_client_headers c H i client of
        Inl err \<Rightarrow> Inl (PolicyRejected err)
      | Inr filtered \<Rightarrow>
          (let hs = (if body_changed then remove_rewritten_request_entity_headers filtered else filtered)
           in case apply_header_plan_in_scope H RequestScope plan hs of
                Inl err \<Rightarrow> Inl (TransformFailed err)
              | Inr planned \<Rightarrow>
                  (case inject_headers c H attempt auth (forward_request_headers c H planned) of
                     Inl err \<Rightarrow> Inl (AttemptFailed err)
                   | Inr injected \<Rightarrow> Inr (finish_outbound_headers c H body_encoded injected))))"

section \<open>Header maps\<close>

lemma get_all_Nil [simp]: "hd_get_all [] n = []"
  by (simp add: hd_get_all_def)

lemma get_all_append [simp]: "hd_get_all (hs @ hs') n = hd_get_all hs n @ hd_get_all hs' n"
  by (simp add: hd_get_all_def)

lemma get_all_Cons [simp]: "hd_get_all ((m, v) # hs) n = (if n = m then v # hd_get_all hs n else hd_get_all hs n)"
  by (simp add: hd_get_all_def)

lemma get_all_remove [simp]: "hd_get_all (hd_remove m hs) n = (if n = m then [] else hd_get_all hs n)"
  by (auto simp: hd_get_all_def hd_remove_def filter_empty_conv intro!: arg_cong [of _ _ "map snd"] filter_cong)

lemma get_all_insert [simp]: "hd_get_all (hd_insert m v hs) n = (if n = m then [v] else hd_get_all hs n)"
  by (simp add: hd_insert_def)

lemma get_all_pairs [simp]: "hd_get_all (map (Pair m) vs) n = (if n = m then vs else [])"
  by (induction vs) auto

lemma get_all_fold_remove: "hd_get_all (fold hd_remove ms hs) n = (if n \<in> set ms then [] else hd_get_all hs n)"
  by (induction ms arbitrary: hs) auto

lemma get_all_filter_name:
  "hd_get_all (filter (\<lambda>(m, v). P m) hs) n = (if P n then hd_get_all hs n else [])"
  by (induction hs) auto

lemma get_all_eq_Nil: "hd_get_all hs n = [] \<longleftrightarrow> n \<notin> fst ` set hs"
  by (force simp: hd_get_all_def filter_empty_conv)

lemmas get_all_simps = get_all_fold_remove get_all_filter_name

section \<open>Connection names\<close>

lemma split_comma_not_Nil [simp]: "split_comma s \<noteq> []"
  by (cases s) (auto split: list.splits)

lemma split_comma_chars: "p \<in> set (split_comma s) \<Longrightarrow> set p \<subseteq> set s"
proof (induction s arbitrary: p)
  case (Cons c s)
  obtain q qs where q: "split_comma s = q # qs" by (cases "split_comma s") simp_all
  show ?case using Cons.prems Cons.IH [of p] Cons.IH [of q] by (auto simp: q split: if_splits)
qed simp

lemma visible_whitespace:
  assumes "is_visible c"
  shows "is_whitespace (of_char c) \<longleftrightarrow> is_ascii_whitespace c"
  using assms by (auto simp: is_visible_def is_whitespace_def is_ascii_whitespace_def)

lemma trims_agree:
  assumes "list_all is_visible s" and "str_trim s \<noteq> []"
  shows "trim_ascii_bytes s = str_trim s"
proof -
  have w: "is_whitespace (of_char c) \<longleftrightarrow> is_ascii_whitespace c" if "c \<in> set s" for c
    using assms(1) that visible_whitespace by (auto simp: list_all_iff)
  have front: "dropWhile (\<lambda>c. is_whitespace (of_char c)) s = dropWhile is_ascii_whitespace s"
    by (rule dropWhile_cong) (simp_all add: w)
  have "dropWhile (\<lambda>c. is_whitespace (of_char c)) (rev (dropWhile is_ascii_whitespace s)) =
      dropWhile is_ascii_whitespace (rev (dropWhile is_ascii_whitespace s))"
    by (rule dropWhile_cong) (auto simp: w dest: set_dropWhileD)
  then have eq: "str_trim s = rev (dropWhile is_ascii_whitespace (rev (dropWhile is_ascii_whitespace s)))"
    by (simp add: str_trim_def front)
  have "\<not> list_all is_ascii_whitespace s"
  proof
    assume "list_all is_ascii_whitespace s"
    then have "dropWhile is_ascii_whitespace s = []" by (simp add: list_all_iff)
    then show False using assms(2) unfolding eq by (simp only: rev.simps dropWhile.simps not_True_eq_False)
  qed
  then show ?thesis by (simp add: trim_ascii_bytes_def eq)
qed

lemma connection_names_superset:
  assumes "http_laws H"
  shows "connection_header_names H hs \<subseteq> connection_names H hs"
proof
  fix n assume "n \<in> connection_header_names H hs"
  then obtain v p s where *: "v \<in> set (hd_get_all hs ''connection'')" "ho_to_str H v = Some s" "p \<in> set (split_comma s)"
    "ho_header_name H (str_trim p) = Some n"
    by (auto simp: connection_header_names_def List.map_filter_def)
  have s: "s = v" "list_all is_visible v" and "ho_header_name H [] = None"
    using assms *(2) by (auto simp: http_laws_def)
  then have "str_trim p \<noteq> []" using *(4) by auto
  moreover have "list_all is_visible p" using s split_comma_chars [OF *(3)] by (auto simp: list_all_iff)
  ultimately have "ho_header_name H (trim_ascii_bytes p) = Some n" using trims_agree *(4) by simp
  then have "n \<in> set (parse_connection_header_names H v)"
    using *(3) s by (force simp: parse_connection_header_names_def List.map_filter_def)
  then show "n \<in> connection_names H hs" using *(1) by (auto simp: connection_names_def)
qed

lemma connection_names_cong:
  "hd_get_all hs ''connection'' = hd_get_all hs' ''connection'' \<Longrightarrow> connection_names H hs = connection_names H hs'"
  by (simp add: connection_names_def)

lemma connection_header_names_cong:
  "hd_get_all hs ''connection'' = [] \<Longrightarrow> connection_header_names H hs = {}"
  by (simp add: connection_header_names_def List.map_filter_def)

section \<open>The steps, one header at a time\<close>

lemma filter_headers_ok:
  assumes "\<forall>n. header_action p n \<noteq> RejectAction"
  shows "filter_headers layer i p (Some names) hs =
    Inr (filter (\<lambda>(n, v). header_action p n = AllowAction \<or> n \<in> names \<or> n = ''connection'') hs)"
proof (induction hs)
  case (Cons q hs)
  then show ?case using assms by (cases q) (simp add: Let_def)
qed simp

lemma valid_header_actions:
  assumes "validate_contract H c = Inr ()"
  shows "header_action (rp_client_headers c) n \<noteq> RejectAction"
  unfolding header_action_iff [OF validate_contract_headers [OF assms]] by simp

lemma filter_client_headers_ok:
  assumes "validate_contract H c = Inr ()"
  shows "filter_client_headers c H' i hs =
    Inr (filter (\<lambda>(n, v). client_header_allowed c n \<or> n \<in> connection_header_names H' hs \<or> n = ''connection'') hs)"
  unfolding filter_client_headers_def client_header_allowed_def
  by (rule filter_headers_ok) (use valid_header_actions [OF assms] in blast)

text \<open>The names a header plan reads or writes.\<close>

fun operation_names :: "header_operation \<Rightarrow> string set" where
  "operation_names (SetHeader n v) = {n}"
| "operation_names (RemoveHeader n) = {n}"
| "operation_names (RenameHeader m n) = {m, n}"

definition plan_names :: "header_operation list \<Rightarrow> string set" where
  "plan_names plan = (\<Union>op \<in> set plan. operation_names op)"

lemma plan_names_simps [simp]:
  "plan_names [] = {}" "plan_names (op # plan) = operation_names op \<union> plan_names plan"
  by (simp_all add: plan_names_def)

lemma get_all_rename:
  "n \<notin> {m, k} \<Longrightarrow> hd_get_all (rename_header m k hs) n = hd_get_all hs n"
  by (auto simp: rename_header_def Let_def)

lemma apply_header_operations_ok:
  "(\<exists>out. apply_header_operations scope names plan hs = Inr out) \<longleftrightarrow>
     (\<forall>n \<in> plan_names plan. runtime_header_allowed n names scope)"
  by (induction scope names plan hs rule: apply_header_operations.induct) auto

lemma apply_header_operations_frame:
  "apply_header_operations scope names plan hs = Inr out \<Longrightarrow> n \<notin> plan_names plan \<Longrightarrow>
   hd_get_all out n = hd_get_all hs n"
  by (induction scope names plan hs rule: apply_header_operations.induct)
    (auto simp: get_all_rename split: if_splits)

lemma get_all_forward:
  "hd_get_all (forward_request_headers c H hs) n =
     (if n \<in> connection_names H hs \<or> header_is_hop_by_hop n \<or>
         n \<in> {''host'', ''content-length'', ''authorization'', ''proxy-authorization'', ''accept-encoding''} \<or>
         client_header_explicitly_ignored c n
      then [] else hd_get_all hs n)"
  unfolding forward_request_headers_def forward_headers_def Let_def
  by (subst get_all_filter_name) (simp add: is_hop_by_hop_def)

lemma get_all_remove_entity:
  "hd_get_all (remove_rewritten_request_entity_headers hs) n =
     (if n \<in> {''content-encoding'', ''content-md5'', ''digest'', ''content-digest'', ''repr-digest'', ''etag'',
               ''last-modified''} then [] else hd_get_all hs n)"
  unfolding remove_rewritten_request_entity_headers_def get_all_fold_remove by simp

lemma get_all_sanitize:
  "hd_get_all (sanitize_outbound_request_headers c H hs) n =
     (if (n \<noteq> ''cookie'' \<and> connector_header_is_forbidden c n) \<or>
         (n \<noteq> ''authorization'' \<and> n \<in> connection_header_names H hs)
      then [] else hd_get_all hs n)"
  using get_all_eq_Nil [of hs n]
  by (auto simp: sanitize_outbound_request_headers_def Let_def get_all_fold_remove)

section \<open>Credentials and connectors\<close>

lemma compile_auth_Inr:
  assumes "compile_auth c H kind header_name secret = Inr auth"
  shows "case auth of
      NoAuth \<Rightarrow> True
    | Bearer s \<Rightarrow> secret = Some s \<and> ho_header_value H s \<noteq> None
    | HeaderAuth n s \<Rightarrow> secret = Some s \<and> ho_header_value H s \<noteq> None \<and> \<not> unsafe_auth_header c n"
  using assms by (auto simp: compile_auth_def compile_secret_def split: if_splits option.splits sum.splits)

definition auth_names :: "upstream_auth \<Rightarrow> string set" where
  "auth_names auth = (case auth of NoAuth \<Rightarrow> {} | Bearer _ \<Rightarrow> {''authorization''} | HeaderAuth n _ \<Rightarrow> {n})"

definition auth_value :: "upstream_auth \<Rightarrow> string" where
  "auth_value auth = (case auth of NoAuth \<Rightarrow> [] | Bearer t \<Rightarrow> ''Bearer '' @ t | HeaderAuth _ s \<Rightarrow> s)"

lemma get_all_standard_auth:
  assumes "http_laws H" and "inject_standard_auth H auth hs = Inr out"
  shows "hd_get_all out n = (if n \<in> auth_names auth then [auth_value auth] else hd_get_all hs n)"
proof -
  have "ho_header_value H s = Some v \<Longrightarrow> v = s" for s v using assms(1) by (auto simp: http_laws_def)
  then show ?thesis
    using assms(2) by (auto simp: inject_standard_auth_def auth_names_def auth_value_def split: upstream_auth.splits option.splits)
qed

lemma bearer_prefix_visible: "list_all is_visible ''Bearer ''"
  by (simp add: is_visible_def)

lemma compiled_auth_injects:
  assumes "http_laws H" and "compile_auth c H kind header_name secret = Inr auth"
  shows "\<exists>out. inject_standard_auth H auth hs = Inr out"
proof -
  have "ho_header_value H (''Bearer '' @ s) \<noteq> None" if "ho_header_value H s \<noteq> None" for s
    using assms(1) that bearer_prefix_visible unfolding http_laws_def by blast
  then show ?thesis
    using compile_auth_Inr [OF assms(2)] by (auto simp: inject_standard_auth_def split: upstream_auth.splits option.splits)
qed

lemma compiled_auth_names:
  assumes "compile_auth c H kind header_name secret = Inr auth" and "n \<in> auth_names auth"
  shows "n = ''authorization'' \<or> \<not> unsafe_auth_header c n"
  using compile_auth_Inr [OF assms(1)] assms(2) by (auto simp: auth_names_def split: upstream_auth.splits)

text \<open>The names a plugin may remove or set, and those an attempt may.\<close>

definition plugin_names :: "http_ops \<Rightarrow> plugin_header_plan \<Rightarrow> string set" where
  "plugin_names H plan =
     {n. \<exists>name. ho_header_name H name = Some n \<and>
        ((\<exists>rm. pl_remove plan = Some rm \<and> Some name \<in> set rm) \<or> (\<exists>st. pl_set plan = Some st \<and> name \<in> fst ` set st))}"

fun attempt_names :: "http_ops \<Rightarrow> connector_attempt \<Rightarrow> string set" where
  "attempt_names H OpenAiCompatibleAttempt = {}"
| "attempt_names H (ExternalAttempt output content_type) =
     (case output of None \<Rightarrow> {} | Some plan \<Rightarrow> plugin_names H plan) \<union>
     (if content_type = None then {} else {''content-type''})"

lemma plugin_removals_get_all:
  "plugin_removals H names hs = Inr out \<Longrightarrow>
   hd_get_all out n = (if \<exists>name. Some name \<in> set names \<and> ho_header_name H name = Some n then [] else hd_get_all hs n)"
proof (induction names arbitrary: hs)
  case (Cons a names)
  obtain name m where a: "a = Some name" "ho_header_name H name = Some m"
    using Cons.prems by (auto split: option.splits bind_splits)
  then show ?case using Cons.IH [of "hd_remove m hs"] Cons.prems by auto
qed simp

lemma plugin_sets_get_all:
  "plugin_sets c H st seen hs = Inr out \<Longrightarrow>
   (n \<notin> {m. \<exists>name \<in> fst ` set st. ho_header_name H name = Some m} \<longrightarrow> hd_get_all out n = hd_get_all hs n) \<and>
   (connector_header_is_forbidden c n \<longrightarrow> hd_get_all out n = hd_get_all hs n)"
proof (induction st arbitrary: seen hs)
  case (Cons a st)
  obtain name val m v where a: "a = (name, val)" "ho_header_name H name = Some m"
    "\<not> connector_header_is_forbidden c m" "plugin_sets c H st (insert m seen) (hd_insert m v hs) = Inr out"
    using Cons.prems by (cases a) (auto split: option.splits if_splits)
  then show ?case using Cons.IH [OF a(4)] by auto
qed simp

lemma apply_plugin_headers_get_all:
  assumes "apply_plugin_headers c H plan hs = Inr out"
  shows "n \<notin> plugin_names H plan \<Longrightarrow> hd_get_all out n = hd_get_all hs n"
    and "connector_header_is_forbidden c n \<Longrightarrow> hd_get_all hs n = [] \<Longrightarrow> hd_get_all out n = []"
proof -
  obtain rm st hs' where p: "pl_remove plan = Some rm" "pl_set plan = Some st" "plugin_removals H rm hs = Inr hs'"
    "plugin_sets c H st {} hs' = Inr out"
    using assms by (auto simp: apply_plugin_headers_def split: option.splits sum.splits)
  note r = plugin_removals_get_all [OF p(3), of n] and s = plugin_sets_get_all [OF p(4), of n]
  show "hd_get_all out n = hd_get_all hs n" if "n \<notin> plugin_names H plan"
    using that r s p(1,2) by (auto simp: plugin_names_def)
  show "hd_get_all out n = []" if "connector_header_is_forbidden c n" "hd_get_all hs n = []"
    using that r s by auto
qed

lemma inject_headers_get_all:
  assumes "http_laws H" and "inject_headers c H attempt auth hs = Inr out" and "hd_get_all hs ''authorization'' = []"
  shows "n \<in> auth_names auth \<Longrightarrow> hd_get_all out n = [auth_value auth]"
    and "n \<notin> auth_names auth \<Longrightarrow> n = ''authorization'' \<Longrightarrow> hd_get_all out n = []"
    and "n \<notin> auth_names auth \<Longrightarrow> n \<notin> attempt_names H attempt \<Longrightarrow> hd_get_all out n = hd_get_all hs n"
    and "n \<notin> auth_names auth \<Longrightarrow> connector_header_is_forbidden c n \<Longrightarrow> n \<noteq> ''content-type'' \<Longrightarrow> hd_get_all hs n = [] \<Longrightarrow>
      hd_get_all out n = []"
proof -
  show "hd_get_all out n = [auth_value auth]" if "n \<in> auth_names auth"
    using assms that
    by (auto simp: inject_headers_def Let_def get_all_standard_auth split: connector_attempt.splits option.splits sum.splits)
  show "hd_get_all out n = []" if "n \<notin> auth_names auth" "n = ''authorization''"
    using assms that
    by (auto simp: inject_headers_def Let_def get_all_standard_auth split: connector_attempt.splits option.splits sum.splits)
  show "hd_get_all out n = hd_get_all hs n" if "n \<notin> auth_names auth" "n \<notin> attempt_names H attempt"
    using assms that
    by (auto simp: inject_headers_def Let_def get_all_standard_auth apply_plugin_headers_get_all(1)
        split: connector_attempt.splits option.splits sum.splits if_splits)
  show "hd_get_all out n = []"
    if "n \<notin> auth_names auth" "connector_header_is_forbidden c n" "n \<noteq> ''content-type''" "hd_get_all hs n = []"
    using assms that
    by (auto simp: inject_headers_def Let_def get_all_standard_auth apply_plugin_headers_get_all(2)
        split: connector_attempt.splits option.splits sum.splits if_splits)
qed

section \<open>The request sent upstream\<close>

definition ENTITY_HEADERS :: "string set" where
  "ENTITY_HEADERS =
     {''content-encoding'', ''content-md5'', ''digest'', ''content-digest'', ''repr-digest'', ''etag'', ''last-modified''}"

text \<open>The headers before the header plan.\<close>

definition ingress_headers :: "'v request_policy_contract \<Rightarrow> http_ops \<Rightarrow> bool \<Rightarrow> header_map \<Rightarrow> header_map" where
  "ingress_headers c H body_changed client =
     (let filtered = filter (\<lambda>(n, v). client_header_allowed c n \<or> n \<in> connection_header_names H client \<or>
                               n = ''connection'') client
      in if body_changed then remove_rewritten_request_entity_headers filtered else filtered)"

lemma get_all_ingress:
  "hd_get_all (ingress_headers c H body_changed client) n =
     (if (client_header_allowed c n \<or> n \<in> connection_header_names H client \<or> n = ''connection'') \<and>
         \<not> (body_changed \<and> n \<in> ENTITY_HEADERS)
      then hd_get_all client n else [])"
proof -
  have f: "hd_get_all (filter (\<lambda>(n, v). client_header_allowed c n \<or> n \<in> connection_header_names H client \<or>
        n = ''connection'') client) n =
      (if client_header_allowed c n \<or> n \<in> connection_header_names H client \<or> n = ''connection''
       then hd_get_all client n else [])"
    by (rule get_all_filter_name)
  show ?thesis
    unfolding ingress_headers_def Let_def using f get_all_remove_entity by (simp add: ENTITY_HEADERS_def)
qed

lemma ingress_connection_names:
  "connection_names H (ingress_headers c H body_changed client) = connection_names H client"
  by (rule connection_names_cong) (simp add: get_all_ingress ENTITY_HEADERS_def)

lemma outbound_stages:
  assumes "validate_contract H c = Inr ()"
  shows "outbound_request_headers c H i body_changed plan attempt auth body_encoded client =
    (case apply_header_operations RequestScope (connection_names H client) plan (ingress_headers c H body_changed client) of
       Inl err \<Rightarrow> Inl (TransformFailed err)
     | Inr planned \<Rightarrow>
         (case inject_headers c H attempt auth (forward_request_headers c H planned) of
            Inl err \<Rightarrow> Inl (AttemptFailed err)
          | Inr injected \<Rightarrow> Inr (finish_outbound_headers c H body_encoded injected)))"
  unfolding outbound_request_headers_def filter_client_headers_ok [OF assms] apply_header_plan_in_scope_def
    ingress_connection_names [of H c body_changed client, symmetric]
  by (simp add: ingress_headers_def Let_def)

lemma connection_is_protected: "\<not> runtime_header_allowed ''connection'' names RequestScope"
  by (simp add: runtime_header_allowed_def header_is_hop_by_hop_def)

text \<open>Up to the connector: what the plan leaves alone is the client's.\<close>

lemma planned_headers:
  assumes "http_laws H" and "validate_contract H c = Inr ()"
    and "apply_header_operations RequestScope (connection_names H client) plan (ingress_headers c H body_changed client) =
      Inr planned"
  shows "connection_names H planned = connection_names H client"
    and "n \<notin> plan_names plan \<Longrightarrow> hd_get_all (forward_request_headers c H planned) n =
      (if client_header_allowed c n \<and> \<not> header_is_hop_by_hop n \<and> n \<notin> connection_names H client \<and>
          n \<notin> {''host'', ''content-length'', ''authorization'', ''proxy-authorization'', ''accept-encoding''} \<and>
          \<not> client_header_explicitly_ignored c n \<and> \<not> (body_changed \<and> n \<in> ENTITY_HEADERS)
       then hd_get_all client n else [])"
    and "n \<in> plan_names plan \<Longrightarrow> \<not> is_protected_header n RequestScope"
proof -
  have names: "\<forall>n \<in> plan_names plan. runtime_header_allowed n (connection_names H client) RequestScope"
    using assms(3) apply_header_operations_ok by blast
  show "\<not> is_protected_header n RequestScope" if "n \<in> plan_names plan"
    using names that by (auto simp: runtime_header_allowed_def)
  have "''connection'' \<notin> plan_names plan" using names connection_is_protected by blast
  then have "connection_names H planned = connection_names H (ingress_headers c H body_changed client)"
    by (intro connection_names_cong apply_header_operations_frame [OF assms(3)])
  then show conn: "connection_names H planned = connection_names H client"
    by (simp add: ingress_connection_names)
  show "hd_get_all (forward_request_headers c H planned) n =
      (if client_header_allowed c n \<and> \<not> header_is_hop_by_hop n \<and> n \<notin> connection_names H client \<and>
          n \<notin> {''host'', ''content-length'', ''authorization'', ''proxy-authorization'', ''accept-encoding''} \<and>
          \<not> client_header_explicitly_ignored c n \<and> \<not> (body_changed \<and> n \<in> ENTITY_HEADERS)
       then hd_get_all client n else [])" if "n \<notin> plan_names plan"
  proof -
    have "n \<in> connection_names H client" if "n \<in> connection_header_names H client"
      using connection_names_superset [OF assms(1)] that by blast
    moreover have "header_is_hop_by_hop ''connection''" by (simp add: header_is_hop_by_hop_def)
    ultimately show ?thesis
      using apply_header_operations_frame [OF assms(3) that] unfolding get_all_forward conn get_all_ingress by auto
  qed
qed

lemma get_all_finish:
  "hd_get_all (finish_outbound_headers c H body_encoded hs) n =
     (if n = ''accept-encoding'' then
        [if hd_get_all (sanitize_outbound_request_headers c H hs) ''range'' \<noteq> [] then ''identity'' else UPSTREAM_ACCEPT_ENCODING]
      else if n = ''content-encoding'' then (if body_encoded then [''zstd''] else [])
      else if n = ''content-type'' \<and> body_encoded then [''application/json'']
      else hd_get_all (sanitize_outbound_request_headers c H hs) n)"
  by (cases body_encoded) (simp_all add: finish_outbound_headers_def Let_def)

lemma injected_connection:
  assumes "http_laws H" and "compile_auth c H' kind header_name secret = Inr auth"
    and "inject_headers c H attempt auth (forward_request_headers c H planned) = Inr injected"
  shows "connection_header_names H injected = {}"
proof (rule connection_header_names_cong)
  have "''connection'' \<notin> auth_names auth"
    using compiled_auth_names [OF assms(2), of "''connection''"] by (auto simp: unsafe_auth_header_def)
  moreover have "connector_header_is_forbidden c ''connection''"
    by (simp add: connector_header_is_forbidden_def request_header_is_protected_def header_is_hop_by_hop_def)
  ultimately show "hd_get_all injected ''connection'' = []"
    using inject_headers_get_all(4) [OF assms(1,3), of "''connection''"]
    by (simp add: get_all_forward header_is_hop_by_hop_def)
qed

lemma standard_connector_succeeds:
  assumes "http_laws H" and "validate_contract H c = Inr ()" and "compile_auth c H kind header_name secret = Inr auth"
  shows "(\<exists>out. outbound_request_headers c H i body_changed plan OpenAiCompatibleAttempt auth body_encoded client = Inr out) \<longleftrightarrow>
      (\<forall>n \<in> plan_names plan. \<not> is_protected_header n RequestScope \<and> n \<notin> connection_names H client)"
proof (cases "apply_header_operations RequestScope (connection_names H client) plan (ingress_headers c H body_changed client)")
  case (Inl err)
  then have "\<not> (\<forall>n \<in> plan_names plan. runtime_header_allowed n (connection_names H client) RequestScope)"
    unfolding apply_header_operations_ok [symmetric, of _ _ _ "ingress_headers c H body_changed client"] by simp
  then show ?thesis unfolding outbound_stages [OF assms(2)] Inl by (simp add: runtime_header_allowed_def)
next
  case (Inr planned)
  then have "\<forall>n \<in> plan_names plan. runtime_header_allowed n (connection_names H client) RequestScope"
    unfolding apply_header_operations_ok [symmetric, of _ _ _ "ingress_headers c H body_changed client"] by simp
  moreover obtain injected where
    "inject_headers c H OpenAiCompatibleAttempt auth (forward_request_headers c H planned) = Inr injected"
    using compiled_auth_injects [OF assms(1,3)] by (auto simp: inject_headers_def)
  ultimately show ?thesis unfolding outbound_stages [OF assms(2)] Inr by (simp add: runtime_header_allowed_def)
qed

lemma outbound_Inr:
  assumes "validate_contract H c = Inr ()"
    and "outbound_request_headers c H i body_changed plan attempt auth body_encoded client = Inr out"
  obtains planned injected where
    "apply_header_operations RequestScope (connection_names H client) plan (ingress_headers c H body_changed client) =
      Inr planned"
    "inject_headers c H attempt auth (forward_request_headers c H planned) = Inr injected"
    "out = finish_outbound_headers c H body_encoded injected"
  using assms(2) unfolding outbound_stages [OF assms(1)] by (auto split: sum.splits)

lemma starts_with_prefix: "starts_with n p \<longleftrightarrow> prefix p n"
  by (metis append_eq_conv_conj prefix_def starts_with_def)



lemma explicitly_ignored_iff:
  "validate_contract H c = Inr () \<Longrightarrow>
   client_header_explicitly_ignored c n \<longleftrightarrow> n \<in> set (hp_ignore (rp_client_headers c))"
  using validate_contract_headers [of H c]
  by (simp add: client_header_explicitly_ignored_def header_policy_wf_def contains_sorted_iff)

lemma unsafe_is_forbidden:
  assumes "\<not> unsafe_auth_header c n" and "n \<noteq> ''cookie''"
  shows "\<not> connector_header_is_forbidden c n"
  using assms by (auto simp: unsafe_auth_header_def connector_header_is_forbidden_def request_header_is_protected_def
      header_is_hop_by_hop_def)

lemma credential_sent:
  assumes "http_laws H" and "validate_contract H c = Inr ()" and "''authorization'' \<notin> set (hp_ignore (rp_client_headers c))"
    and "compile_auth c H kind header_name secret = Inr auth"
    and "inject_headers c H attempt auth (forward_request_headers c H planned) = Inr injected"
  shows "n \<in> auth_names auth \<Longrightarrow> hd_get_all (sanitize_outbound_request_headers c H injected) n = [auth_value auth]"
    and "n \<notin> auth_names auth \<Longrightarrow> n = ''authorization'' \<Longrightarrow>
      hd_get_all (sanitize_outbound_request_headers c H injected) n = []"
proof -
  have noauth: "hd_get_all (forward_request_headers c H planned) ''authorization'' = []"
    by (simp add: get_all_forward)
  note inj = inject_headers_get_all(1,2) [OF assms(1,5) noauth]
  note conn = injected_connection [OF assms(1,4,5)]
  have az: "\<not> connector_header_is_forbidden c ''authorization''"
    using assms(3) by (simp add: connector_header_is_forbidden_def starts_with_def explicitly_ignored_iff [OF assms(2)])
  show "hd_get_all (sanitize_outbound_request_headers c H injected) n = [auth_value auth]" if "n \<in> auth_names auth"
    using compiled_auth_names [OF assms(4) that] unsafe_is_forbidden [of c n] az inj(1) [OF that]
    unfolding get_all_sanitize conn by auto
  show "hd_get_all (sanitize_outbound_request_headers c H injected) n = []"
    if "n \<notin> auth_names auth" "n = ''authorization''"
    using inj(2) [OF that] unfolding get_all_sanitize by simp
qed

lemma cookie_not_sent:
  assumes "http_laws H" and "validate_contract H c = Inr ()"
    and "apply_header_operations RequestScope (connection_names H client) plan (ingress_headers c H body_changed client) =
      Inr planned"
    and "inject_headers c H attempt auth (forward_request_headers c H planned) = Inr injected"
    and "\<not> client_header_allowed c ''cookie'' \<or> client_header_explicitly_ignored c ''cookie''" and "''cookie'' \<notin> auth_names auth"
  shows "hd_get_all injected ''cookie'' = []"
proof -
  have "''cookie'' \<notin> plan_names plan"
    using planned_headers(3) [OF assms(1-3), of "''cookie''"] by (auto simp: request_header_is_protected_def)
  then have "hd_get_all (forward_request_headers c H planned) ''cookie'' = []"
    using planned_headers(2) [OF assms(1-3)] assms(5) by auto
  moreover have "hd_get_all (forward_request_headers c H planned) ''authorization'' = []"
    by (simp add: get_all_forward)
  ultimately show ?thesis
    using inject_headers_get_all(4) [OF assms(1,4), of "''cookie''"] assms(6)
    by (simp add: connector_header_is_forbidden_def request_header_is_protected_def)
qed

lemma sent_names:
  assumes "http_laws H" and "validate_contract H c = Inr ()" and "compile_auth c H kind header_name secret = Inr auth"
    and "apply_header_operations RequestScope (connection_names H client) plan (ingress_headers c H body_changed client) =
      Inr planned"
    and "inject_headers c H attempt auth (forward_request_headers c H planned) = Inr injected"
    and "n \<notin> {''accept-encoding'', ''content-encoding'', ''content-type''}"
    and "header_is_hop_by_hop n \<or> n \<in> {''host'', ''content-length''} \<or> prefix ''sec-websocket-'' n \<or>
      client_header_explicitly_ignored c n"
  shows "hd_get_all (sanitize_outbound_request_headers c H injected) n = []"
proof (cases "n = ''cookie'' \<or> n = ''authorization''")
  case False
  then have "connector_header_is_forbidden c n"
    using assms(7) by (auto simp: connector_header_is_forbidden_def request_header_is_protected_def starts_with_prefix)
  then show ?thesis using False by (simp add: get_all_sanitize)
next
  case True
  then have ign: "client_header_explicitly_ignored c n"
    using assms(7) by (auto simp: header_is_hop_by_hop_def)
  show ?thesis
  proof (cases "n = ''cookie''")
    case True
    then have "n \<notin> auth_names auth"
      using compiled_auth_names [OF assms(3), of n] ign by (auto simp: unsafe_auth_header_def)
    then show ?thesis
      using cookie_not_sent [OF assms(1,2,4,5)] ign True by (simp add: get_all_sanitize)
  next
    case False
    then show ?thesis using ign True by (simp add: get_all_sanitize connector_header_is_forbidden_def)
  qed
qed

text \<open>C34. The headers sent upstream are under the gateway's control, whatever the client sends, the header plan does and
  a plugin answers: \<^verbatim>\<open>Authorization\<close> carries the compiled bearer credential of the channel and
  nothing else, so the client's key never leaves; a header credential is sent exactly once; no hop-by-hop header, no
  \<^verbatim>\<open>Host\<close>, \<^verbatim>\<open>Content-Length\<close>, WebSocket handshake header or header the
  contract ignores is sent; a cookie only if the contract allows it or it is the credential; and the content codings
  are the ones the gateway applied and can decode.\<close>

theorem upstream_headers_are_controlled:
  assumes "http_laws H" and "validate_contract H c = Inr ()" and "''authorization'' \<notin> set (hp_ignore (rp_client_headers c))"
    and "compile_auth c H kind header_name secret = Inr auth"
    and "outbound_request_headers c H i body_changed plan attempt auth body_encoded client = Inr out"
  shows "hd_get_all out ''authorization'' = (case auth of Bearer t \<Rightarrow> [''Bearer '' @ t] | _ \<Rightarrow> []) \<and>
    (\<forall>n s. auth = HeaderAuth n s \<and> \<not> (n = ''content-type'' \<and> body_encoded) \<longrightarrow> hd_get_all out n = [s]) \<and>
    (\<forall>n \<in> fst ` set out - {''accept-encoding'', ''content-encoding'', ''content-type''}.
       \<not> header_is_hop_by_hop n \<and> n \<notin> {''host'', ''content-length''} \<and> \<not> prefix ''sec-websocket-'' n \<and>
       \<not> client_header_explicitly_ignored c n) \<and>
    (\<not> client_header_allowed c ''cookie'' \<and> ''cookie'' \<notin> auth_names auth \<longrightarrow> hd_get_all out ''cookie'' = []) \<and>
    hd_get_all out ''content-encoding'' = (if body_encoded then [''zstd''] else []) \<and>
    (hd_get_all out ''accept-encoding'' = [''identity''] \<or> hd_get_all out ''accept-encoding'' = [UPSTREAM_ACCEPT_ENCODING])"
proof -
  obtain planned injected where st:
    "apply_header_operations RequestScope (connection_names H client) plan (ingress_headers c H body_changed client) =
      Inr planned"
    "inject_headers c H attempt auth (forward_request_headers c H planned) = Inr injected"
    "out = finish_outbound_headers c H body_encoded injected"
    using outbound_Inr [OF assms(2,5)] .
  note cred = credential_sent [OF assms(1-4) st(2)]
  have bearer: "hd_get_all out ''authorization'' = (case auth of Bearer t \<Rightarrow> [''Bearer '' @ t] | _ \<Rightarrow> [])"
  proof (cases "''authorization'' \<in> auth_names auth")
    case True
    then obtain t where "auth = Bearer t"
      using compile_auth_Inr [OF assms(4)] by (auto simp: auth_names_def unsafe_auth_header_def split: upstream_auth.splits)
    then show ?thesis using cred(1) [OF True] by (simp add: st(3) get_all_finish auth_value_def)
  next
    case False
    then show ?thesis
      using cred(2) [OF False] by (auto simp: st(3) get_all_finish auth_names_def split: upstream_auth.splits)
  qed
  have header: "hd_get_all out n = [s]" if "auth = HeaderAuth n s" "\<not> (n = ''content-type'' \<and> body_encoded)" for n s
  proof -
    have "n \<noteq> ''accept-encoding''" "n \<noteq> ''content-encoding''"
      using compile_auth_Inr [OF assms(4)] that(1) by (auto simp: unsafe_auth_header_def)
    then show ?thesis
      using cred(1) [of n] that by (auto simp: st(3) get_all_finish auth_value_def auth_names_def)
  qed
  have names: "\<not> header_is_hop_by_hop n \<and> n \<notin> {''host'', ''content-length''} \<and> \<not> prefix ''sec-websocket-'' n \<and>
      \<not> client_header_explicitly_ignored c n"
    if "n \<in> fst ` set out - {''accept-encoding'', ''content-encoding'', ''content-type''}" for n
  proof -
    have ne: "n \<notin> {''accept-encoding'', ''content-encoding'', ''content-type''}" and "hd_get_all out n \<noteq> []"
      using that by (auto simp: get_all_eq_Nil)
    then have "hd_get_all (sanitize_outbound_request_headers c H injected) n \<noteq> []"
      by (simp add: st(3) get_all_finish)
    then show ?thesis using sent_names [OF assms(1,2,4) st(1,2) ne] by blast
  qed
  have cookie: "hd_get_all out ''cookie'' = []" if "\<not> client_header_allowed c ''cookie'' \<and> ''cookie'' \<notin> auth_names auth"
    using cookie_not_sent [OF assms(1,2) st(1,2)] that by (simp add: st(3) get_all_finish get_all_sanitize)
  have codings: "hd_get_all out ''content-encoding'' = (if body_encoded then [''zstd''] else [])"
    "hd_get_all out ''accept-encoding'' = [''identity''] \<or> hd_get_all out ''accept-encoding'' = [UPSTREAM_ACCEPT_ENCODING]"
    by (simp_all add: st(3) get_all_finish)
  show ?thesis
  proof (intro conjI allI ballI impI)
    show "hd_get_all out n = [s]" if "auth = HeaderAuth n s \<and> \<not> (n = ''content-type'' \<and> body_encoded)" for n s
      using header that by blast
  qed (use bearer names cookie codings in simp_all)
qed

section \<open>A request\<close>

definition sample_client :: header_map where
  "sample_client = [(''user-agent'', ''curl''), (''authorization'', ''Bearer client''), (''cookie'', ''id=1''), (''connection'', ''x-trace'')]"

abbreviation sample_contract :: "string request_policy_contract" where
  "sample_contract \<equiv> embedded_contract (\<lambda>s. s)"

lemma sample_contract_valid: "validate_contract sample_http sample_contract = Inr ()"
  by (rule embedded_contract_valid [OF sample_http_laws])

lemma sample_auth: "compile_auth sample_contract sample_http ''bearer'' None (Some ''key'') = Inr (Bearer ''key'')"
  by (simp add: compile_auth_def compile_secret_def str_chars_def text_trim_def is_whitespace_def sample_http_def is_visible_def)


lemma sample_allowed:
  "client_header_allowed sample_contract ''user-agent''" "\<not> client_header_explicitly_ignored sample_contract ''user-agent''"
  "\<not> client_header_allowed sample_contract ''cookie''"
  unfolding client_header_allowed_def explicitly_ignored_iff [OF sample_contract_valid]
    header_action_iff [OF validate_contract_headers [OF sample_contract_valid]]
  by (simp_all add: embedded_contract_def embedded_headers_def)


theorem upstream_headers_are_controlled_witness:
  "\<exists>out. outbound_request_headers sample_contract sample_http ResponsesHttpInterface False [] OpenAiCompatibleAttempt
     (Bearer ''key'') False sample_client = Inr out \<and> hd_get_all out ''authorization'' = [''Bearer key''] \<and>
     hd_get_all out ''cookie'' = []"
proof -
  obtain out where out: "outbound_request_headers sample_contract sample_http ResponsesHttpInterface False []
      OpenAiCompatibleAttempt (Bearer ''key'') False sample_client = Inr out"
    using standard_connector_succeeds [OF sample_http_laws sample_contract_valid sample_auth,
      of ResponsesHttpInterface False "[]" False sample_client] by auto
  have "''authorization'' \<notin> set (hp_ignore (rp_client_headers sample_contract))"
    by (simp add: embedded_contract_def embedded_headers_def)
  note ctl = upstream_headers_are_controlled [OF sample_http_laws sample_contract_valid this sample_auth out]
  show ?thesis using out ctl sample_allowed(3) by (intro exI [of _ out]) (simp add: auth_names_def)
qed

end
