(* ===== verification/Spec2Isabelle.thy ===== *)
theory Spec2Isabelle
  imports Admission Channel_Leases Spool_Recovery Outbound_Headers
begin

text \<open>
  Verification of the request path of the AI gateway.

  The gateway authenticates a client request by its API key, admits it against the limits of the key, checks its body
  and headers against a contract, selects an upstream channel for the requested model, sends the request on with the
  channel's own credential, prices what the upstream reports, and records one terminal event per request in a durable
  journal from which a worker feeds the database. The development models the parts of this path that hold state or
  decide something, one theory per part, and proves what the rest of the program relies on. All paths below are
  relative to \<^verbatim>\<open>src/src\<close>.

  \<^bold>\<open>The theories.\<close>

  \<^item> \<^verbatim>\<open>Gateway_Prelude\<close>: machine integers as words, durations, hash maps as association
    lists with the invariant \<open>hm_wf\<close>, byte encodings, and the lemmas on them that all components share.
  \<^item> \<^verbatim>\<open>Domain\<close>: the small domain types of \<^verbatim>\<open>domain/\<close>
    (operations, formats, connectors, transports, request-log values) with their textual forms.
  \<^item> \<^verbatim>\<open>Billing\<close>: \<^verbatim>\<open>domain/billing.rs\<close> and
    \<^verbatim>\<open>application/billing.rs\<close>, the compilation of a pricing policy, its time windows and
    long-context tiers, and the price of a request. Decimal arithmetic is the parameter \<open>decimal_ops\<close>,
    with the laws used as named hypotheses.
  \<^item> \<^verbatim>\<open>Compiled_Routing\<close>: \<^verbatim>\<open>domain/compiled_routing.rs\<close>, the
    immutable routing configuration: channels with their capabilities, tiers, rules, keys and the lookup table, and
    the preimages of the fingerprints. SHA-256 is a parameter.
  \<^item> \<^verbatim>\<open>Lease_Pool\<close>: the interface of a component that hands out counted leases, a locale
    whose lemmas hold for every interleaving of acquiring, releasing and other operations. It is interpreted twice, on
    \<^verbatim>\<open>Admission\<close> and on \<^verbatim>\<open>Channel_Leases\<close>.
  \<^item> \<^verbatim>\<open>Admission\<close>: \<^verbatim>\<open>admission/mod.rs\<close>, quota, request window
    and concurrency of a key.
  \<^item> \<^verbatim>\<open>Channel_Health\<close>: the cool-down word and the counters of a channel in
    \<^verbatim>\<open>routing/mod.rs\<close>, the single accesses to them and the operations of a lease composed from
    these.
  \<^item> \<^verbatim>\<open>Affinity_Cache\<close>: the session affinity cache of
    \<^verbatim>\<open>routing/mod.rs\<close>.
  \<^item> \<^verbatim>\<open>Load_Balancing\<close>: the two strategies for choosing in a tier, and the locale
    \<open>tier_picker\<close> with what selection relies on, interpreted on both.
  \<^item> \<^verbatim>\<open>Selection\<close>: eligibility, the search over tiers, preferred channels, leases and
    reconciliation of \<^verbatim>\<open>routing/mod.rs\<close>.
  \<^item> \<^verbatim>\<open>Channel_Leases\<close>: the lease discipline of the routing runtime. A
    \<open>lease_world\<close> is the runtime with what the threads have in hand between two accesses; acquisition,
    drop, report and reconciliation of \<^verbatim>\<open>Selection\<close> are runs of its steps.
  \<^item> \<^verbatim>\<open>Request_Journal\<close>: \<^verbatim>\<open>request_log_journal.rs\<close> and the
    frames, recovery scan and reader of \<^verbatim>\<open>request_log_spool.rs\<close>. JSON is the parameter
    \<open>journal_ops\<close>, the checksum the parameter \<open>crc\<close>.
  \<^item> \<^verbatim>\<open>Request_Spool\<close>: the rest of \<^verbatim>\<open>request_log_spool.rs\<close>,
    \<^verbatim>\<open>request_log_admission.rs\<close> and the ingestion loop of
    \<^verbatim>\<open>workers/durable_request_log.rs\<close>.
  \<^item> \<^verbatim>\<open>Spool_Recovery\<close>: crashes, power loss and restarts around the spool.
  \<^item> \<^verbatim>\<open>Request_Policy\<close>: \<^verbatim>\<open>request_policy.rs\<close>, the contract of
    allowed body fields and headers, its validation and the decisions made from it, and the contract that is compiled
    in. Header parsing is the parameter \<open>http_ops\<close>, JSON the parameter \<open>body_json\<close>.
  \<^item> \<^verbatim>\<open>Multipart_Framing\<close>: the streaming guard of
    \<^verbatim>\<open>application/request_body.rs\<close> with its pattern matcher and state machine.
  \<^item> \<^verbatim>\<open>Request_Body\<close>: the rest of
    \<^verbatim>\<open>application/request_body.rs\<close>: the writer that spills to a temporary file, replay,
    inspection and capture of image edit forms, and the preparation of a body for the upstream. The multipart parser
    is the parameter \<open>parse\<close>.
  \<^item> \<^verbatim>\<open>Outbound_Headers\<close>: credentials of
    \<^verbatim>\<open>domain/upstream_credential.rs\<close>, header plans of
    \<^verbatim>\<open>transforms/mod.rs\<close>, the headers of a connector in
    \<^verbatim>\<open>application/connector.rs\<close>, and their assembly in
    \<^verbatim>\<open>application/proxy.rs\<close>.

  \<^bold>\<open>State and operations.\<close> A struct is a record with the fields of the source, an enum a datatype,
  an operation one function from the state to the state and a result. State behind a mutex or in atomics is passed
  explicitly; where requests run concurrently, what the others do is part of the relation, or an argument of the
  function, that the theorem quantifies over. How fine the steps are differs. A step of
  \<^verbatim>\<open>Admission\<close> is one critical section of its mutex. A step of
  \<^verbatim>\<open>Channel_Health\<close> and \<^verbatim>\<open>Channel_Leases\<close> is one atomic access or one
  critical section of a shard lock. In \<^verbatim>\<open>Selection\<close> the others act before the lookup, the
  claim and the increment of every acquisition, but the inspection of a tier reads the runtime at one moment; that
  health may change between the scans of one weighted choice is covered in \<^verbatim>\<open>Load_Balancing\<close>
  alone. A step of the spool is one operation, which the code runs under the writer lock or, for reading and
  checkpoints, in the only ingestion worker. Errors are values of a sum type with the source's error cases, a panic is
  \<open>None\<close>. Time is an argument. System calls of the spool take their outcome as an argument, a failing
  write also how much it wrote.

  \<^bold>\<open>What is shown.\<close>

  \<^item> Admission: leases and counters agree in every run, the concurrency limit and twice the request limit in any
    minute are never exceeded, the retry hint is sufficient, pruning is invisible, and the quota check is exact.
  \<^item> Selection: a selected route is one the key, the rule and the health of the channel permit, from the first
    usable tier, it honours an eligible remembered channel, and a selection has counted itself in exactly once if it
    returns a route and not at all otherwise.
  \<^item> Load balancing: the weighted choice returns once eligibility stops changing and is exactly proportional,
    smooth round robin is exact over a full cycle.
  \<^item> Health and affinity: the packed cool-down word implements an abstract breaker with a single probe; the
    in-flight counter of a channel is the number of its leases, and a tracked state with a lease out stays tracked. A
    further theorem shows that a reconfiguration between the lookup and the increment of an acquisition leaves its
    lease on a state no shard holds. The cache implements a bounded least-recently-used map with expiry.
  \<^item> Configuration and billing: lookup tables are equivalent to flat maps, masks to sets, fingerprints separate
    channels bound to different identities, validated prices cannot overflow, the tier and time window used are the
    right ones.
  \<^item> Request log: what is appended is read back, an interrupted append is cut back to the complete frames, a
    saved event of an admitted request is never lost and is delivered after a restart, and admission reserves the
    space it promises. One theorem exhibits the power loss after which the spool refuses to open, another a damaged
    length field that makes recovery drop complete frames.
  \<^item> Request policy and bodies: a validated contract decides every field and header as its sets say, and the
    embedded contract is valid; only allowed fields of a JSON body and allowed parts of a form leave, otherwise
    unchanged; the multipart guard accepts exactly the well-framed bodies; a captured form has the bytes of the
    request within its limits and temporary files are accounted for exactly.
  \<^item> Outbound headers: client headers are forwarded exactly as the contract says, and the headers sent upstream
    carry the channel's credential and never the client's.

  \<^bold>\<open>Bounds and fuel.\<close> No definition uses fuel. Loops are structural recursions or have a
  termination proof by a measure, except for the rejection sampling and the retry of the weighted choice and of
  selection, which depend on random values and on the health other requests leave, and the loop of the pattern
  matcher, which follows a table: these are partial functions into \<open>option\<close>.
  \<open>weighted_ticket_returns\<close> states when the choice returns, \<open>multipart_guard_exact\<close> that the
  matcher always does. Journal files are shorter than \<open>2 ^ 63\<close> bytes, the limit of the file interface.
  Counters that the code keeps at a width are words, or carry the saturation of the code.

  \<^bold>\<open>Not modelled.\<close> The HTTP, SSE and WebSocket front ends, the management console and the SQL
  repositories are input and output around library code. JSON patches of the transforms, provider adapters and usage
  scanning work on JSON documents of third parties; credential targets and endpoints are URLs that a library parses.
  The built-in Codex connector and what a plugin does with a body, its base64 projection included, are protocols of
  other systems. Background workers other than ingestion call the repositories. Of the image body spool, directory
  permissions and the low-space warning are left out. Of the durable worker, shutdown, metering and projection are
  left out, of the spool the advisory lock, file permissions, mutex poisoning and failing reads. That a loss of power
  undoes an unsynchronised truncation is an outcome of the compaction itself and not of a later step.
\<close>

end
